(* ===== verification/Prelude.thy ===== *)
theory Prelude
  imports Complex_Main "HOL-Library.Word"
begin

text \<open>
  Shared vocabulary of the development: Rust's machine integers as words, byte buffers,
  the result type of fallible operations with its sequencing combinators, the structured
  messages and error values of \<^verbatim>\<open>core/src/error.rs\<close> and of \<^verbatim>\<open>std::io\<close>, big-endian
  encoding of \<^verbatim>\<open>u32\<close>, and the generic list lemmas the component theories use.
  Two collections carry the component proofs: \<open>res_simps\<close> (inversion of sequenced results)
  and \<open>word_simps\<close> (checked arithmetic read as arithmetic on \<open>nat\<close>).
\<close>

section \<open>Machine integers\<close>

text \<open>
  \<^verbatim>\<open>usize\<close> has 64 bits: every release target of the repository is a 64-bit one. \<^verbatim>\<open>i64\<close> and
  \<^verbatim>\<open>i32\<close> are words read through \<^const>\<open>sint\<close>.
\<close>

type_synonym u8 = "8 word"
type_synonym u32 = "32 word"
type_synonym u64 = "64 word"
type_synonym usize = "64 word"
type_synonym i32 = "32 word"
type_synonym i64 = "64 word"
type_synonym bytes = "u8 list"

text \<open>
  An \<^verbatim>\<open>f32\<close> is not a number, an infinity, or a finite value given by its sign bit (\<open>True\<close>
  for negative) and its magnitude; the theory \<^verbatim>\<open>F32\<close> says which magnitudes are representable
  and defines the arithmetic.
\<close>

datatype f32 = NaN | Infinity bool | Finite bool rat

named_theorems res_simps
named_theorems word_simps

definition checked_add :: "u64 \<Rightarrow> u64 \<Rightarrow> u64 option" where
  "checked_add a b = (if unat a + unat b < 2 ^ 64 then Some (a + b) else None)"

definition saturating_add :: "u64 \<Rightarrow> u64 \<Rightarrow> u64" where
  "saturating_add a b = (if unat a + unat b < 2 ^ 64 then a + b else 18446744073709551615)"

lemma unat_add_u64:
  fixes a b :: u64
  assumes "unat a + unat b < 2 ^ 64"
  shows "unat (a + b) = unat a + unat b"
  using assms by (simp add: unat_word_ariths)

lemma checked_add_Some [word_simps]:
  "checked_add a b = Some c \<longleftrightarrow> unat c = unat a + unat b"
proof
  assume "checked_add a b = Some c"
  then show "unat c = unat a + unat b"
    by (auto simp: checked_add_def unat_add_u64 split: if_splits)
next
  assume c: "unat c = unat a + unat b"
  have "unat c < 2 ^ 64" using unsigned_less [of c] by simp
  with c have lt: "unat a + unat b < 2 ^ 64" by simp
  have "c = a + b"
    using c unat_add_u64 [OF lt] by (simp add: word_unat_eq_iff)
  with lt show "checked_add a b = Some c"
    by (simp add: checked_add_def)
qed

lemma checked_add_None [word_simps]:
  "checked_add a b = None \<longleftrightarrow> 2 ^ 64 \<le> unat a + unat b"
  by (auto simp: checked_add_def)

lemma unat_saturating_add [word_simps]:
  "unat (saturating_add a b) = min (unat a + unat b) (2 ^ 64 - 1)"
proof (cases "unat a + unat b < 2 ^ 64")
  case True
  then show ?thesis by (simp add: saturating_add_def unat_add_u64)
next
  case False
  then show ?thesis by (simp add: saturating_add_def)
qed

lemma unat_u64_less [simp]: "unat (x :: u64) < 18446744073709551616"
  using unsigned_less [of x] by simp

lemma unat_of_nat_u64: "n < 2 ^ 64 \<Longrightarrow> unat (of_nat n :: u64) = n"
  by (simp add: unat_of_nat take_bit_nat_eq_self)

lemma unat_u64_bound: "unat (x :: u64) < 2 ^ 64"
  using unsigned_less [of x] by simp

lemma mod_once: "(m :: nat) \<le> n \<Longrightarrow> n < m + m \<Longrightarrow> n mod m = n - m"
  by (simp add: mod_if)

lemma unat_add_wrap:
  fixes a b :: u64
  assumes "2 ^ 64 \<le> unat a + unat b"
  shows "unat (a + b) = unat a + unat b - 2 ^ 64"
proof -
  have "unat a + unat b < 2 ^ 64 + 2 ^ 64"
    by (rule add_strict_mono [OF unat_u64_bound unat_u64_bound])
  with assms have "(unat a + unat b) mod 2 ^ 64 = unat a + unat b - 2 ^ 64" by (rule mod_once)
  moreover have "unat (a + b) = (unat a + unat b) mod 2 ^ 64"
    using unat_word_ariths(1) [of a b] by simp
  ultimately show ?thesis by simp
qed

lemma unat_diff_u64: "(a :: u64) \<le> b \<Longrightarrow> unat (b - a) = unat b - unat a"
  by (simp add: unat_sub)

section \<open>Results of fallible operations\<close>

text \<open>
  \<^verbatim>\<open>Result<T, E>\<close> is the sum \<open>'e + 'a\<close>: \<open>Inl\<close> the error, \<open>Inr\<close> the value. The
  operator \<^verbatim>\<open>?\<close> is \<open>res_bind\<close>, \<^verbatim>\<open>map_err\<close> is \<open>map_err\<close>, \<^verbatim>\<open>ok_or_else\<close> is \<open>ok_or\<close>,
  and a loop that collects results until the first error is \<open>res_collect\<close>.
\<close>

definition res_bind :: "'e + 'a \<Rightarrow> ('a \<Rightarrow> 'e + 'b) \<Rightarrow> 'e + 'b" where
  "res_bind r f = (case r of Inl e \<Rightarrow> Inl e | Inr x \<Rightarrow> f x)"

definition map_err :: "('e \<Rightarrow> 'd) \<Rightarrow> 'e + 'a \<Rightarrow> 'd + 'a" where
  "map_err g r = (case r of Inl e \<Rightarrow> Inl (g e) | Inr x \<Rightarrow> Inr x)"

definition ok_or :: "'e \<Rightarrow> 'a option \<Rightarrow> 'e + 'a" where
  "ok_or e x = (case x of None \<Rightarrow> Inl e | Some a \<Rightarrow> Inr a)"

definition guard :: "bool \<Rightarrow> 'e \<Rightarrow> 'e + unit" where
  "guard b e = (if b then Inr () else Inl e)"

fun res_collect :: "('a \<Rightarrow> 'e + 'b) \<Rightarrow> 'a list \<Rightarrow> 'e + 'b list" where
  "res_collect f [] = Inr []"
| "res_collect f (x # xs) =
     (case f x of Inl e \<Rightarrow> Inl e
      | Inr y \<Rightarrow> (case res_collect f xs of Inl e \<Rightarrow> Inl e | Inr ys \<Rightarrow> Inr (y # ys)))"

fun res_foldl :: "('s \<Rightarrow> 'a \<Rightarrow> 'e + 's) \<Rightarrow> 's \<Rightarrow> 'a list \<Rightarrow> 'e + 's" where
  "res_foldl f s [] = Inr s"
| "res_foldl f s (x # xs) = (case f s x of Inl e \<Rightarrow> Inl e | Inr s' \<Rightarrow> res_foldl f s' xs)"

lemma res_bind_simps [simp]:
  "res_bind (Inl e) f = Inl e"
  "res_bind (Inr x) f = f x"
  by (simp_all add: res_bind_def)

lemma res_bind_Inr [res_simps]:
  "res_bind r f = Inr y \<longleftrightarrow> (\<exists>x. r = Inr x \<and> f x = Inr y)"
  by (cases r) simp_all

lemma res_bind_Inl [res_simps]:
  "res_bind r f = Inl e \<longleftrightarrow> r = Inl e \<or> (\<exists>x. r = Inr x \<and> f x = Inl e)"
  by (cases r) simp_all

lemma res_bind_assoc: "res_bind (res_bind r f) g = res_bind r (\<lambda>x. res_bind (f x) g)"
  by (cases r) simp_all

lemma map_err_simps [simp]:
  "map_err g (Inl e) = Inl (g e)"
  "map_err g (Inr x) = Inr x"
  by (simp_all add: map_err_def)

lemma map_err_Inr [res_simps]: "map_err g r = Inr x \<longleftrightarrow> r = Inr x"
  by (cases r) simp_all

lemma map_err_Inl [res_simps]: "map_err g r = Inl d \<longleftrightarrow> (\<exists>e. r = Inl e \<and> d = g e)"
  by (cases r) auto

lemma ok_or_simps [simp]:
  "ok_or e None = Inl e"
  "ok_or e (Some a) = Inr a"
  by (simp_all add: ok_or_def)

lemma ok_or_Inr [res_simps]: "ok_or e x = Inr a \<longleftrightarrow> x = Some a"
  by (cases x) simp_all

lemma ok_or_Inl [res_simps]: "ok_or e x = Inl d \<longleftrightarrow> x = None \<and> d = e"
  by (cases x) auto

lemma guard_simps [simp]:
  "guard True e = Inr ()"
  "guard False e = Inl e"
  by (simp_all add: guard_def)

lemma guard_Inr [res_simps]: "guard b e = Inr u \<longleftrightarrow> b"
  by (simp add: guard_def)

lemma guard_Inl [res_simps]: "guard b e = Inl d \<longleftrightarrow> \<not> b \<and> d = e"
  by (auto simp: guard_def)

lemma res_collect_Inr:
  "res_collect f xs = Inr ys \<longleftrightarrow> list_all2 (\<lambda>x y. f x = Inr y) xs ys"
proof (induction xs arbitrary: ys)
  case (Cons x xs)
  show ?case
  proof (cases "f x")
    case (Inr y)
    with Cons.IH show ?thesis
      by (cases "res_collect f xs") (auto simp: list_all2_Cons1)
  qed (simp add: list_all2_Cons1)
qed auto

lemma res_collect_length: "res_collect f xs = Inr ys \<Longrightarrow> length ys = length xs"
  by (simp add: res_collect_Inr list_all2_lengthD)

lemma res_collect_Inr_map:
  "(\<And>x. x \<in> set xs \<Longrightarrow> f x = Inr (g x)) \<Longrightarrow> res_collect f xs = Inr (map g xs)"
  by (induction xs) simp_all

lemma res_collect_Inl:
  "res_collect f xs = Inl e \<Longrightarrow> \<exists>x \<in> set xs. f x = Inl e"
  by (induction xs) (auto split: sum.splits)

lemma res_collect_append:
  "res_collect f (xs @ ys) =
     res_bind (res_collect f xs) (\<lambda>as. res_bind (res_collect f ys) (\<lambda>bs. Inr (as @ bs)))"
  by (induction xs) (auto simp: res_bind_def split: sum.splits)

lemma res_collect_img:
  assumes "res_collect f xs = Inr ys" and "x \<in> set xs"
  shows "\<exists>y \<in> set ys. f x = Inr y"
  using assms by (auto simp: res_collect_Inr list_all2_conv_all_nth in_set_conv_nth)

lemma res_collect_tag:
  "res_collect (\<lambda>x. res_bind (f x) (\<lambda>y. Inr (g x, y))) xs
     = res_bind (res_collect f xs) (\<lambda>ys. Inr (zip (map g xs) ys))"
  by (induction xs) (auto simp: res_bind_def split: sum.splits)

lemma res_collect_set:
  assumes "res_collect f xs = Inr ys" and "y \<in> set ys"
  shows "\<exists>x \<in> set xs. f x = Inr y"
  using assms by (auto simp: res_collect_Inr list_all2_conv_all_nth in_set_conv_nth) (metis nth_mem)

lemma res_foldl_append:
  "res_foldl f s (xs @ ys) = res_bind (res_foldl f s xs) (\<lambda>t. res_foldl f t ys)"
  by (induction xs arbitrary: s) (auto split: sum.splits)

lemma res_foldl_invariant:
  assumes "res_foldl f s xs = Inr t" and "P s"
    and "\<And>s x s'. P s \<Longrightarrow> x \<in> set xs \<Longrightarrow> f s x = Inr s' \<Longrightarrow> P s'"
  shows "P t"
  using assms
proof (induction xs arbitrary: s)
  case (Cons x xs)
  from Cons.prems(1) obtain s' where step: "f s x = Inr s'" and rest: "res_foldl f s' xs = Inr t"
    by (auto split: sum.splits)
  have "P s'" by (rule Cons.prems(3) [OF Cons.prems(2) _ step]) simp
  then show ?case using Cons.IH [OF rest] Cons.prems(3) by (meson list.set_intros(2))
qed auto

lemma res_foldl_accepted:
  "res_foldl f s xs = Inr t \<Longrightarrow> x \<in> set xs \<Longrightarrow> \<exists>s s'. f s x = Inr s'"
  by (induction xs arbitrary: s) (auto split: sum.splits)

lemma res_foldl_accepts:
  "(\<And>x s. x \<in> set xs \<Longrightarrow> \<exists>s'. f s x = Inr s') \<Longrightarrow> \<exists>t. res_foldl f s xs = Inr t"
proof (induction xs arbitrary: s)
  case (Cons x xs)
  from Cons.prems [of x s] obtain s' where "f s x = Inr s'" by auto
  moreover from Cons.IH [of s'] Cons.prems have "\<exists>t. res_foldl f s' xs = Inr t" by simp
  ultimately show ?case by auto
qed simp

section \<open>Results with state\<close>

text \<open>
  An operation on shared or mutable state takes the state and returns it with a result: the
  state is kept on the error path too, as Rust keeps every effect that happened before \<^verbatim>\<open>?\<close>.
\<close>

type_synonym ('s, 'e, 'a) st_res = "'s \<Rightarrow> 's \<times> ('e + 'a)"

definition st_lift :: "'e + 'a \<Rightarrow> ('s, 'e, 'a) st_res" where
  "st_lift r = (\<lambda>s. (s, r))"

definition st_bind ::
  "('s, 'e, 'a) st_res \<Rightarrow> ('a \<Rightarrow> ('s, 'e, 'b) st_res) \<Rightarrow> ('s, 'e, 'b) st_res" where
  "st_bind m f = (\<lambda>s. case m s of (s', r) \<Rightarrow>
      (case r of Inl e \<Rightarrow> (s', Inl e) | Inr x \<Rightarrow> f x s'))"

definition st_map_err :: "('e \<Rightarrow> 'd) \<Rightarrow> ('s, 'e, 'a) st_res \<Rightarrow> ('s, 'd, 'a) st_res" where
  "st_map_err g m = (\<lambda>s. case m s of (s', r) \<Rightarrow> (s', map_err g r))"

lemma st_lift_apply [simp]: "st_lift r s = (s, r)"
  by (simp add: st_lift_def)

lemma st_bind_apply_Inr [simp]: "m s = (s', Inr x) \<Longrightarrow> st_bind m f s = f x s'"
  by (simp add: st_bind_def)

lemma st_bind_apply_Inl [simp]: "m s = (s', Inl e) \<Longrightarrow> st_bind m f s = (s', Inl e)"
  by (simp add: st_bind_def)

lemma st_bind_lift [simp]:
  "st_bind (st_lift (Inr x)) f = f x"
  "st_bind (st_lift (Inl e)) f = st_lift (Inl e)"
  by (simp_all add: fun_eq_iff)

lemma st_bind_split:
  "st_bind m f s = (case m s of (t, Inl e) \<Rightarrow> (t, Inl e) | (t, Inr x) \<Rightarrow> f x t)"
  by (simp add: st_bind_def split: prod.splits sum.splits)

lemma st_bind_Inr [res_simps]:
  "st_bind m f s = (t, Inr y) \<longleftrightarrow> (\<exists>u x. m s = (u, Inr x) \<and> f x u = (t, Inr y))"
  by (cases "m s"; cases "snd (m s)") auto

lemma st_bind_Inl [res_simps]:
  "st_bind m f s = (t, Inl e) \<longleftrightarrow>
     m s = (t, Inl e) \<or> (\<exists>u x. m s = (u, Inr x) \<and> f x u = (t, Inl e))"
  by (cases "m s"; cases "snd (m s)") auto

lemma st_map_err_Inr [res_simps]: "st_map_err g m s = (t, Inr x) \<longleftrightarrow> m s = (t, Inr x)"
  by (cases "m s") (auto simp: st_map_err_def res_simps)

lemma st_map_err_Inl [res_simps]:
  "st_map_err g m s = (t, Inl d) \<longleftrightarrow> (\<exists>e. m s = (t, Inl e) \<and> d = g e)"
  by (cases "m s") (auto simp: st_map_err_def res_simps)

section \<open>Messages and errors\<close>

text \<open>
  The text of a \<^verbatim>\<open>format!\<close> is kept as its segments: literal pieces and the arguments, each
  with its type, so a message is compared without rendering numbers. \<open>io_error\<close> is
  \<^verbatim>\<open>std::io::Error\<close> with the kinds the sources create; \<open>ft_error\<close> is
  \<^verbatim>\<open>FtIndexError\<close>. Errors of serde_json and tantivy that the sources only pass on are
  opaque messages.
\<close>

datatype msg_part = Lit string | ArgStr string | ArgNat nat | ArgInt int | ArgF32 f32

type_synonym message = "msg_part list"

text \<open>A literal piece, an argument in single quotes, and a second piece.\<close>

definition quoted :: "string \<Rightarrow> string \<Rightarrow> string \<Rightarrow> message" where
  "quoted before arg after =
     [Lit (before @ [CHR 0x27]), ArgStr arg, Lit (CHR 0x27 # after)]"

datatype io_kind = InvalidInput | InvalidData | UnexpectedEof | PermissionDenied | OtherKind

datatype io_error = IoError io_kind message

datatype tantivy_error = InvalidArgument message | TantivyOther message

datatype ft_error =
    InvalidOption string message
  | InvalidQuery message
  | InvalidStorage message
  | Io io_error
  | Json message
  | Tantivy tantivy_error

section \<open>Big-endian encoding\<close>

definition u32_to_be_bytes :: "u32 \<Rightarrow> bytes" where
  "u32_to_be_bytes w =
     map (\<lambda>k. of_nat (unat w div 256 ^ k mod 256)) [3, 2, 1, 0]"

definition u32_from_be_bytes :: "bytes \<Rightarrow> u32" where
  "u32_from_be_bytes bs = of_nat (foldl (\<lambda>a b. 256 * a + unat b) 0 bs)"

lemma length_u32_to_be_bytes [simp]: "length (u32_to_be_bytes w) = 4"
  by (simp add: u32_to_be_bytes_def)

lemma unat_u8_of_mod: "unat (of_nat (n mod 256) :: u8) = n mod 256"
  by (simp add: unat_of_nat take_bit_eq_mod)

lemma base256_digits:
  "256 * (256 * (256 * (n div 16777216) + n div 65536 mod 256) + n div 256 mod 256)
     + n mod 256 = (n :: nat)"
proof -
  have a: "n div 65536 = n div 256 div 256" and b: "n div 16777216 = n div 256 div 256 div 256"
    by (simp_all flip: div_mult2_eq)
  show ?thesis unfolding a b by (simp only: mult_div_mod_eq)
qed

lemma u32_from_to_be_bytes [simp]: "u32_from_be_bytes (u32_to_be_bytes w) = w"
proof -
  have lt: "unat w < 4294967296" using unsigned_less [of w] by simp
  have "foldl (\<lambda>a b. 256 * a + unat b) 0 (u32_to_be_bytes w) = unat w"
    using base256_digits [of "unat w"] lt
    by (simp add: u32_to_be_bytes_def unat_of_nat take_bit_eq_mod)
  then show ?thesis by (simp add: u32_from_be_bytes_def)
qed

section \<open>Lists\<close>

lemma count_list_distinct: "distinct xs \<Longrightarrow> count_list xs x \<le> 1"
  by (induction xs) auto

text \<open>A Rust slice \<^verbatim>\<open>xs[a..b]\<close> within bounds.\<close>

definition subslice :: "nat \<Rightarrow> nat \<Rightarrow> 'a list \<Rightarrow> 'a list" where
  "subslice a b xs = take (b - a) (drop a xs)"

lemma length_subslice [simp]: "b \<le> length xs \<Longrightarrow> length (subslice a b xs) = b - a"
  by (simp add: subslice_def)

lemma subslice_subslice:
  assumes "a + d \<le> b"
  shows "subslice c d (subslice a b xs) = subslice (a + c) (a + d) xs"
proof (cases "c \<le> d")
  case True
  with assms show ?thesis
    by (simp add: subslice_def drop_take min_absorb1 add.commute)
qed (simp add: subslice_def)

lemma subslice_append_left: "b \<le> length xs \<Longrightarrow> subslice a b (xs @ ys) = subslice a b xs"
  by (cases "a \<le> b") (simp_all add: subslice_def)

lemma subslice_append_right:
  "length xs \<le> a \<Longrightarrow> subslice a b (xs @ ys) = subslice (a - length xs) (b - length xs) ys"
  by (cases "a \<le> b") (simp_all add: subslice_def)

lemma subslice_middle: "subslice (length xs) (length xs + length ys) (xs @ ys @ zs) = ys"
  by (simp add: subslice_def)

lemma subslice_empty [simp]: "subslice a a xs = []"
  by (simp add: subslice_def)

lemma subslice_all [simp]: "subslice 0 (length xs) xs = xs"
  by (simp add: subslice_def)

lemma subslice_join:
  assumes "a \<le> b" and "b \<le> c"
  shows "subslice a b xs @ subslice b c xs = subslice a c xs"
proof -
  have "subslice b c xs = take (c - b) (drop (b - a) (drop a xs))"
    using assms(1) by (simp add: subslice_def)
  moreover have "c - a = (b - a) + (c - b)" using assms by simp
  ultimately show ?thesis by (simp only: subslice_def take_add)
qed

end
