(* ===== verification/Json.thy ===== *)
theory Json
  imports Prelude
begin

text \<open>
  JSON values and the deserialization rules that the serde attributes of the sources ask for.
  The text of a document is parsed and printed by serde_json, which is a parameter of the
  development (\<open>json_text\<close>); what a parsed document means as a Rust value is determined by the
  derive attributes in \<^verbatim>\<open>core/src/query.rs\<close>, \<^verbatim>\<open>config.rs\<close>, \<^verbatim>\<open>tokenizer.rs\<close> and \<^verbatim>\<open>storage.rs\<close>
  and is modelled here: structs are read from objects (unknown keys ignored, repeated fields
  and aliases refused) or from arrays by position, missing fields take their default or are an
  error. An object keeps its entries in order, repeated keys included.
\<close>

section \<open>Values\<close>

text \<open>A number is an unsigned or negative 64-bit integer, or the sign and magnitude of a finite \<^verbatim>\<open>f64\<close>.\<close>

datatype json_num = PosInt u64 | NegInt int | Float bool rat

datatype json =
    JNull
  | JBool bool
  | JNum json_num
  | JStr string
  | JArr "json list"
  | JObj "(string \<times> json) list"

record json_text =
  jt_print :: "json \<Rightarrow> message + bytes"
  jt_parse :: "bytes \<Rightarrow> message + json"

type_synonym 'a de = "json \<Rightarrow> message + 'a"

abbreviation de_error :: "string \<Rightarrow> message + 'a" where
  "de_error msg \<equiv> Inl [Lit msg]"

section \<open>Primitive types\<close>

fun de_bool :: "bool de" where
  "de_bool (JBool b) = Inr b"
| "de_bool _ = de_error ''invalid type, expected a boolean''"

fun de_string :: "string de" where
  "de_string (JStr s) = Inr s"
| "de_string _ = de_error ''invalid type, expected a string''"

fun de_u64 :: "u64 de" where
  "de_u64 (JNum (PosInt n)) = Inr n"
| "de_u64 _ = de_error ''invalid type, expected u64''"

definition de_u32 :: "u32 de" where
  "de_u32 j = res_bind (de_u64 j)
     (\<lambda>n. if unat n < 2 ^ 32 then Inr (of_nat (unat n))
           else de_error ''invalid value, expected u32'')"

fun de_vec :: "'a de \<Rightarrow> 'a list de" where
  "de_vec f (JArr xs) = res_collect f xs"
| "de_vec f _ = de_error ''invalid type, expected a sequence''"

fun de_option :: "'a de \<Rightarrow> 'a option de" where
  "de_option f JNull = Inr None"
| "de_option f j = res_bind (f j) (\<lambda>x. Inr (Some x))"

section \<open>Structs\<close>

text \<open>
  The fields of a struct are given by their accepted names (the field name and its aliases),
  in declaration order; the result has a slot per field.
\<close>

fun field_index :: "string list list \<Rightarrow> string \<Rightarrow> nat option" where
  "field_index [] k = None"
| "field_index (ns # nss) k =
     (if k \<in> set ns then Some 0 else map_option Suc (field_index nss k))"

fun fill_slots ::
  "string list list \<Rightarrow> json option list \<Rightarrow> (string \<times> json) list \<Rightarrow> message + json option list" where
  "fill_slots names slots [] = Inr slots"
| "fill_slots names slots ((k, v) # kvs) =
     (case field_index names k of
        None \<Rightarrow> fill_slots names slots kvs
      | Some i \<Rightarrow> (if slots ! i \<noteq> None then Inl [Lit ''duplicate field '', ArgStr k]
                  else fill_slots names (slots[i := Some v]) kvs))"

fun struct_slots :: "string list list \<Rightarrow> json option list de" where
  "struct_slots names (JObj kvs) = fill_slots names (replicate (length names) None) kvs"
| "struct_slots names (JArr xs) =
     (if length names < length xs then de_error ''invalid length, trailing elements''
      else Inr (map Some xs @ replicate (length names - length xs) None))"
| "struct_slots names _ = de_error ''invalid type, expected a struct''"

definition field_req :: "string \<Rightarrow> 'a de \<Rightarrow> json option \<Rightarrow> message + 'a" where
  "field_req name f slot =
     (case slot of None \<Rightarrow> Inl [Lit ''missing field '', ArgStr name] | Some j \<Rightarrow> f j)"

definition field_or :: "'a \<Rightarrow> 'a de \<Rightarrow> json option \<Rightarrow> message + 'a" where
  "field_or d f slot = (case slot of None \<Rightarrow> Inr d | Some j \<Rightarrow> f j)"

lemma field_simps [simp]:
  "field_req n f (Some j) = f j" "field_or d f (Some j) = f j" "field_or d f None = Inr d"
  "field_req n f None = Inl [Lit ''missing field '', ArgStr n]"
  by (simp_all add: field_req_def field_or_def)

text \<open>
  An enum in serde's externally tagged form: a string names a variant without content, an
  object with one entry names a variant and gives its content.
\<close>

fun enum_tag :: "(string \<times> json) de" where
  "enum_tag (JStr s) = Inr (s, JNull)"
| "enum_tag (JObj [(k, v)]) = Inr (k, v)"
| "enum_tag _ = de_error ''invalid type, expected an externally tagged enum''"

section \<open>Subterms\<close>

lemma field_index_less: "field_index names k = Some i \<Longrightarrow> i < length names"
  by (induction names arbitrary: i) (auto split: if_splits)

lemma fill_slots_length: "fill_slots names slots kvs = Inr slots' \<Longrightarrow> length slots' = length slots"
  by (induction names slots kvs rule: fill_slots.induct)
    (auto split: option.splits if_splits)

lemma struct_slots_length: "struct_slots names j = Inr slots \<Longrightarrow> length slots = length names"
  by (cases j) (auto dest: fill_slots_length split: if_splits)

lemma fill_slots_subterm:
  "fill_slots names slots kvs = Inr slots' \<Longrightarrow> Some v \<in> set slots' \<Longrightarrow>
     Some v \<in> set slots \<or> v \<in> snd ` set kvs"
proof (induction names slots kvs rule: fill_slots.induct)
  case (2 names slots k v' kvs)
  show ?case
  proof (cases "field_index names k")
    case None
    with 2 show ?thesis by auto
  next
    case (Some i)
    with "2.prems" have "slots ! i = None"
      and run: "fill_slots names (slots[i := Some v']) kvs = Inr slots'"
      by (auto split: if_splits)
    with "2.IH"(2) [OF Some _ run] "2.prems"(2) show ?thesis
      by (auto dest!: set_update_subset_insert [THEN subsetD])
  qed
qed simp

lemma size_json_member:
  "v \<in> set xs \<Longrightarrow> size v < size (JArr xs)"
  "(k, v) \<in> set kvs \<Longrightarrow> size v < size (JObj kvs)"
proof -
  show "v \<in> set xs \<Longrightarrow> size v < size (JArr xs)"
    by (induction xs) auto
  show "(k, v) \<in> set kvs \<Longrightarrow> size v < size (JObj kvs)"
    by (induction kvs) auto
qed

lemma struct_slots_size:
  "struct_slots names j = Inr slots \<Longrightarrow> Some v \<in> set slots \<Longrightarrow> size v < size j"
  by (cases j)
    (auto split: if_splits dest!: fill_slots_subterm intro: size_json_member simp del: json.size)

lemma enum_tag_size: "enum_tag j = Inr (k, v) \<Longrightarrow> v = JNull \<or> size v < size j"
  by (cases j rule: enum_tag.cases) auto

end
