(* ===== verification/RustStr.thy ===== *)
theory RustStr
  imports Prelude
begin

text \<open>
  Rust's \<^verbatim>\<open>str\<close> and the methods the sources call on it. A \<^verbatim>\<open>str\<close> is its UTF-8 bytes, a HOL
  \<^typ>\<open>string\<close> whose characters are bytes; \<open>char_groups\<close> cuts it into the byte groups of its
  Unicode scalar values (\<^verbatim>\<open>str::chars\<close>), so offsets and lengths are byte counts as in Rust.
  White space is the Unicode property \<^verbatim>\<open>White_Space\<close> written out. The lower-case mapping of
  strings with non-ASCII characters comes from the Unicode tables shipped with the compiler:
  it is a parameter (\<open>unicode_lower\<close>) of every definition that needs it.
\<close>

section \<open>Characters of a string\<close>

definition is_cont_byte :: "char \<Rightarrow> bool" where
  "is_cont_byte c \<longleftrightarrow> 128 \<le> (of_char c :: nat) \<and> (of_char c :: nat) < 192"

function char_groups :: "string \<Rightarrow> string list" where
  "char_groups [] = []"
| "char_groups (c # cs) = (c # takeWhile is_cont_byte cs) # char_groups (dropWhile is_cont_byte cs)"
  by pat_completeness auto
termination
  by (relation "measure length") (auto simp: length_dropWhile_le le_imp_less_Suc)

definition is_ascii :: "char \<Rightarrow> bool" where
  "is_ascii c \<longleftrightarrow> (of_char c :: nat) < 128"

lemma is_cont_byte_Char [simp, code]:
  "is_cont_byte (Char b0 b1 b2 b3 b4 b5 b6 b7) \<longleftrightarrow> b7 \<and> \<not> b6"
  by (cases b0; cases b1; cases b2; cases b3; cases b4; cases b5; cases b6; cases b7)
    (simp_all add: is_cont_byte_def)

lemma is_ascii_Char [simp, code]:
  "is_ascii (Char b0 b1 b2 b3 b4 b5 b6 b7) \<longleftrightarrow> \<not> b7"
  by (cases b0; cases b1; cases b2; cases b3; cases b4; cases b5; cases b6; cases b7)
    (simp_all add: is_ascii_def)

lemma concat_char_groups [simp]: "concat (char_groups s) = s"
  by (induction s rule: char_groups.induct) simp_all

lemma char_groups_eq_Nil [simp]: "char_groups s = [] \<longleftrightarrow> s = []"
  by (cases s) simp_all

text \<open>
  A list of groups is well formed when each is a byte followed by continuation bytes and each
  but the first starts with a non-continuation byte; these are exactly the lists that
  \<open>char_groups\<close> produces.
\<close>

definition group_ok :: "string \<Rightarrow> bool" where
  "group_ok g \<longleftrightarrow> g \<noteq> [] \<and> list_all is_cont_byte (tl g)"

definition starts_char :: "string \<Rightarrow> bool" where
  "starts_char g \<longleftrightarrow> g \<noteq> [] \<and> \<not> is_cont_byte (hd g)"

definition groups_ok :: "string list \<Rightarrow> bool" where
  "groups_ok gs \<longleftrightarrow> list_all group_ok gs \<and> list_all starts_char (tl gs)"

lemma starts_char_hd_dropWhile:
  "gs \<noteq> [] \<Longrightarrow> char_groups (dropWhile is_cont_byte cs) = gs \<Longrightarrow> starts_char (hd gs)"
  by (cases "dropWhile is_cont_byte cs")
    (auto simp: starts_char_def dropWhile_eq_Cons_conv)

lemma groups_ok_char_groups [simp]: "groups_ok (char_groups s)"
proof (induction s rule: char_groups.induct)
  case (2 c cs)
  let ?gs = "char_groups (dropWhile is_cont_byte cs)"
  have "list_all starts_char ?gs"
    using "2.IH" starts_char_hd_dropWhile [of ?gs cs]
    by (cases ?gs) (auto simp: groups_ok_def simp del: char_groups_eq_Nil)
  moreover have "group_ok (c # takeWhile is_cont_byte cs)"
    by (simp add: group_ok_def list_all_iff) (meson set_takeWhileD)
  ultimately show ?case using "2.IH" by (simp add: groups_ok_def)
qed (simp add: groups_ok_def)

lemma concat_starts: "list_all starts_char gs \<Longrightarrow> gs \<noteq> [] \<Longrightarrow> starts_char (concat gs)"
  by (cases gs) (auto simp: starts_char_def)

lemma takeWhile_group:
  assumes "list_all is_cont_byte g" and "rest = [] \<or> starts_char rest"
  shows "takeWhile is_cont_byte (g @ rest) = g" and "dropWhile is_cont_byte (g @ rest) = rest"
  using assms by (auto simp: starts_char_def list_all_iff takeWhile_append dropWhile_append
      neq_Nil_conv)

lemma groups_ok_ConsD: "groups_ok (g # gs) \<Longrightarrow> groups_ok gs"
  by (cases gs) (simp_all add: groups_ok_def)

lemma char_groups_concat: "groups_ok gs \<Longrightarrow> char_groups (concat gs) = gs"
proof (induction gs)
  case (Cons g gs)
  then obtain c g' where g: "g = c # g'" and g': "list_all is_cont_byte g'"
    by (cases g) (auto simp: groups_ok_def group_ok_def)
  have rest: "concat gs = [] \<or> starts_char (concat gs)"
    using Cons.prems concat_starts [of gs] by (cases "gs = []") (auto simp: groups_ok_def)
  have "groups_ok gs"
    using Cons.prems by (rule groups_ok_ConsD)
  then show ?case
    using Cons.IH takeWhile_group [OF g' rest] by (simp add: g)
qed simp

lemma groups_ok_dropWhile: "groups_ok gs \<Longrightarrow> groups_ok (dropWhile P gs)"
  by (induction gs) (auto dest: groups_ok_ConsD)

lemma groups_ok_butlast: "groups_ok gs \<Longrightarrow> groups_ok (take n gs)"
  by (cases n; cases gs) (auto simp: groups_ok_def list_all_iff dest: in_set_takeD)

lemma groups_ok_rev_dropWhile: "groups_ok gs \<Longrightarrow> groups_ok (rev (dropWhile P (rev gs)))"
proof -
  assume ok: "groups_ok gs"
  have "rev (dropWhile P (rev gs)) = take (length (dropWhile P (rev gs))) gs"
    by (metis length_rev rev_rev_ident rev_take takeWhile_dropWhile_id append_eq_conv_conj
        rev_append diff_diff_cancel length_dropWhile_le)
  then show ?thesis by (simp add: groups_ok_butlast [OF ok])
qed

section \<open>White space and trimming\<close>

definition white_space_chars :: "string list" where
  "white_space_chars = [
     [CHR 0x09], [CHR 0x0A], [CHR 0x0B], [CHR 0x0C], [CHR 0x0D], [CHR 0x20],
     [CHR 0xC2, CHR 0x85], [CHR 0xC2, CHR 0xA0], [CHR 0xE1, CHR 0x9A, CHR 0x80],
     [CHR 0xE2, CHR 0x80, CHR 0x80], [CHR 0xE2, CHR 0x80, CHR 0x81],
     [CHR 0xE2, CHR 0x80, CHR 0x82], [CHR 0xE2, CHR 0x80, CHR 0x83],
     [CHR 0xE2, CHR 0x80, CHR 0x84], [CHR 0xE2, CHR 0x80, CHR 0x85],
     [CHR 0xE2, CHR 0x80, CHR 0x86], [CHR 0xE2, CHR 0x80, CHR 0x87],
     [CHR 0xE2, CHR 0x80, CHR 0x88], [CHR 0xE2, CHR 0x80, CHR 0x89],
     [CHR 0xE2, CHR 0x80, CHR 0x8A], [CHR 0xE2, CHR 0x80, CHR 0xA8],
     [CHR 0xE2, CHR 0x80, CHR 0xA9], [CHR 0xE2, CHR 0x80, CHR 0xAF],
     [CHR 0xE2, CHR 0x81, CHR 0x9F], [CHR 0xE3, CHR 0x80, CHR 0x80]]"

definition is_white_space :: "string \<Rightarrow> bool" where
  "is_white_space g \<longleftrightarrow> g \<in> set white_space_chars"

definition trim :: "string \<Rightarrow> string" where
  "trim s = concat (rev (dropWhile is_white_space (rev
              (dropWhile is_white_space (char_groups s)))))"

abbreviation is_blank :: "string \<Rightarrow> bool" where
  "is_blank s \<equiv> trim s = []"

definition trimmed_groups :: "string list \<Rightarrow> string list" where
  "trimmed_groups gs = rev (dropWhile is_white_space (rev (dropWhile is_white_space gs)))"

lemma trim_trimmed_groups: "trim s = concat (trimmed_groups (char_groups s))"
  by (simp add: trim_def trimmed_groups_def)

lemma char_groups_trim: "char_groups (trim s) = trimmed_groups (char_groups s)"
  unfolding trim_trimmed_groups trimmed_groups_def
  by (intro char_groups_concat groups_ok_rev_dropWhile groups_ok_dropWhile) simp

lemma dropWhile_rev_dropWhile:
  "dropWhile P (rev (dropWhile P (rev (dropWhile P xs)))) = rev (dropWhile P (rev (dropWhile P xs)))"
proof (cases "dropWhile P xs")
  case (Cons y ys)
  then have "\<not> P y" by (simp add: dropWhile_eq_Cons_conv)
  then show ?thesis by (simp add: Cons dropWhile_append)
next
  case Nil
  then show ?thesis by (simp only: Nil rev.simps dropWhile.simps)
qed

lemma trimmed_groups_idem [simp]: "trimmed_groups (trimmed_groups gs) = trimmed_groups gs"
  by (simp add: trimmed_groups_def dropWhile_rev_dropWhile)

lemma trim_trim [simp]: "trim (trim s) = trim s"
  unfolding trim_trimmed_groups [of "trim s"] char_groups_trim
  by (simp add: trim_trimmed_groups)

lemma trim_Nil [simp]: "trim [] = []"
  by (simp add: trim_def)

lemma dropWhile_rev_dropWhile_Nil:
  "dropWhile P (rev (dropWhile P xs)) = [] \<longleftrightarrow> list_all P xs"
proof (cases "dropWhile P xs = []")
  case True
  then show ?thesis by (simp only: True rev.simps dropWhile.simps) (use True in \<open>simp add: list_all_iff\<close>)
next
  case False
  then have "hd (dropWhile P xs) \<in> set (rev (dropWhile P xs))" by simp
  moreover have "\<not> P (hd (dropWhile P xs))" using False by (rule hd_dropWhile)
  ultimately have "dropWhile P (rev (dropWhile P xs)) \<noteq> []"
    unfolding dropWhile_eq_Nil_conv by blast
  moreover have "\<not> list_all P xs"
    using False by (auto simp: list_all_iff)
  ultimately show ?thesis by simp
qed

text \<open>A string is blank exactly when all its characters are white space.\<close>

lemma is_blank_iff: "is_blank s \<longleftrightarrow> list_all is_white_space (char_groups s)"
proof -
  have "is_blank s \<longleftrightarrow> trimmed_groups (char_groups s) = []"
    by (metis char_groups_trim char_groups_eq_Nil)
  also have "\<dots> \<longleftrightarrow> list_all is_white_space (char_groups s)"
    by (simp only: trimmed_groups_def rev_is_Nil_conv dropWhile_rev_dropWhile_Nil)
  finally show ?thesis .
qed

lemma set_trim: "set (trim s) \<subseteq> set s"
proof -
  have "set (trimmed_groups gs) \<subseteq> set gs" for gs
    by (auto simp: trimmed_groups_def dest!: set_dropWhileD)
  then have "set (trim s) \<subseteq> set (concat (char_groups s))"
    unfolding trim_trimmed_groups set_concat by blast
  then show ?thesis by simp
qed

section \<open>Case, splitting, prefixes\<close>

definition ascii_lower :: "char \<Rightarrow> char" where
  "ascii_lower c = (let n = of_char c :: nat in
     if 65 \<le> n \<and> n \<le> 90 then char_of (n + 32) else c)"

lemma ascii_lower_Char [simp, code]:
  "ascii_lower (Char b0 b1 b2 b3 b4 b5 b6 b7) =
     (if \<not> b7 \<and> b6 \<and> \<not> b5 \<and> (b0 \<or> b1 \<or> b2 \<or> b3 \<or> b4)
         \<and> \<not> (b4 \<and> b3 \<and> (b2 \<or> b1 \<and> b0))
      then Char b0 b1 b2 b3 b4 True b6 b7 else Char b0 b1 b2 b3 b4 b5 b6 b7)"
  by (cases b0; cases b1; cases b2; cases b3; cases b4; cases b5; cases b6; cases b7)
    (simp_all add: ascii_lower_def char_of_def bit_0)

text \<open>
  \<^verbatim>\<open>str::to_lowercase\<close>: ASCII strings are mapped here, all others by the Unicode tables.
\<close>

definition to_lowercase :: "(string \<Rightarrow> string) \<Rightarrow> string \<Rightarrow> string" where
  "to_lowercase unicode_lower s =
     (if list_all is_ascii s then map ascii_lower s else unicode_lower s)"

definition eq_ignore_ascii_case :: "string \<Rightarrow> string \<Rightarrow> bool" where
  "eq_ignore_ascii_case a b \<longleftrightarrow> map ascii_lower a = map ascii_lower b"

definition replace_char :: "char \<Rightarrow> string \<Rightarrow> string \<Rightarrow> string" where
  "replace_char c r s = concat (map (\<lambda>d. if d = c then r else [d]) s)"

definition strip_prefix :: "string \<Rightarrow> string \<Rightarrow> string option" where
  "strip_prefix p s = (if take (length p) s = p then Some (drop (length p) s) else None)"

definition ends_with :: "string \<Rightarrow> string \<Rightarrow> bool" where
  "ends_with s p \<longleftrightarrow> length p \<le> length s \<and> drop (length s - length p) s = p"

fun split_on :: "(char \<Rightarrow> bool) \<Rightarrow> string \<Rightarrow> string list" where
  "split_on P [] = [[]]"
| "split_on P (c # cs) =
     (if P c then [] # split_on P cs
      else (case split_on P cs of [] \<Rightarrow> [[c]] | w # ws \<Rightarrow> (c # w) # ws))"

lemma split_on_not_Nil [simp]: "split_on P s \<noteq> []"
  by (induction s) (auto split: list.splits)

lemma split_on_no_separator: "w \<in> set (split_on P s) \<Longrightarrow> list_all (\<lambda>c. \<not> P c) w"
  by (induction s arbitrary: w) (auto split: list.splits if_splits)

lemma strip_prefix_append [simp]: "strip_prefix p (p @ s) = Some s"
  by (simp add: strip_prefix_def)

lemma strip_prefix_Some: "strip_prefix p s = Some t \<longleftrightarrow> s = p @ t"
  by (auto simp: strip_prefix_def) (metis append_take_drop_id)

section \<open>Parsing unsigned integers\<close>

text \<open>
  \<^verbatim>\<open>str::parse::<usize>\<close>: an optional plus sign, then at least one decimal digit and nothing
  else; a value that does not fit is an error.
\<close>

definition digit_value :: "char \<Rightarrow> nat option" where
  "digit_value c = (let n = of_char c :: nat in
     if 48 \<le> n \<and> n \<le> 57 then Some (n - 48) else None)"

fun parse_digits :: "nat \<Rightarrow> string \<Rightarrow> nat option" where
  "parse_digits acc [] = Some acc"
| "parse_digits acc (c # cs) =
     (case digit_value c of None \<Rightarrow> None
      | Some d \<Rightarrow> (if 10 * acc + d < 2 ^ 64 then parse_digits (10 * acc + d) cs else None))"

definition parse_unsigned :: "string \<Rightarrow> usize option" where
  "parse_unsigned s =
     (let digits = (case s of c # cs \<Rightarrow> (if c = CHR ''+'' then cs else s) | [] \<Rightarrow> s)
      in if digits = [] then None else map_option of_nat (parse_digits 0 digits))"

lemma digit_value_Char [simp, code]:
  "digit_value (Char b0 b1 b2 b3 b4 b5 b6 b7) =
     (if \<not> b7 \<and> \<not> b6 \<and> b5 \<and> b4 \<and> \<not> (b3 \<and> (b2 \<or> b1))
      then Some (of_bool b0 + 2 * of_bool b1 + 4 * of_bool b2 + 8 * of_bool b3) else None)"
  by (cases b0; cases b1; cases b2; cases b3; cases b4; cases b5; cases b6; cases b7)
    (simp_all add: digit_value_def)

lemma parse_digits_bound: "parse_digits acc s = Some n \<Longrightarrow> acc < 2 ^ 64 \<Longrightarrow> n < 2 ^ 64"
  by (induction s arbitrary: acc) (auto split: option.splits if_splits)

lemma parse_digits_mono: "parse_digits acc s = Some n \<Longrightarrow> acc \<le> n"
  by (induction s arbitrary: acc) (fastforce split: option.splits if_splits)+

end
