(* ===== verification/Tokenizer.thy ===== *)
theory Tokenizer
  imports RustStr "HOL-Library.Multiset"
begin

text \<open>
  The tokenizer configuration of \<^verbatim>\<open>core/src/tokenizer.rs\<close>: its data, its validation and its
  construction from an option map. The option map is a \<^verbatim>\<open>HashMap\<close>, iterated in an order the
  program does not control: the model takes the entries as a list in iteration order, and the
  theorems say when the order does not matter. The locale \<open>option_field\<close> is the contract of
  one field of a configuration under such a loop; it is interpreted for every field.
\<close>

section \<open>Data\<close>

datatype tokenizer_kind =
  DefaultTok | Simple | Whitespace | Raw | Ngram | Jieba | Icu | IcuSplit

record tokenizer_config =
  tok_kind :: tokenizer_kind
  ngram_min_gram :: usize
  ngram_max_gram :: usize
  ngram_prefix_only :: bool
  jieba_search_mode :: bool
  jieba_ordinal_position :: bool
  lower_case :: bool
  max_token_length :: usize
  ascii_folding :: bool
  stem :: bool
  language :: string
  remove_stop_words :: bool
  stop_words :: "string list"
  with_position :: bool

definition default_tokenizer_config :: tokenizer_config where
  "default_tokenizer_config = \<lparr>
     tok_kind = DefaultTok,
     ngram_min_gram = 3,
     ngram_max_gram = 3,
     ngram_prefix_only = False,
     jieba_search_mode = True,
     jieba_ordinal_position = True,
     lower_case = True,
     max_token_length = 40,
     ascii_folding = True,
     stem = True,
     language = ''english'',
     remove_stop_words = True,
     stop_words = [],
     with_position = True\<rparr>"

type_synonym options = "(string \<times> string) list"

abbreviation invalid :: "string \<Rightarrow> string \<Rightarrow> ft_error + 'a" where
  "invalid key msg \<equiv> Inl (InvalidOption key [Lit msg])"

section \<open>Parsing option values\<close>

definition parse_tokenizer :: "(string \<Rightarrow> string) \<Rightarrow> string \<Rightarrow> ft_error + tokenizer_kind" where
  "parse_tokenizer lc value =
     (let v = to_lowercase lc (trim value) in
      if v = ''default'' then Inr DefaultTok
      else if v = ''simple'' then Inr Simple
      else if v = ''whitespace'' then Inr Whitespace
      else if v = ''raw'' then Inr Raw
      else if v = ''ngram'' then Inr Ngram
      else if v = ''jieba'' then Inr Jieba
      else if v = ''icu'' then Inr Icu
      else if v = ''icu/split'' then Inr IcuSplit
      else Inl (InvalidOption ''tokenizer'' (quoted ''unsupported tokenizer '' v '''')))"

definition normalize_tokenizer_key :: "(string \<Rightarrow> string) \<Rightarrow> string \<Rightarrow> string" where
  "normalize_tokenizer_key lc key = to_lowercase lc (trim key)"

definition parse_usize :: "string \<Rightarrow> string \<Rightarrow> ft_error + usize" where
  "parse_usize key value =
     ok_or (InvalidOption key (quoted ''expected unsigned integer, got '' value ''''))
       (parse_unsigned (trim value))"

definition parse_bool :: "(string \<Rightarrow> string) \<Rightarrow> string \<Rightarrow> string \<Rightarrow> ft_error + bool" where
  "parse_bool lc key value =
     (let v = to_lowercase lc (trim value) in
      if v = ''true'' then Inr True
      else if v = ''false'' then Inr False
      else Inl (InvalidOption key (quoted ''expected boolean, got '' value '''')))"

definition split_stop_words :: "string \<Rightarrow> string list" where
  "split_stop_words value =
     filter (\<lambda>w. w \<noteq> []) (map trim (split_on (\<lambda>c. c = CHR '';'') value))"

definition strip_namespace :: "string \<Rightarrow> string" where
  "strip_namespace raw_key =
     (case strip_prefix ''fulltext.'' raw_key of
        Some k \<Rightarrow> k
      | None \<Rightarrow> (case strip_prefix ''tantivy.'' raw_key of Some k \<Rightarrow> k | None \<Rightarrow> raw_key))"

section \<open>Construction and validation\<close>

definition apply_tokenizer_option ::
  "(string \<Rightarrow> string) \<Rightarrow> tokenizer_config \<Rightarrow> string \<times> string \<Rightarrow> ft_error + tokenizer_config" where
  "apply_tokenizer_option lc c kv =
     (let value = snd kv; key = normalize_tokenizer_key lc (strip_namespace (fst kv)) in
      if key = ''tokenizer'' then
        res_bind (parse_tokenizer lc value) (\<lambda>v. Inr (c\<lparr>tok_kind := v\<rparr>))
      else if key = ''ngram.min-gram'' then
        res_bind (parse_usize key value) (\<lambda>v. Inr (c\<lparr>ngram_min_gram := v\<rparr>))
      else if key = ''ngram.max-gram'' then
        res_bind (parse_usize key value) (\<lambda>v. Inr (c\<lparr>ngram_max_gram := v\<rparr>))
      else if key = ''ngram.prefix-only'' then
        res_bind (parse_bool lc key value) (\<lambda>v. Inr (c\<lparr>ngram_prefix_only := v\<rparr>))
      else if key = ''jieba.search-mode'' then
        res_bind (parse_bool lc key value) (\<lambda>v. Inr (c\<lparr>jieba_search_mode := v\<rparr>))
      else if key = ''jieba.ordinal-position'' \<or> key = ''jieba.ordinal-position-mode'' then
        res_bind (parse_bool lc key value) (\<lambda>v. Inr (c\<lparr>jieba_ordinal_position := v\<rparr>))
      else if key = ''lower-case'' then
        res_bind (parse_bool lc key value) (\<lambda>v. Inr (c\<lparr>lower_case := v\<rparr>))
      else if key = ''max-token-length'' then
        res_bind (parse_usize key value) (\<lambda>v. Inr (c\<lparr>max_token_length := v\<rparr>))
      else if key = ''ascii-folding'' then
        res_bind (parse_bool lc key value) (\<lambda>v. Inr (c\<lparr>ascii_folding := v\<rparr>))
      else if key = ''stem'' then
        res_bind (parse_bool lc key value) (\<lambda>v. Inr (c\<lparr>stem := v\<rparr>))
      else if key = ''language'' then
        Inr (c\<lparr>language := to_lowercase lc (trim value)\<rparr>)
      else if key = ''remove-stop-words'' then
        res_bind (parse_bool lc key value) (\<lambda>v. Inr (c\<lparr>remove_stop_words := v\<rparr>))
      else if key = ''stop-words'' then
        Inr (c\<lparr>stop_words := split_stop_words value\<rparr>)
      else if key = ''with-position'' then
        res_bind (parse_bool lc key value) (\<lambda>v. Inr (c\<lparr>with_position := v\<rparr>))
      else Inr c)"

definition validate_tokenizer :: "tokenizer_config \<Rightarrow> ft_error + unit" where
  "validate_tokenizer c =
     (if ngram_min_gram c = 0 then invalid ''ngram.min-gram'' ''must be positive''
      else if ngram_max_gram c = 0 then invalid ''ngram.max-gram'' ''must be positive''
      else if ngram_max_gram c < ngram_min_gram c
        then invalid ''ngram.min-gram'' ''must not exceed ngram.max-gram''
      else if max_token_length c = 0 then invalid ''max-token-length'' ''must be positive''
      else if \<not> remove_stop_words c \<and> stop_words c \<noteq> []
        then invalid ''stop-words'' ''requires remove-stop-words=true''
      else Inr ())"

definition tokenizer_from_options ::
  "(string \<Rightarrow> string) \<Rightarrow> options \<Rightarrow> ft_error + tokenizer_config" where
  "tokenizer_from_options lc opts =
     res_bind (res_foldl (apply_tokenizer_option lc) default_tokenizer_config opts)
       (\<lambda>c. res_bind (validate_tokenizer c) (\<lambda>_. Inr c))"

section \<open>One field under an option loop\<close>

text \<open>
  A field is read by \<open>get\<close>; the entries that write it are those with \<open>writes\<close>, and
  \<open>parse\<close> is the value they give. After the loop the field holds the value of the last entry
  that writes it, or its initial value.
\<close>

locale option_field =
  fixes step :: "'c \<Rightarrow> 'kv \<Rightarrow> ft_error + 'c"
    and get :: "'c \<Rightarrow> 'v"
    and writes :: "'kv \<Rightarrow> bool"
    and parse :: "'kv \<Rightarrow> ft_error + 'v"
  assumes step_writes: "step c kv = Inr c' \<Longrightarrow> writes kv \<Longrightarrow> parse kv = Inr (get c')"
    and step_keeps: "step c kv = Inr c' \<Longrightarrow> \<not> writes kv \<Longrightarrow> get c' = get c"
begin

lemma loop_none:
  "res_foldl step c kvs = Inr c' \<Longrightarrow> filter writes kvs = [] \<Longrightarrow> get c' = get c"
  by (induction kvs arbitrary: c) (auto split: sum.splits if_splits dest: step_keeps)

lemma loop_last:
  "res_foldl step c kvs = Inr c' \<Longrightarrow> filter writes kvs \<noteq> [] \<Longrightarrow>
     parse (last (filter writes kvs)) = Inr (get c')"
proof (induction kvs arbitrary: c)
  case (Cons kv kvs)
  from Cons.prems(1) obtain d where d: "step c kv = Inr d" and rest: "res_foldl step d kvs = Inr c'"
    by (auto split: sum.splits)
  show ?case
  proof (cases "filter writes kvs = []")
    case True
    with Cons.prems(2) have w: "writes kv" by (auto split: if_splits)
    with True loop_none [OF rest True] step_writes [OF d w] show ?thesis by simp
  next
    case False
    with Cons.IH [OF rest] show ?thesis by simp
  qed
qed simp

text \<open>With at most one writer, the iteration order does not matter.\<close>

lemma loop_perm:
  assumes "res_foldl step c kvs = Inr c1" and "res_foldl step c kvs' = Inr c2"
    and "mset kvs' = mset kvs" and "length (filter writes kvs) \<le> 1"
  shows "get c2 = get c1"
proof -
  have "mset (filter writes kvs') = mset (filter writes kvs)"
    using assms(3) by (metis mset_filter)
  moreover have "filter writes kvs = [] \<or> (\<exists>kv. filter writes kvs = [kv])"
    using assms(4) by (cases "filter writes kvs") auto
  ultimately have same: "filter writes kvs' = filter writes kvs"
    by (auto simp del: mset_filter)
  show ?thesis
  proof (cases "filter writes kvs = []")
    case True
    with same loop_none [OF assms(1)] loop_none [OF assms(2)] show ?thesis by simp
  next
    case False
    with same loop_last [OF assms(1)] loop_last [OF assms(2)] show ?thesis by simp
  qed
qed

end

section \<open>The fields of the tokenizer configuration\<close>

text \<open>
  \<open>tokenizer_slot\<close> names the field an entry writes: its normalised key, with the two
  spellings of the Jieba ordinal-position option identified.
\<close>

definition tokenizer_slot :: "(string \<Rightarrow> string) \<Rightarrow> string \<times> string \<Rightarrow> string" where
  "tokenizer_slot lc kv =
     (let key = normalize_tokenizer_key lc (strip_namespace (fst kv)) in
      if key = ''jieba.ordinal-position-mode'' then ''jieba.ordinal-position'' else key)"

definition tokenizer_slots :: "string list" where
  "tokenizer_slots = [''tokenizer'', ''ngram.min-gram'', ''ngram.max-gram'', ''ngram.prefix-only'',
     ''jieba.search-mode'', ''jieba.ordinal-position'', ''lower-case'', ''max-token-length'',
     ''ascii-folding'', ''stem'', ''language'', ''remove-stop-words'', ''stop-words'',
     ''with-position'']"

lemmas tokenizer_step_simps =
  apply_tokenizer_option_def tokenizer_slot_def Let_def res_simps

abbreviation entry_key :: "(string \<Rightarrow> string) \<Rightarrow> string \<times> string \<Rightarrow> string" where
  "entry_key lc kv \<equiv> normalize_tokenizer_key lc (strip_namespace (fst kv))"

abbreviation entry_usize :: "(string \<Rightarrow> string) \<Rightarrow> string \<times> string \<Rightarrow> ft_error + usize" where
  "entry_usize lc kv \<equiv> parse_usize (entry_key lc kv) (snd kv)"

abbreviation entry_bool :: "(string \<Rightarrow> string) \<Rightarrow> string \<times> string \<Rightarrow> ft_error + bool" where
  "entry_bool lc kv \<equiv> parse_bool lc (entry_key lc kv) (snd kv)"

interpretation f_kind: option_field "apply_tokenizer_option lc" tok_kind
  "\<lambda>kv. tokenizer_slot lc kv = ''tokenizer''" "\<lambda>kv. parse_tokenizer lc (snd kv)" for lc
  by unfold_locales (auto simp: tokenizer_step_simps split: if_splits)

interpretation f_min: option_field "apply_tokenizer_option lc" ngram_min_gram
  "\<lambda>kv. tokenizer_slot lc kv = ''ngram.min-gram''" "entry_usize lc" for lc
  by unfold_locales (auto simp: tokenizer_step_simps split: if_splits)

interpretation f_max: option_field "apply_tokenizer_option lc" ngram_max_gram
  "\<lambda>kv. tokenizer_slot lc kv = ''ngram.max-gram''" "entry_usize lc" for lc
  by unfold_locales (auto simp: tokenizer_step_simps split: if_splits)

interpretation f_prefix: option_field "apply_tokenizer_option lc" ngram_prefix_only
  "\<lambda>kv. tokenizer_slot lc kv = ''ngram.prefix-only''" "entry_bool lc" for lc
  by unfold_locales (auto simp: tokenizer_step_simps split: if_splits)

interpretation f_search: option_field "apply_tokenizer_option lc" jieba_search_mode
  "\<lambda>kv. tokenizer_slot lc kv = ''jieba.search-mode''" "entry_bool lc" for lc
  by unfold_locales (auto simp: tokenizer_step_simps split: if_splits)

interpretation f_ordinal: option_field "apply_tokenizer_option lc" jieba_ordinal_position
  "\<lambda>kv. tokenizer_slot lc kv = ''jieba.ordinal-position''" "entry_bool lc" for lc
  by unfold_locales (auto simp: tokenizer_step_simps split: if_splits)

interpretation f_lower: option_field "apply_tokenizer_option lc" lower_case
  "\<lambda>kv. tokenizer_slot lc kv = ''lower-case''" "entry_bool lc" for lc
  by unfold_locales (auto simp: tokenizer_step_simps split: if_splits)

interpretation f_maxlen: option_field "apply_tokenizer_option lc" max_token_length
  "\<lambda>kv. tokenizer_slot lc kv = ''max-token-length''" "entry_usize lc" for lc
  by unfold_locales (auto simp: tokenizer_step_simps split: if_splits)

interpretation f_folding: option_field "apply_tokenizer_option lc" ascii_folding
  "\<lambda>kv. tokenizer_slot lc kv = ''ascii-folding''" "entry_bool lc" for lc
  by unfold_locales (auto simp: tokenizer_step_simps split: if_splits)

interpretation f_stem: option_field "apply_tokenizer_option lc" stem
  "\<lambda>kv. tokenizer_slot lc kv = ''stem''" "entry_bool lc" for lc
  by unfold_locales (auto simp: tokenizer_step_simps split: if_splits)

interpretation f_lang: option_field "apply_tokenizer_option lc" language
  "\<lambda>kv. tokenizer_slot lc kv = ''language''" "\<lambda>kv. Inr (to_lowercase lc (trim (snd kv)))" for lc
  by unfold_locales (auto simp: tokenizer_step_simps split: if_splits)

interpretation f_remove: option_field "apply_tokenizer_option lc" remove_stop_words
  "\<lambda>kv. tokenizer_slot lc kv = ''remove-stop-words''" "entry_bool lc" for lc
  by unfold_locales (auto simp: tokenizer_step_simps split: if_splits)

interpretation f_stopw: option_field "apply_tokenizer_option lc" stop_words
  "\<lambda>kv. tokenizer_slot lc kv = ''stop-words''" "\<lambda>kv. Inr (split_stop_words (snd kv))" for lc
  by unfold_locales (auto simp: tokenizer_step_simps split: if_splits)

interpretation f_position: option_field "apply_tokenizer_option lc" with_position
  "\<lambda>kv. tokenizer_slot lc kv = ''with-position''" "entry_bool lc" for lc
  by unfold_locales (auto simp: tokenizer_step_simps split: if_splits)

section \<open>Independence of the iteration order\<close>

definition tokenizer_unambiguous :: "(string \<Rightarrow> string) \<Rightarrow> options \<Rightarrow> bool" where
  "tokenizer_unambiguous lc opts \<longleftrightarrow>
     distinct (filter (\<lambda>k. k \<in> set tokenizer_slots) (map (tokenizer_slot lc) opts))"

lemma slot_writers:
  assumes "tokenizer_unambiguous lc opts" and "k \<in> set tokenizer_slots"
  shows "length (filter (\<lambda>kv. tokenizer_slot lc kv = k) opts) \<le> 1"
proof -
  have "length (filter (\<lambda>kv. tokenizer_slot lc kv = k) opts)
      = count_list (filter (\<lambda>k. k \<in> set tokenizer_slots) (map (tokenizer_slot lc) opts)) k"
    using assms(2) by (induction opts) auto
  also have "\<dots> \<le> 1"
    using assms(1) unfolding tokenizer_unambiguous_def by (rule count_list_distinct)
  finally show ?thesis .
qed

text \<open>Whether an entry is accepted does not depend on the configuration built so far.\<close>

lemma apply_tokenizer_option_accepts:
  "apply_tokenizer_option lc c kv = Inr c' \<Longrightarrow> \<exists>d'. apply_tokenizer_option lc d kv = Inr d'"
  by (auto simp: apply_tokenizer_option_def Let_def res_simps split: if_splits)

lemma tokenizer_loop_perm:
  assumes run: "res_foldl (apply_tokenizer_option lc) c opts = Inr c1"
    and perm: "mset opts' = mset opts" and unamb: "tokenizer_unambiguous lc opts"
  shows "res_foldl (apply_tokenizer_option lc) c opts' = Inr c1"
proof -
  have "\<exists>d'. apply_tokenizer_option lc d kv = Inr d'" if "kv \<in> set opts'" for kv d
    using that res_foldl_accepted [OF run] mset_eq_setD [OF perm]
    by (metis apply_tokenizer_option_accepts)
  then obtain c2 where run2: "res_foldl (apply_tokenizer_option lc) c opts' = Inr c2"
    using res_foldl_accepts [of opts' "apply_tokenizer_option lc" c] by metis
  note w = slot_writers [OF unamb]
  have "c2 = c1"
    by (rule tokenizer_config.equality;
        (rule f_kind.loop_perm [OF run run2 perm w] f_min.loop_perm [OF run run2 perm w]
           f_max.loop_perm [OF run run2 perm w] f_prefix.loop_perm [OF run run2 perm w]
           f_search.loop_perm [OF run run2 perm w] f_ordinal.loop_perm [OF run run2 perm w]
           f_lower.loop_perm [OF run run2 perm w] f_maxlen.loop_perm [OF run run2 perm w]
           f_folding.loop_perm [OF run run2 perm w] f_stem.loop_perm [OF run run2 perm w]
           f_lang.loop_perm [OF run run2 perm w] f_remove.loop_perm [OF run run2 perm w]
           f_stopw.loop_perm [OF run run2 perm w] f_position.loop_perm [OF run run2 perm w])?)
      (simp_all add: tokenizer_slots_def)
  with run2 show ?thesis by simp
qed

end
