(* ===== verification/Config.thy ===== *)
theory Config
  imports Tokenizer
begin

text \<open>
  The index configuration of \<^verbatim>\<open>core/src/config.rs\<close>: defaults, builders, construction from an
  option map, validation, and the list of indexed fields. The theorems say what a
  configuration built from options satisfies and when the map's iteration order is
  irrelevant.
\<close>

section \<open>Data\<close>

record full_text_index_config =
  row_id_field :: string
  text_fields :: "string list"
  tokenizer :: tokenizer_config

record full_text_index_metadata =
  config :: full_text_index_config
  document_count :: u64
  tantivy_version :: string

definition default_row_id_field :: string where
  "default_row_id_field = ''row_id''"

definition default_text_fields :: "string list" where
  "default_text_fields = [''text'']"

definition default_config :: full_text_index_config where
  "default_config = \<lparr>row_id_field = default_row_id_field, text_fields = default_text_fields,
     tokenizer = default_tokenizer_config\<rparr>"

definition with_tokenizer ::
  "tokenizer_config \<Rightarrow> full_text_index_config \<Rightarrow> full_text_index_config" where
  "with_tokenizer t c = c\<lparr>tokenizer := t\<rparr>"

definition with_text_fields ::
  "string list \<Rightarrow> full_text_index_config \<Rightarrow> full_text_index_config" where
  "with_text_fields fs c = c\<lparr>text_fields := fs\<rparr>"

definition with_positions :: "bool \<Rightarrow> full_text_index_config \<Rightarrow> full_text_index_config" where
  "with_positions b c = c\<lparr>tokenizer := (tokenizer c)\<lparr>with_position := b\<rparr>\<rparr>"

section \<open>Field lists\<close>

fun dedup_into :: "string list \<Rightarrow> string list \<Rightarrow> string list" where
  "dedup_into deduped [] = deduped"
| "dedup_into deduped (f # fs) =
     dedup_into (if f \<in> set deduped then deduped else deduped @ [f]) fs"

definition dedup_preserve_order :: "string list \<Rightarrow> string list" where
  "dedup_preserve_order fs = dedup_into [] fs"

definition dedup_strs :: "string list \<Rightarrow> string list" where
  "dedup_strs fs = dedup_into [] fs"

definition indexed_text_fields :: "full_text_index_config \<Rightarrow> string list" where
  "indexed_text_fields c = dedup_strs (text_fields c)"

definition default_text_field :: "full_text_index_config \<Rightarrow> string" where
  "default_text_field c = (case text_fields c of [] \<Rightarrow> ''text'' | f # _ \<Rightarrow> f)"

definition clean_name :: "string \<Rightarrow> string \<Rightarrow> ft_error + string" where
  "clean_name value key =
     (let v = trim value in
      if v = [] then invalid key ''must not be empty'' else Inr v)"

definition split_text_fields :: "string \<Rightarrow> ft_error + string list" where
  "split_text_fields value =
     (let fields = dedup_preserve_order
        (filter (\<lambda>f. f \<noteq> []) (map trim (split_on (\<lambda>c. c = CHR '','' \<or> c = CHR '';'') value)))
      in if fields = [] then invalid ''text-fields'' ''must contain at least one field''
         else Inr fields)"

definition normalize_option_key :: "(string \<Rightarrow> string) \<Rightarrow> string \<Rightarrow> string" where
  "normalize_option_key lc raw_key =
     replace_char (CHR ''_'') ''-'' (to_lowercase lc (trim (strip_namespace raw_key)))"

section \<open>Validation\<close>

fun validate_fields :: "string \<Rightarrow> string list \<Rightarrow> ft_error + unit" where
  "validate_fields row_id [] = Inr ()"
| "validate_fields row_id (f # fs) =
     (if is_blank f then invalid ''text-fields'' ''must not contain empty field names''
      else if f = row_id then invalid ''text-fields'' ''must not contain the row id field''
      else validate_fields row_id fs)"

definition validate_config :: "full_text_index_config \<Rightarrow> ft_error + unit" where
  "validate_config c =
     (if is_blank (row_id_field c) then invalid ''row-id-field'' ''must not be empty''
      else let fields = dedup_preserve_order (text_fields c) in
        if fields = [] then invalid ''text-fields'' ''must contain at least one field''
        else res_bind (validate_fields (row_id_field c) fields)
               (\<lambda>_. validate_tokenizer (tokenizer c)))"

section \<open>Construction from options\<close>

record config_slots =
  slot_row_id :: "string option"
  slot_text_field :: "string option"
  slot_text_fields :: "string list option"

definition apply_config_option ::
  "(string \<Rightarrow> string) \<Rightarrow> config_slots \<Rightarrow> string \<times> string \<Rightarrow> ft_error + config_slots" where
  "apply_config_option lc a kv =
     (let value = snd kv; key = normalize_option_key lc (fst kv) in
      if key = ''row-id-field'' then
        res_bind (clean_name value key) (\<lambda>v. Inr (a\<lparr>slot_row_id := Some v\<rparr>))
      else if key = ''text-field'' then
        res_bind (clean_name value key) (\<lambda>v. Inr (a\<lparr>slot_text_field := Some v\<rparr>))
      else if key = ''text-fields'' \<or> key = ''columns'' then
        res_bind (split_text_fields value) (\<lambda>v. Inr (a\<lparr>slot_text_fields := Some v\<rparr>))
      else Inr a)"

definition no_slots :: config_slots where
  "no_slots = \<lparr>slot_row_id = None, slot_text_field = None, slot_text_fields = None\<rparr>"

definition config_from_options ::
  "(string \<Rightarrow> string) \<Rightarrow> options \<Rightarrow> ft_error + full_text_index_config" where
  "config_from_options lc opts =
     res_bind (tokenizer_from_options lc opts) (\<lambda>tok.
     res_bind (res_foldl (apply_config_option lc) no_slots opts) (\<lambda>a.
       let fields = dedup_preserve_order
             (case slot_text_fields a of
                Some fs \<Rightarrow> fs
              | None \<Rightarrow> (case slot_text_field a of
                           Some f \<Rightarrow> [f] | None \<Rightarrow> default_text_fields))
       in if fields = [] then invalid ''text-fields'' ''must contain at least one field''
          else let c = \<lparr>row_id_field = (case slot_row_id a of
                                          Some r \<Rightarrow> r | None \<Rightarrow> default_row_id_field),
                        text_fields = fields, tokenizer = tok\<rparr>
               in res_bind (validate_config c) (\<lambda>_. Inr c)))"

section \<open>Field lists without duplicates\<close>

lemma set_dedup_into: "set (dedup_into acc fs) = set acc \<union> set fs"
  by (induction acc fs rule: dedup_into.induct) auto

lemma distinct_dedup_into: "distinct acc \<Longrightarrow> distinct (dedup_into acc fs)"
  by (induction acc fs rule: dedup_into.induct) auto

lemma dedup_into_distinct:
  "distinct fs \<Longrightarrow> set fs \<inter> set acc = {} \<Longrightarrow> dedup_into acc fs = acc @ fs"
  by (induction acc fs rule: dedup_into.induct) auto

lemma set_dedup [simp]: "set (dedup_preserve_order fs) = set fs" "set (dedup_strs fs) = set fs"
  by (simp_all add: dedup_preserve_order_def dedup_strs_def set_dedup_into)

lemma distinct_dedup [simp]:
  "distinct (dedup_preserve_order fs)" "distinct (dedup_strs fs)"
  by (simp_all add: dedup_preserve_order_def dedup_strs_def distinct_dedup_into)

lemma dedup_distinct [simp]:
  "distinct fs \<Longrightarrow> dedup_preserve_order fs = fs" "distinct fs \<Longrightarrow> dedup_strs fs = fs"
  by (simp_all add: dedup_preserve_order_def dedup_strs_def dedup_into_distinct)

lemma dedup_eq_Nil [simp]:
  "dedup_preserve_order fs = [] \<longleftrightarrow> fs = []" "dedup_strs fs = [] \<longleftrightarrow> fs = []"
  using set_dedup by (metis set_empty)+

text \<open>The first occurrences are kept, in their order.\<close>

lemma dedup_into_remdups:
  "dedup_into acc fs = acc @ rev (remdups (rev (filter (\<lambda>f. f \<notin> set acc) fs)))"
proof (induction acc fs rule: dedup_into.induct)
  case (2 acc f fs)
  have "remdups (gs @ [f]) = remdups (filter (\<lambda>g. g \<noteq> f) gs) @ [f]" for gs
    by (induction gs) auto
  moreover have "filter (\<lambda>g. g \<noteq> f) (rev (filter (\<lambda>g. g \<notin> set acc) fs))
      = rev (filter (\<lambda>g. g \<notin> set (acc @ [f])) fs)"
    by (simp add: rev_filter conj_commute)
  ultimately show ?case using 2 by simp
qed simp

section \<open>Validation characterised\<close>

lemma validate_fields_Inr:
  "validate_fields r fs = Inr u \<longleftrightarrow> (\<forall>f \<in> set fs. \<not> is_blank f \<and> f \<noteq> r)"
  by (induction fs) auto

lemma validate_tokenizer_Inr:
  "validate_tokenizer c = Inr u \<longleftrightarrow>
     ngram_min_gram c \<noteq> 0 \<and> ngram_max_gram c \<noteq> 0 \<and> ngram_min_gram c \<le> ngram_max_gram c
     \<and> max_token_length c \<noteq> 0 \<and> (stop_words c \<noteq> [] \<longrightarrow> remove_stop_words c)"
  by (auto simp: validate_tokenizer_def)

lemma validate_config_Inr:
  "validate_config c = Inr u \<longleftrightarrow>
     \<not> is_blank (row_id_field c) \<and> text_fields c \<noteq> []
     \<and> (\<forall>f \<in> set (text_fields c). \<not> is_blank f \<and> f \<noteq> row_id_field c)
     \<and> validate_tokenizer (tokenizer c) = Inr ()"
  by (auto simp: validate_config_def Let_def res_simps validate_fields_Inr)

section \<open>The option slots\<close>

definition config_slot :: "(string \<Rightarrow> string) \<Rightarrow> string \<times> string \<Rightarrow> string" where
  "config_slot lc kv =
     (let key = normalize_option_key lc (fst kv) in
      if key = ''columns'' then ''text-fields'' else key)"

definition config_unambiguous :: "(string \<Rightarrow> string) \<Rightarrow> options \<Rightarrow> bool" where
  "config_unambiguous lc opts \<longleftrightarrow>
     distinct (filter (\<lambda>k. k \<in> {''row-id-field'', ''text-field'', ''text-fields''})
       (map (config_slot lc) opts))"

lemmas config_step_simps = apply_config_option_def config_slot_def Let_def res_simps

interpretation s_row: option_field "apply_config_option lc" slot_row_id
  "\<lambda>kv. config_slot lc kv = ''row-id-field''"
  "\<lambda>kv. res_bind (clean_name (snd kv) (normalize_option_key lc (fst kv))) (\<lambda>v. Inr (Some v))" for lc
  by unfold_locales (auto simp: config_step_simps split: if_splits)

interpretation s_text: option_field "apply_config_option lc" slot_text_field
  "\<lambda>kv. config_slot lc kv = ''text-field''"
  "\<lambda>kv. res_bind (clean_name (snd kv) (normalize_option_key lc (fst kv))) (\<lambda>v. Inr (Some v))" for lc
  by unfold_locales (auto simp: config_step_simps split: if_splits)

interpretation s_texts: option_field "apply_config_option lc" slot_text_fields
  "\<lambda>kv. config_slot lc kv = ''text-fields''"
  "\<lambda>kv. res_bind (split_text_fields (snd kv)) (\<lambda>v. Inr (Some v))" for lc
  by unfold_locales (auto simp: config_step_simps split: if_splits)

lemma config_slot_writers:
  assumes "config_unambiguous lc opts"
    and "k \<in> {''row-id-field'', ''text-field'', ''text-fields''}"
  shows "length (filter (\<lambda>kv. config_slot lc kv = k) opts) \<le> 1"
proof -
  have "length (filter (\<lambda>kv. config_slot lc kv = k) opts)
      = count_list (filter (\<lambda>k. k \<in> {''row-id-field'', ''text-field'', ''text-fields''})
          (map (config_slot lc) opts)) k"
    using assms(2) by (induction opts) (auto simp del: insert_iff)
  also have "\<dots> \<le> 1"
    using assms(1) unfolding config_unambiguous_def by (rule count_list_distinct)
  finally show ?thesis .
qed

lemma apply_config_option_accepts:
  "apply_config_option lc a kv = Inr a' \<Longrightarrow> \<exists>b'. apply_config_option lc b kv = Inr b'"
  by (auto simp: apply_config_option_def Let_def res_simps split: if_splits)

lemma config_loop_perm:
  assumes run: "res_foldl (apply_config_option lc) a opts = Inr a1"
    and perm: "mset opts' = mset opts" and unamb: "config_unambiguous lc opts"
  shows "res_foldl (apply_config_option lc) a opts' = Inr a1"
proof -
  have "\<exists>b'. apply_config_option lc b kv = Inr b'" if "kv \<in> set opts'" for kv b
    using that res_foldl_accepted [OF run] mset_eq_setD [OF perm]
    by (metis apply_config_option_accepts)
  then obtain a2 where run2: "res_foldl (apply_config_option lc) a opts' = Inr a2"
    using res_foldl_accepts [of opts' "apply_config_option lc" a] by metis
  note w = config_slot_writers [OF unamb]
  have "a2 = a1"
    by (rule config_slots.equality;
        (rule s_row.loop_perm [OF run run2 perm w] s_text.loop_perm [OF run run2 perm w]
           s_texts.loop_perm [OF run run2 perm w])?) simp_all
  with run2 show ?thesis by simp
qed

section \<open>Names from options are trimmed\<close>

lemma clean_name_trimmed: "clean_name v k = Inr r \<Longrightarrow> trim r = r \<and> r \<noteq> []"
  by (auto simp: clean_name_def Let_def split: if_splits)

lemma split_text_fields_trimmed:
  "split_text_fields v = Inr fs \<Longrightarrow>
     fs \<noteq> [] \<and> distinct fs \<and> (\<forall>f \<in> set fs. trim f = f \<and> f \<noteq> [])"
  by (auto simp: split_text_fields_def Let_def split: if_splits)

definition slots_trimmed :: "config_slots \<Rightarrow> bool" where
  "slots_trimmed a \<longleftrightarrow>
     (\<forall>r. slot_row_id a = Some r \<longrightarrow> trim r = r)
     \<and> (\<forall>f. slot_text_field a = Some f \<longrightarrow> trim f = f)
     \<and> (\<forall>fs. slot_text_fields a = Some fs \<longrightarrow> (\<forall>f \<in> set fs. trim f = f))"

lemma apply_config_option_trimmed:
  "slots_trimmed a \<Longrightarrow> apply_config_option lc a kv = Inr a' \<Longrightarrow> slots_trimmed a'"
  by (auto simp: apply_config_option_def Let_def res_simps slots_trimmed_def
      dest: clean_name_trimmed split_text_fields_trimmed split: if_splits)

lemma config_loop_trimmed:
  assumes "res_foldl (apply_config_option lc) no_slots opts = Inr a"
  shows "slots_trimmed a"
proof (rule res_foldl_invariant [OF assms])
  show "slots_trimmed no_slots" by (simp add: slots_trimmed_def no_slots_def)
qed (rule apply_config_option_trimmed)

lemma default_names_trimmed: "trim ''row_id'' = ''row_id''" "trim ''text'' = ''text''"
  by code_simp+

section \<open>Properties\<close>

text \<open>
  C26. A configuration that \<^verbatim>\<open>FullTextIndexConfig::from_options\<close> returns passes validation,
  names each text field once, and has only trimmed names: no field is blank or equal to the
  row-id field, n-gram bounds are positive and ordered, the token length limit is positive,
  and custom stop words occur only with stop-word removal on.
\<close>

theorem config_from_options_wf:
  assumes "config_from_options lc opts = Inr c"
  shows "validate_config c = Inr () \<and> distinct (text_fields c)
    \<and> trim (row_id_field c) = row_id_field c \<and> (\<forall>f \<in> set (text_fields c). trim f = f)
    \<and> ngram_min_gram (tokenizer c) \<le> ngram_max_gram (tokenizer c)
    \<and> (stop_words (tokenizer c) = [] \<or> remove_stop_words (tokenizer c))"
proof -
  obtain a where run: "res_foldl (apply_config_option lc) no_slots opts = Inr a"
    and row: "row_id_field c = (case slot_row_id a of Some r \<Rightarrow> r | None \<Rightarrow> default_row_id_field)"
    and fs: "text_fields c = dedup_preserve_order (case slot_text_fields a of Some fs \<Rightarrow> fs
        | None \<Rightarrow> (case slot_text_field a of Some f \<Rightarrow> [f] | None \<Rightarrow> default_text_fields))"
    and valid: "validate_config c = Inr ()"
    using assms by (auto simp: config_from_options_def Let_def res_simps split: if_splits)
  have t: "slots_trimmed a" using run by (rule config_loop_trimmed)
  have "trim (row_id_field c) = row_id_field c"
    using t by (auto simp: row slots_trimmed_def default_row_id_field_def default_names_trimmed
        split: option.splits)
  moreover have "\<forall>f \<in> set (text_fields c). trim f = f"
    using t by (auto simp: fs slots_trimmed_def default_text_fields_def default_names_trimmed
        split: option.splits)
  moreover have "distinct (text_fields c)" by (simp add: fs)
  ultimately show ?thesis
    using valid by (auto simp: validate_config_Inr validate_tokenizer_Inr)
qed

definition example_options :: options where
  "example_options =
     [(''fulltext.text-fields'', '' title , body;title''), (''Stem'', ''FALSE''),
      (''tantivy.row_id_field'', ''id''), (''unknown'', ''x'')]"

definition example_config :: full_text_index_config where
  "example_config = \<lparr>row_id_field = ''id'', text_fields = [''title'', ''body''],
     tokenizer = default_tokenizer_config\<lparr>stem := False\<rparr>\<rparr>"

lemma example_options_config: "config_from_options id example_options = Inr example_config"
  by code_simp

theorem config_from_options_wf_witness:
  "config_from_options id example_options = Inr example_config
   \<and> distinct (text_fields example_config) \<and> validate_config example_config = Inr ()"
  using config_from_options_wf [OF example_options_config] example_options_config by blast

lemma unambiguous_perm:
  assumes "mset opts' = mset opts"
  shows "tokenizer_unambiguous lc opts' \<longleftrightarrow> tokenizer_unambiguous lc opts"
    and "config_unambiguous lc opts' \<longleftrightarrow> config_unambiguous lc opts"
proof -
  have "mset (filter P (map g opts')) = mset (filter P (map g opts))" for P :: "string \<Rightarrow> bool" and g
    using assms by simp
  then have "distinct (filter P (map g opts')) \<longleftrightarrow> distinct (filter P (map g opts))" for P :: "string \<Rightarrow> bool" and g
    by (rule mset_eq_imp_distinct_iff)
  then show "tokenizer_unambiguous lc opts' \<longleftrightarrow> tokenizer_unambiguous lc opts"
      "config_unambiguous lc opts' \<longleftrightarrow> config_unambiguous lc opts"
    by (simp_all only: tokenizer_unambiguous_def config_unambiguous_def)
qed

lemma config_from_options_perm:
  assumes "config_from_options lc opts = Inr c" and "mset opts' = mset opts"
    and "tokenizer_unambiguous lc opts" and "config_unambiguous lc opts"
  shows "config_from_options lc opts' = Inr c"
proof -
  obtain tok a where "tokenizer_from_options lc opts = Inr tok"
    and a: "res_foldl (apply_config_option lc) no_slots opts = Inr a"
    using assms(1) by (auto simp: config_from_options_def res_simps)
  then have "tokenizer_from_options lc opts' = tokenizer_from_options lc opts"
    using tokenizer_loop_perm [OF _ assms(2,3)] by (auto simp: tokenizer_from_options_def res_simps)
  moreover have "res_foldl (apply_config_option lc) no_slots opts'
      = res_foldl (apply_config_option lc) no_slots opts"
    using config_loop_perm [OF a assms(2,4)] a by simp
  ultimately show ?thesis using assms(1) by (simp add: config_from_options_def)
qed

text \<open>
  C27. \<^verbatim>\<open>from_options\<close> iterates over a hash map. When no field is given twice (no two keys
  normalise to the same option and no option is given under both of its names), the options are
  accepted in one iteration order if and only if they are accepted in every other, and then the
  configuration is the same. Options that are refused are refused in every order; which of several
  invalid options the error names is not fixed.
\<close>

theorem config_from_options_order:
  assumes "mset opts' = mset opts" and "tokenizer_unambiguous lc opts" and "config_unambiguous lc opts"
  shows "config_from_options lc opts' = Inr c \<longleftrightarrow> config_from_options lc opts = Inr c"
  using assms config_from_options_perm [of lc opts c opts'] config_from_options_perm [of lc opts' c opts]
    unambiguous_perm [OF assms(1)] by metis

lemma example_options_unambiguous:
  "tokenizer_unambiguous id example_options" "config_unambiguous id example_options"
  by code_simp+

theorem config_from_options_order_witness:
  "config_from_options id (rev example_options) = Inr example_config
   \<and> (\<forall>c. config_from_options id [(''lower-case'', ''y''), (''stem'', ''true'')] \<noteq> Inr c)"
proof -
  let ?bad = "[(''stem'', ''true''), (''lower-case'', ''y'')]"
  have "tokenizer_unambiguous id ?bad" "config_unambiguous id ?bad"
    "\<not> (case config_from_options id ?bad of Inl _ \<Rightarrow> False | Inr _ \<Rightarrow> True)" by code_simp+
  then have "config_from_options id [(''lower-case'', ''y''), (''stem'', ''true'')] \<noteq> Inr c" for c
    using config_from_options_order [of "[(''lower-case'', ''y''), (''stem'', ''true'')]" ?bad id c] by auto
  moreover have "config_from_options id (rev example_options) = Inr example_config"
    using config_from_options_order [OF _ example_options_unambiguous, of "rev example_options" example_config]
      example_options_config by simp
  ultimately show ?thesis by blast
qed


end
