(* ===== verification/HeaderCodec.thy ===== *)
theory HeaderCodec
  imports Json Config
begin

text \<open>
  The index header of \<^verbatim>\<open>core/src/storage.rs\<close> as a JSON value: the archive directory and the
  metadata with the configuration inside, in the shape that the derived \<^verbatim>\<open>Serialize\<close> and
  \<^verbatim>\<open>Deserialize\<close> of the structs give (field names, defaults, the renamed tokenizer kinds).
  The main fact is that deserializing a serialized header gives the header back.
\<close>

section \<open>The header\<close>

record archive_file_entry =
  entry_name :: string
  entry_offset :: u64
  entry_length :: u64

record index_header =
  hdr_metadata :: full_text_index_metadata
  hdr_files :: "archive_file_entry list"

section \<open>Serialization\<close>

fun kind_to_json :: "tokenizer_kind \<Rightarrow> json" where
  "kind_to_json DefaultTok = JStr ''default''"
| "kind_to_json Simple = JStr ''simple''"
| "kind_to_json Whitespace = JStr ''whitespace''"
| "kind_to_json Raw = JStr ''raw''"
| "kind_to_json Ngram = JStr ''ngram''"
| "kind_to_json Jieba = JStr ''jieba''"
| "kind_to_json Icu = JStr ''icu''"
| "kind_to_json IcuSplit = JStr ''icu/split''"

definition tokenizer_to_json :: "tokenizer_config \<Rightarrow> json" where
  "tokenizer_to_json c = JObj [
     (''tokenizer'', kind_to_json (tok_kind c)),
     (''ngram_min_gram'', JNum (PosInt (ngram_min_gram c))),
     (''ngram_max_gram'', JNum (PosInt (ngram_max_gram c))),
     (''ngram_prefix_only'', JBool (ngram_prefix_only c)),
     (''jieba_search_mode'', JBool (jieba_search_mode c)),
     (''jieba_ordinal_position'', JBool (jieba_ordinal_position c)),
     (''lower_case'', JBool (lower_case c)),
     (''max_token_length'', JNum (PosInt (max_token_length c))),
     (''ascii_folding'', JBool (ascii_folding c)),
     (''stem'', JBool (stem c)),
     (''language'', JStr (language c)),
     (''remove_stop_words'', JBool (remove_stop_words c)),
     (''stop_words'', JArr (map JStr (stop_words c))),
     (''with_position'', JBool (with_position c))]"

definition config_to_json :: "full_text_index_config \<Rightarrow> json" where
  "config_to_json c = JObj [
     (''row_id_field'', JStr (row_id_field c)),
     (''text_fields'', JArr (map JStr (text_fields c))),
     (''tokenizer'', tokenizer_to_json (tokenizer c))]"

definition metadata_to_json :: "full_text_index_metadata \<Rightarrow> json" where
  "metadata_to_json md = JObj [
     (''config'', config_to_json (config md)),
     (''document_count'', JNum (PosInt (document_count md))),
     (''tantivy_version'', JStr (tantivy_version md))]"

definition entry_to_json :: "archive_file_entry \<Rightarrow> json" where
  "entry_to_json e = JObj [
     (''name'', JStr (entry_name e)),
     (''offset'', JNum (PosInt (entry_offset e))),
     (''length'', JNum (PosInt (entry_length e)))]"

definition header_to_json :: "index_header \<Rightarrow> json" where
  "header_to_json h = JObj [
     (''metadata'', metadata_to_json (hdr_metadata h)),
     (''files'', JArr (map entry_to_json (hdr_files h)))]"

section \<open>Deserialization\<close>

definition de_kind :: "tokenizer_kind de" where
  "de_kind j = res_bind (enum_tag j) (\<lambda>(tag, content).
     if content \<noteq> JNull then de_error ''invalid type, expected unit variant''
     else if tag = ''default'' then Inr DefaultTok
     else if tag = ''simple'' then Inr Simple
     else if tag = ''whitespace'' then Inr Whitespace
     else if tag = ''raw'' then Inr Raw
     else if tag = ''ngram'' then Inr Ngram
     else if tag = ''jieba'' then Inr Jieba
     else if tag = ''icu'' then Inr Icu
     else if tag = ''icu/split'' then Inr IcuSplit
     else Inl [Lit ''unknown variant '', ArgStr tag])"

definition de_tokenizer :: "tokenizer_config de" where
  "de_tokenizer j =
     res_bind (struct_slots [[''tokenizer''], [''ngram_min_gram''], [''ngram_max_gram''],
        [''ngram_prefix_only''], [''jieba_search_mode''], [''jieba_ordinal_position''],
        [''lower_case''], [''max_token_length''], [''ascii_folding''], [''stem''], [''language''],
        [''remove_stop_words''], [''stop_words''], [''with_position'']] j) (\<lambda>s.
     let d = default_tokenizer_config in
     res_bind (field_or (tok_kind d) de_kind (s ! 0)) (\<lambda>v0.
     res_bind (field_or (ngram_min_gram d) de_u64 (s ! 1)) (\<lambda>v1.
     res_bind (field_or (ngram_max_gram d) de_u64 (s ! 2)) (\<lambda>v2.
     res_bind (field_or (ngram_prefix_only d) de_bool (s ! 3)) (\<lambda>v3.
     res_bind (field_or (jieba_search_mode d) de_bool (s ! 4)) (\<lambda>v4.
     res_bind (field_or (jieba_ordinal_position d) de_bool (s ! 5)) (\<lambda>v5.
     res_bind (field_or (lower_case d) de_bool (s ! 6)) (\<lambda>v6.
     res_bind (field_or (max_token_length d) de_u64 (s ! 7)) (\<lambda>v7.
     res_bind (field_or (ascii_folding d) de_bool (s ! 8)) (\<lambda>v8.
     res_bind (field_or (stem d) de_bool (s ! 9)) (\<lambda>v9.
     res_bind (field_or (language d) de_string (s ! 10)) (\<lambda>v10.
     res_bind (field_or (remove_stop_words d) de_bool (s ! 11)) (\<lambda>v11.
     res_bind (field_or (stop_words d) (de_vec de_string) (s ! 12)) (\<lambda>v12.
     res_bind (field_or (with_position d) de_bool (s ! 13)) (\<lambda>v13.
     Inr \<lparr>tok_kind = v0, ngram_min_gram = v1, ngram_max_gram = v2, ngram_prefix_only = v3,
          jieba_search_mode = v4, jieba_ordinal_position = v5, lower_case = v6,
          max_token_length = v7, ascii_folding = v8, stem = v9, language = v10,
          remove_stop_words = v11, stop_words = v12, with_position = v13\<rparr>)))))))))))))))"

definition de_config :: "full_text_index_config de" where
  "de_config j =
     res_bind (struct_slots [[''row_id_field''], [''text_fields''], [''tokenizer'']] j) (\<lambda>s.
     res_bind (field_or default_row_id_field de_string (s ! 0)) (\<lambda>v0.
     res_bind (field_or default_text_fields (de_vec de_string) (s ! 1)) (\<lambda>v1.
     res_bind (field_or default_tokenizer_config de_tokenizer (s ! 2)) (\<lambda>v2.
     Inr \<lparr>row_id_field = v0, text_fields = v1, tokenizer = v2\<rparr>))))"

definition de_metadata :: "full_text_index_metadata de" where
  "de_metadata j =
     res_bind (struct_slots [[''config''], [''document_count''], [''tantivy_version'']] j) (\<lambda>s.
     res_bind (field_or default_config de_config (s ! 0)) (\<lambda>v0.
     res_bind (field_or 0 de_u64 (s ! 1)) (\<lambda>v1.
     res_bind (field_or [] de_string (s ! 2)) (\<lambda>v2.
     Inr \<lparr>config = v0, document_count = v1, tantivy_version = v2\<rparr>))))"

definition de_entry :: "archive_file_entry de" where
  "de_entry j =
     res_bind (struct_slots [[''name''], [''offset''], [''length'']] j) (\<lambda>s.
     res_bind (field_req ''name'' de_string (s ! 0)) (\<lambda>v0.
     res_bind (field_req ''offset'' de_u64 (s ! 1)) (\<lambda>v1.
     res_bind (field_req ''length'' de_u64 (s ! 2)) (\<lambda>v2.
     Inr \<lparr>entry_name = v0, entry_offset = v1, entry_length = v2\<rparr>))))"

definition de_header :: "index_header de" where
  "de_header j =
     res_bind (struct_slots [[''metadata''], [''files'']] j) (\<lambda>s.
     res_bind (field_req ''metadata'' de_metadata (s ! 0)) (\<lambda>v0.
     res_bind (field_req ''files'' (de_vec de_entry) (s ! 1)) (\<lambda>v1.
     Inr \<lparr>hdr_metadata = v0, hdr_files = v1\<rparr>)))"

section \<open>Round trips\<close>

lemma de_kind_roundtrip [simp]: "de_kind (kind_to_json k) = Inr k"
  by (cases k) (simp_all add: de_kind_def)

lemma de_strings_roundtrip [simp]: "res_collect de_string (map JStr ss) = Inr ss"
  by (induction ss) simp_all

lemma de_tokenizer_roundtrip [simp]: "de_tokenizer (tokenizer_to_json c) = Inr c"
  by (simp add: de_tokenizer_def tokenizer_to_json_def)

lemma de_config_roundtrip [simp]: "de_config (config_to_json c) = Inr c"
  by (simp add: de_config_def config_to_json_def)

lemma de_metadata_roundtrip [simp]: "de_metadata (metadata_to_json md) = Inr md"
  by (simp add: de_metadata_def metadata_to_json_def)

lemma de_entry_roundtrip [simp]: "de_entry (entry_to_json e) = Inr e"
  by (simp add: de_entry_def entry_to_json_def)

lemma de_entries_roundtrip [simp]: "res_collect de_entry (map entry_to_json es) = Inr es"
  by (induction es) simp_all

lemma de_header_roundtrip [simp]: "de_header (header_to_json h) = Inr h"
  by (simp add: de_header_def header_to_json_def)

lemma de_metadata_empty:
  "de_metadata (JObj []) = Inr \<lparr>config = default_config, document_count = 0, tantivy_version = []\<rparr>"
  by (simp add: de_metadata_def numeral_2_eq_2)

end
