(* ===== verification/IoLayer.thy ===== *)
theory IoLayer
  imports Prelude
begin

text \<open>
  The positional-read and sequential-write interfaces of \<^verbatim>\<open>core/src/io.rs\<close>: read requests, the
  read metrics, the slice-backed reader, the writer over a growable buffer, and the metered
  reader of \<^verbatim>\<open>core/src/index.rs\<close>. A reader is an operation on a list of requests with a
  state of its own; the locale \<open>seek_read\<close> states what the trait \<^verbatim>\<open>SeekRead\<close> promises
  (a successful read returns the bytes of the underlying data), \<open>total_seek_read\<close> adds that
  requests within the data succeed, and \<open>seek_write\<close> is the contract of \<^verbatim>\<open>SeekWrite\<close>.
\<close>

section \<open>Requests and readers\<close>

record read_request =
  req_pos :: u64
  req_len :: usize

type_synonym 's pread = "read_request list \<Rightarrow> ('s, io_error, bytes list) st_res"

abbreviation read_req :: "u64 \<Rightarrow> usize \<Rightarrow> read_request" where
  "read_req p n \<equiv> \<lparr>req_pos = p, req_len = n\<rparr>"

text \<open>\<^verbatim>\<open>usize::try_from\<close> on a \<^verbatim>\<open>u64\<close>; the two types have the same width.\<close>

definition usize_try_from :: "u64 \<Rightarrow> usize option" where
  "usize_try_from x = (if unat x < 2 ^ 64 then Some x else None)"

lemma usize_try_from_Some [simp]: "usize_try_from x = Some x"
  by (simp add: usize_try_from_def)

section \<open>Read metrics\<close>

record read_metrics =
  pread_calls :: u64
  pread_ranges :: u64
  pread_bytes :: u64
  cache_hits :: u64
  cache_misses :: u64
  cache_evictions :: u64
  cached_blocks :: u64

record full_text_read_metrics =
  m_pread_calls :: u64
  m_pread_ranges :: u64
  m_pread_bytes :: u64
  m_cache_hits :: u64
  m_cache_misses :: u64
  m_cache_evictions :: u64
  m_cached_blocks :: u64

definition default_metrics :: read_metrics where
  "default_metrics = \<lparr>pread_calls = 0, pread_ranges = 0, pread_bytes = 0, cache_hits = 0,
     cache_misses = 0, cache_evictions = 0, cached_blocks = 0\<rparr>"

definition record_pread :: "read_request list \<Rightarrow> read_metrics \<Rightarrow> read_metrics" where
  "record_pread ranges m = m\<lparr>
     pread_calls := pread_calls m + 1,
     pread_ranges := pread_ranges m + of_nat (length ranges),
     pread_bytes := pread_bytes m + sum_list (map req_len ranges)\<rparr>"

definition record_cache_hit :: "read_metrics \<Rightarrow> read_metrics" where
  "record_cache_hit m = m\<lparr>cache_hits := cache_hits m + 1\<rparr>"

definition record_cache_miss :: "read_metrics \<Rightarrow> read_metrics" where
  "record_cache_miss m = m\<lparr>cache_misses := cache_misses m + 1\<rparr>"

definition record_cache_insert :: "read_metrics \<Rightarrow> read_metrics" where
  "record_cache_insert m = m\<lparr>cached_blocks := cached_blocks m + 1\<rparr>"

definition record_cache_eviction :: "read_metrics \<Rightarrow> read_metrics" where
  "record_cache_eviction m = m\<lparr>
     cache_evictions := cache_evictions m + 1,
     cached_blocks := cached_blocks m - 1\<rparr>"

definition snapshot :: "read_metrics \<Rightarrow> full_text_read_metrics" where
  "snapshot m = \<lparr>m_pread_calls = pread_calls m, m_pread_ranges = pread_ranges m,
     m_pread_bytes = pread_bytes m, m_cache_hits = cache_hits m,
     m_cache_misses = cache_misses m, m_cache_evictions = cache_evictions m,
     m_cached_blocks = cached_blocks m\<rparr>"

lemmas metrics_defs = record_pread_def record_cache_hit_def record_cache_miss_def
  record_cache_insert_def record_cache_eviction_def

section \<open>The slice reader\<close>

record slice_reader =
  slice_data :: bytes

definition slice_reader_len :: "slice_reader \<Rightarrow> nat" where
  "slice_reader_len r = length (slice_data r)"

definition slice_reader_is_empty :: "slice_reader \<Rightarrow> bool" where
  "slice_reader_is_empty r \<longleftrightarrow> slice_data r = []"

definition slice_read_one :: "slice_reader \<Rightarrow> read_request \<Rightarrow> io_error + bytes" where
  "slice_read_one r q =
     res_bind (ok_or (IoError InvalidInput [Lit ''offset overflow'']) (usize_try_from (req_pos q)))
       (\<lambda>start. res_bind (ok_or (IoError InvalidInput [Lit ''range overflow''])
                            (checked_add start (req_len q)))
         (\<lambda>stop. if length (slice_data r) < unat stop
                  then Inl (IoError UnexpectedEof [Lit ''read past end of slice''])
                  else Inr (subslice (unat start) (unat stop) (slice_data r))))"

definition slice_pread :: "slice_reader \<Rightarrow> 's pread" where
  "slice_pread r ranges = st_lift (res_collect (slice_read_one r) ranges)"

section \<open>The metered reader\<close>

definition metered_pread :: "'s pread \<Rightarrow> (read_metrics \<times> 's) pread" where
  "metered_pread inner ranges = (\<lambda>(m, s).
     case inner ranges s of (s', r) \<Rightarrow> ((record_pread ranges m, s'), r))"

section \<open>Contracts of readers\<close>

definition request_within :: "bytes \<Rightarrow> read_request \<Rightarrow> bool" where
  "request_within content r \<longleftrightarrow>
     unat (req_pos r) + unat (req_len r) \<le> length content
     \<and> unat (req_pos r) + unat (req_len r) < 2 ^ 64"

definition request_bytes :: "bytes \<Rightarrow> read_request \<Rightarrow> bytes" where
  "request_bytes content r = subslice (unat (req_pos r)) (unat (req_pos r) + unat (req_len r)) content"

locale seek_read =
  fixes pread :: "'s pread"
    and content :: bytes
  assumes pread_ok: "pread rs s = (s', Inr bufs) \<Longrightarrow>
      list_all (request_within content) rs \<and> bufs = map (request_bytes content) rs"
begin

lemma pread_one:
  "pread [r] s = (s', Inr bufs) \<Longrightarrow> request_within content r \<and> bufs = [request_bytes content r]"
  using pread_ok [of "[r]"] by simp

lemma pread_lengths:
  assumes "pread rs s = (s', Inr bufs)"
  shows "map length bufs = map (unat \<circ> req_len) rs"
  using pread_ok [OF assms]
  by (auto simp: list_all_iff request_within_def request_bytes_def)

end

locale total_seek_read = seek_read +
  assumes pread_total: "list_all (request_within content) rs \<Longrightarrow>
      \<exists>s'. pread rs s = (s', Inr (map (request_bytes content) rs))"

section \<open>Writers\<close>

text \<open>
  A writer of type \<open>'w\<close> is a pair of operations; \<open>vec_writer\<close> is \<^verbatim>\<open>PosWriter<Vec<u8>>\<close>, which
  delegates to the vector's \<^verbatim>\<open>io::Write\<close>: appending never fails and flushing does nothing.
\<close>

record 'w seek_write =
  write_all :: "bytes \<Rightarrow> ('w, io_error, unit) st_res"
  flush :: "('w, io_error, unit) st_res"

definition pos_writer ::
  "(bytes \<Rightarrow> ('w, io_error, unit) st_res) \<Rightarrow> ('w, io_error, unit) st_res \<Rightarrow> 'w seek_write" where
  "pos_writer inner_write_all inner_flush =
     \<lparr>write_all = (\<lambda>buf. inner_write_all buf), flush = inner_flush\<rparr>"

definition vec_writer :: "bytes seek_write" where
  "vec_writer = pos_writer (\<lambda>buf v. (v @ buf, Inr ())) (\<lambda>v. (v, Inr ()))"

locale seek_writer =
  fixes W :: "'w seek_write"
    and written :: "'w \<Rightarrow> bytes"
  assumes write_all_ok: "write_all W buf w = (w', Inr ()) \<Longrightarrow> written w' = written w @ buf"
    and write_all_partial: "write_all W buf w = (w', Inl e) \<Longrightarrow>
          \<exists>n. written w' = written w @ take n buf"
    and flush_keeps: "flush W w = (w', r) \<Longrightarrow> written w' = written w"

section \<open>The contracts hold\<close>

lemma slice_read_one_Inr:
  "slice_read_one r q = Inr b \<longleftrightarrow>
     request_within (slice_data r) q \<and> b = request_bytes (slice_data r) q"
proof (cases "checked_add (req_pos q) (req_len q)")
  case None
  then have "2 ^ 64 \<le> unat (req_pos q) + unat (req_len q)" by (simp add: word_simps)
  then show ?thesis using None by (simp add: slice_read_one_def request_within_def)
next
  case (Some stop)
  then have "unat stop = unat (req_pos q) + unat (req_len q)" by (simp add: word_simps)
  moreover have "unat stop < 2 ^ 64" by simp
  ultimately show ?thesis
    using Some by (auto simp: slice_read_one_def request_within_def request_bytes_def)
qed

lemma list_all2_map_iff:
  "list_all2 (\<lambda>x y. P x \<and> y = f x) xs ys \<longleftrightarrow> list_all P xs \<and> ys = map f xs"
  by (induction xs arbitrary: ys) (auto simp: list_all2_Cons1)

lemma slice_pread_Inr:
  "slice_pread r rs s = (s', Inr bufs) \<longleftrightarrow>
     s' = s \<and> list_all (request_within (slice_data r)) rs \<and> bufs = map (request_bytes (slice_data r)) rs"
  by (auto simp: slice_pread_def res_collect_Inr slice_read_one_Inr list_all2_map_iff)

interpretation slice_rd: total_seek_read "slice_pread r" "slice_data r" for r
  by unfold_locales (auto simp: slice_pread_Inr)

lemma metered_pread_Inr:
  "metered_pread inner rs (m, s) = (ms', Inr bufs) \<longleftrightarrow>
     (\<exists>s'. inner rs s = (s', Inr bufs) \<and> ms' = (record_pread rs m, s'))"
  by (auto simp: metered_pread_def split: prod.splits)

text \<open>Metering keeps the contract of the reader it wraps.\<close>

locale metered_read = seek_read

sublocale metered_read \<subseteq> metered: seek_read "metered_pread pread" content
proof
  fix rs s s' bufs
  assume "metered_pread pread rs s = (s', Inr bufs)"
  then show "list_all (request_within content) rs \<and> bufs = map (request_bytes content) rs"
    by (cases s) (auto simp: metered_pread_Inr dest: pread_ok)
qed

interpretation slice_metered: metered_read "slice_pread r" "slice_data r" for r ..

interpretation vec_wr: seek_writer vec_writer "\<lambda>v. v"
  by unfold_locales (auto simp: vec_writer_def pos_writer_def)

end
