(* ===== verification/Storage.thy ===== *)
theory Storage
  imports HeaderCodec IoLayer
begin

text \<open>
  The archive envelope of \<^verbatim>\<open>core/src/storage.rs\<close>: a 16-byte prefix (magic, version, header
  length), the JSON header and the concatenated files. Modelled are both writers (from memory
  and from files on disk, copied in chunks), the header reader with its validation, and the
  batched archive reader. Paths follow the rules of \<^verbatim>\<open>std::path\<close> on Unix. The file system is a
  parameter: a function from paths to the contents of the file, or an error.
\<close>

section \<open>Constants\<close>

definition FORMAT_MAGIC :: bytes where
  "FORMAT_MAGIC = [80, 70, 84, 73, 68, 88, 48, 49]"

definition FORMAT_VERSION :: u32 where
  "FORMAT_VERSION = 1"

definition MAX_HEADER_BYTES :: nat where
  "MAX_HEADER_BYTES = 16 * 1024 * 1024"

definition MAX_ARCHIVE_READ_BATCH_BYTES :: nat where
  "MAX_ARCHIVE_READ_BATCH_BYTES = 64 * 1024 * 1024"

definition MAX_ARCHIVE_READ_BATCH_RANGES :: nat where
  "MAX_ARCHIVE_READ_BATCH_RANGES = 64"

definition ARCHIVE_WRITE_BUFFER_BYTES :: nat where
  "ARCHIVE_WRITE_BUFFER_BYTES = 64 * 1024"

section \<open>Writing\<close>

definition put :: "'w seek_write \<Rightarrow> bytes \<Rightarrow> ('w, ft_error, unit) st_res" where
  "put W buf = st_map_err Io (write_all W buf)"

definition write_envelope_header ::
  "json_text \<Rightarrow> 'w seek_write \<Rightarrow> index_header \<Rightarrow> ('w, ft_error, unit) st_res" where
  "write_envelope_header J W header =
     st_bind (st_lift (map_err Json (jt_print J (header_to_json header)))) (\<lambda>header_json.
     if MAX_HEADER_BYTES < length header_json then
       st_lift (Inl (InvalidStorage [Lit ''header too large: '', ArgNat (length header_json),
         Lit '' bytes exceeds '', ArgNat MAX_HEADER_BYTES, Lit '' bytes'']))
     else
       st_bind (put W FORMAT_MAGIC) (\<lambda>_.
       st_bind (put W (u32_to_be_bytes FORMAT_VERSION)) (\<lambda>_.
       st_bind (st_lift (if length header_json < 2 ^ 32 then Inr (of_nat (length header_json))
                         else Inl (InvalidStorage [Lit ''header too large'']))) (\<lambda>len.
       st_bind (put W (u32_to_be_bytes len)) (\<lambda>_.
       put W header_json)))))"

fun put_each :: "'w seek_write \<Rightarrow> (string \<times> bytes) list \<Rightarrow> ('w, ft_error, unit) st_res" where
  "put_each W [] = st_lift (Inr ())"
| "put_each W ((_, data) # fs) = st_bind (put W data) (\<lambda>_. put_each W fs)"

definition write_envelope ::
  "json_text \<Rightarrow> 'w seek_write \<Rightarrow> index_header \<Rightarrow> (string \<times> bytes) list
     \<Rightarrow> ('w, ft_error, unit) st_res" where
  "write_envelope J W header fs =
     st_bind (write_envelope_header J W header) (\<lambda>_.
     st_bind (put_each W fs) (\<lambda>_.
     st_map_err Io (flush W)))"

text \<open>
  One file: \<open>remaining\<close> bytes are copied from the open file, whose unread rest is \<open>rest\<close>, in
  chunks of at most the buffer size; \<^verbatim>\<open>read_exact\<close> fails when the file is too short.
\<close>

function copy_chunks ::
  "'w seek_write \<Rightarrow> bytes \<Rightarrow> nat \<Rightarrow> ('w, ft_error, unit) st_res" where
  "copy_chunks W rest remaining =
     (if 0 < remaining then
        let chunk_len = min remaining ARCHIVE_WRITE_BUFFER_BYTES in
        if length rest < chunk_len then
          st_lift (Inl (Io (IoError UnexpectedEof [Lit ''failed to fill whole buffer''])))
        else st_bind (put W (take chunk_len rest))
               (\<lambda>_. copy_chunks W (drop chunk_len rest) (remaining - chunk_len))
      else st_lift (Inr ()))"
  by pat_completeness auto
termination
  by (relation "measure (\<lambda>(W, rest, remaining). remaining)")
    (auto simp: ARCHIVE_WRITE_BUFFER_BYTES_def)

declare copy_chunks.simps [simp del]

fun copy_files ::
  "'w seek_write \<Rightarrow> ('p \<Rightarrow> io_error + bytes) \<Rightarrow> (archive_file_entry \<times> 'p) list
     \<Rightarrow> ('w, ft_error, unit) st_res" where
  "copy_files W open_file [] = st_lift (Inr ())"
| "copy_files W open_file ((e, path) # rest) =
     st_bind (st_lift (map_err Io (open_file path))) (\<lambda>data.
     st_bind (copy_chunks W data (unat (entry_length e))) (\<lambda>_.
     copy_files W open_file rest))"

definition write_envelope_from_paths ::
  "json_text \<Rightarrow> ('p \<Rightarrow> io_error + bytes) \<Rightarrow> 'w seek_write \<Rightarrow> index_header \<Rightarrow> 'p list
     \<Rightarrow> ('w, ft_error, unit) st_res" where
  "write_envelope_from_paths J open_file W header paths =
     (if length (hdr_files header) \<noteq> length paths then
        st_lift (Inl (InvalidStorage [Lit ''archive header contains '',
          ArgNat (length (hdr_files header)), Lit '' files but '', ArgNat (length paths),
          Lit '' paths were provided'']))
      else
        st_bind (write_envelope_header J W header) (\<lambda>_.
        st_bind (copy_files W open_file (zip (hdr_files header) paths)) (\<lambda>_.
        st_map_err Io (flush W))))"

section \<open>Paths\<close>

datatype path_component = RootDir | CurDir | ParentDir | Normal string

definition segment_components :: "string \<Rightarrow> path_component list" where
  "segment_components s =
     (if s = [] \<or> s = ''.'' then [] else if s = ''..'' then [ParentDir] else [Normal s])"

definition components :: "string \<Rightarrow> path_component list" where
  "components path =
     (let segs = split_on (\<lambda>c. c = CHR ''/'') path;
          start = (case path of
                     [] \<Rightarrow> []
                   | c # _ \<Rightarrow> (if c = CHR ''/'' then [RootDir]
                              else if hd segs = ''.'' then [CurDir] else []))
      in start @ concat (map segment_components segs))"

definition validate_archive_file_name :: "string \<Rightarrow> ft_error + unit" where
  "validate_archive_file_name nm =
     (if nm = [] then Inl (InvalidStorage [Lit ''archive file name must not be empty''])
      else case components nm of
        [Normal _] \<Rightarrow> Inr ()
      | _ \<Rightarrow> Inl (InvalidStorage (quoted ''archive file '' nm '' must be a plain file name'')))"

section \<open>Header validation\<close>

fun collect_ranges ::
  "string list \<Rightarrow> archive_file_entry list \<Rightarrow> ft_error + (u64 \<times> u64 \<times> string) list" where
  "collect_ranges seen [] = Inr []"
| "collect_ranges seen (file # rest) =
     res_bind (validate_archive_file_name (entry_name file)) (\<lambda>_.
     if entry_name file \<in> set seen then
       Inl (InvalidStorage (quoted ''duplicate archive file '' (entry_name file) ''''))
     else
       res_bind (ok_or (InvalidStorage (quoted ''archive file '' (entry_name file) '' range overflow''))
          (checked_add (entry_offset file) (entry_length file))) (\<lambda>stop.
       res_bind (collect_ranges (entry_name file # seen) rest) (\<lambda>ranges.
       Inr ((entry_offset file, stop, entry_name file) # ranges))))"

fun check_overlap :: "u64 \<Rightarrow> (u64 \<times> u64 \<times> string) list \<Rightarrow> ft_error + unit" where
  "check_overlap previous_end [] = Inr ()"
| "check_overlap previous_end ((start, stop, nm) # ranges) =
     (if start < previous_end then
        Inl (InvalidStorage (quoted ''archive file '' nm '' overlaps a previous file''))
      else check_overlap stop ranges)"

definition validate_header :: "index_header \<Rightarrow> ft_error + unit" where
  "validate_header header =
     res_bind (validate_config (config (hdr_metadata header))) (\<lambda>_.
     if is_blank (tantivy_version (hdr_metadata header)) then
       Inl (InvalidStorage [Lit ''missing Tantivy version in index metadata''])
     else if hdr_files header = [] then
       Inl (InvalidStorage [Lit ''archive file list must not be empty''])
     else res_bind (collect_ranges [] (hdr_files header)) (\<lambda>ranges.
       check_overlap 0 (sort_key fst ranges)))"

section \<open>Reading the header\<close>

definition read_exact_at :: "'s pread \<Rightarrow> u64 \<Rightarrow> usize \<Rightarrow> ('s, ft_error, bytes) st_res" where
  "read_exact_at R pos n =
     st_bind (st_map_err Io (R [read_req pos n])) (\<lambda>bufs.
       st_lift (Inr (case bufs of [] \<Rightarrow> [] | b # _ \<Rightarrow> b)))"

definition read_header ::
  "json_text \<Rightarrow> 's pread \<Rightarrow> ('s, ft_error, index_header \<times> u64) st_res" where
  "read_header J R =
     st_bind (read_exact_at R 0 16) (\<lambda>fixed.
     if subslice 0 8 fixed \<noteq> FORMAT_MAGIC then
       st_lift (Inl (InvalidStorage [Lit ''bad magic'']))
     else
       let version = u32_from_be_bytes (subslice 8 12 fixed) in
       if version \<noteq> FORMAT_VERSION then
         st_lift (Inl (InvalidStorage [Lit ''unsupported format version '', ArgNat (unat version)]))
       else
         let header_len = unat (u32_from_be_bytes (subslice 12 16 fixed)) in
         if MAX_HEADER_BYTES < header_len then
           st_lift (Inl (InvalidStorage [Lit ''header too large: '', ArgNat header_len,
             Lit '' bytes exceeds '', ArgNat MAX_HEADER_BYTES, Lit '' bytes'']))
         else
           st_bind (read_exact_at R 16 (of_nat header_len)) (\<lambda>header_json.
           st_bind (st_lift (map_err Json (res_bind (jt_parse J header_json) de_header))) (\<lambda>header.
           st_bind (st_lift (validate_header header)) (\<lambda>_.
           st_lift (Inr (header, 16 + of_nat header_len))))))"

section \<open>Reading archived files in batches\<close>

record pending_archive_file =
  pend_name :: string
  pend_pos :: u64
  pend_len :: usize

definition read_archive_file_batch ::
  "'s pread \<Rightarrow> (string \<Rightarrow> bytes \<Rightarrow> ft_error + 't) \<Rightarrow> pending_archive_file list
     \<Rightarrow> ('s, ft_error, 't list) st_res" where
  "read_archive_file_batch R consume pending =
     st_bind (st_map_err Io (R (map (\<lambda>p. read_req (pend_pos p) (pend_len p)) pending))) (\<lambda>bufs.
     st_lift (res_collect (\<lambda>(p, data). consume (pend_name p) data) (zip pending bufs)))"

fun read_archive_loop ::
  "'s pread \<Rightarrow> u64 \<Rightarrow> (string \<Rightarrow> bytes \<Rightarrow> ft_error + 't) \<Rightarrow> archive_file_entry list
     \<Rightarrow> pending_archive_file list \<Rightarrow> usize \<Rightarrow> 't list \<Rightarrow> ('s, ft_error, 't list) st_res" where
  "read_archive_loop R body_start consume [] pending pending_bytes output =
     (if pending \<noteq> [] then
        st_bind (read_archive_file_batch R consume pending) (\<lambda>ts. st_lift (Inr (output @ ts)))
      else st_lift (Inr output))"
| "read_archive_loop R body_start consume (file # rest) pending pending_bytes output =
     st_bind (st_lift (ok_or (InvalidStorage (quoted ''archive file '' (entry_name file) '' is too large''))
       (usize_try_from (entry_length file)))) (\<lambda>len.
     st_bind (st_lift (ok_or (InvalidStorage (quoted ''archive file '' (entry_name file) '' offset overflow''))
       (checked_add body_start (entry_offset file)))) (\<lambda>pos.
     let p = \<lparr>pend_name = entry_name file, pend_pos = pos, pend_len = len\<rparr> in
     if pending \<noteq> [] \<and> (MAX_ARCHIVE_READ_BATCH_RANGES \<le> length pending
          \<or> MAX_ARCHIVE_READ_BATCH_BYTES < unat (saturating_add pending_bytes len)) then
       st_bind (read_archive_file_batch R consume pending) (\<lambda>ts.
       read_archive_loop R body_start consume rest [p] (saturating_add 0 len) (output @ ts))
     else
       read_archive_loop R body_start consume rest (pending @ [p])
         (saturating_add pending_bytes len) output))"

definition read_archive_files_with ::
  "'s pread \<Rightarrow> u64 \<Rightarrow> archive_file_entry list \<Rightarrow> (string \<Rightarrow> bytes \<Rightarrow> ft_error + 't)
     \<Rightarrow> ('s, ft_error, 't list) st_res" where
  "read_archive_files_with R body_start fs consume =
     read_archive_loop R body_start consume fs [] 0 []"

definition read_archive_files ::
  "'s pread \<Rightarrow> u64 \<Rightarrow> archive_file_entry list \<Rightarrow> ('s, ft_error, (string \<times> bytes) list) st_res" where
  "read_archive_files R body_start fs =
     read_archive_files_with R body_start fs (\<lambda>nm data. Inr (nm, data))"

section \<open>What the writers emit\<close>

text \<open>
  \<open>emits written m bs\<close>: the operation appends exactly \<open>bs\<close> when it succeeds and a prefix of
  \<open>bs\<close> when it fails.
\<close>

definition emits :: "('w \<Rightarrow> bytes) \<Rightarrow> ('w, 'e, 'a) st_res \<Rightarrow> bytes \<Rightarrow> bool" where
  "emits written m bs \<longleftrightarrow>
     (\<forall>w w' r. m w = (w', r) \<longrightarrow>
        (case r of Inr _ \<Rightarrow> written w' = written w @ bs
         | Inl _ \<Rightarrow> (\<exists>n. written w' = written w @ take n bs)))"

lemma emits_okD: "emits written m bs \<Longrightarrow> m w = (w', Inr x) \<Longrightarrow> written w' = written w @ bs"
  by (fastforce simp: emits_def)

lemma emits_errD:
  "emits written m bs \<Longrightarrow> m w = (w', Inl e) \<Longrightarrow> \<exists>n. written w' = written w @ take n bs"
  by (fastforce simp: emits_def)

lemma emits_bind:
  assumes "emits written m bs" and "\<And>x. emits written (f x) cs"
  shows "emits written (st_bind m f) (bs @ cs)"
  unfolding emits_def
proof (intro allI impI)
  fix w w' r
  assume run: "st_bind m f w = (w', r)"
  obtain u q where m: "m w = (u, q)" by (cases "m w")
  show "case r of Inr _ \<Rightarrow> written w' = written w @ bs @ cs
    | Inl _ \<Rightarrow> \<exists>n. written w' = written w @ take n (bs @ cs)"
  proof (cases q)
    case (Inl e)
    with m run obtain n where "r = Inl e" and n: "written w' = written w @ take n bs"
      using emits_errD [OF assms(1), of w u e] by auto
    have "take n bs = take (min n (length bs)) (bs @ cs)" by (simp add: min_def)
    then have "written w' = written w @ take (min n (length bs)) (bs @ cs)" using n by simp
    with \<open>r = Inl e\<close> show ?thesis by (auto intro: exI [of _ "min n (length bs)"] simp del: take_append)
  next
    case (Inr x)
    with m have u: "written u = written w @ bs" using emits_okD [OF assms(1)] by simp
    have fx: "f x u = (w', r)" using run m Inr by simp
    show ?thesis
    proof (cases r)
      case (Inl e)
      with fx obtain n where "written w' = written u @ take n cs"
        using emits_errD [OF assms(2)] by blast
      then have "written w' = written w @ take (length bs + n) (bs @ cs)" by (simp add: u)
      with Inl show ?thesis by (auto simp del: take_append)
    next
      case (Inr y)
      with fx emits_okD [OF assms(2)] u show ?thesis by simp
    qed
  qed
qed

lemma emits_lift [intro]: "emits written (st_lift r) bs" if "\<And>x. r = Inr x \<Longrightarrow> bs = []"
  using that by (auto simp: emits_def split: sum.splits intro: exI [of _ 0])

lemma emits_return [simp]: "emits written (\<lambda>w. (w, Inr x)) []"
  by (simp add: emits_def)

lemma emits_fail [simp]:
  "emits written (st_lift (Inl e)) bs" "emits written (\<lambda>w. (w, Inl e)) bs"
  by (auto simp: emits_def intro: exI [of _ 0])

lemma emits_lift_bind:
  assumes "\<And>x. r = Inr x \<Longrightarrow> emits written (f x) bs"
  shows "emits written (st_bind (st_lift r) f) bs"
  using assms by (cases r) (auto simp: emits_def intro: exI [of _ 0])

definition envelope_prefix :: "bytes \<Rightarrow> bytes" where
  "envelope_prefix header_json = FORMAT_MAGIC @ u32_to_be_bytes FORMAT_VERSION
     @ u32_to_be_bytes (of_nat (length header_json)) @ header_json"

definition file_bytes :: "('p \<Rightarrow> io_error + bytes) \<Rightarrow> 'p \<Rightarrow> bytes" where
  "file_bytes open_file p = (case open_file p of Inl _ \<Rightarrow> [] | Inr data \<Rightarrow> data)"

context seek_writer
begin

lemma emits_put: "emits written (put W buf) buf"
  by (auto simp: emits_def put_def st_map_err_def write_all_ok map_err_def split: prod.splits sum.splits
      dest: write_all_ok write_all_partial)

lemma emits_flush: "emits written (st_map_err Io (flush W)) []"
  by (auto simp: emits_def st_map_err_def map_err_def split: prod.splits sum.splits dest: flush_keeps)

lemma emits_chunks: "emits written (copy_chunks W rest n) (take n rest)"
proof (induction n arbitrary: rest rule: less_induct)
  case (less n)
  let ?k = "min n ARCHIVE_WRITE_BUFFER_BYTES"
  show ?case
  proof (cases "0 < n \<and> ?k \<le> length rest")
    case True
    have eq: "take n rest = take ?k rest @ take (n - ?k) (drop ?k rest)"
      by (metis le_add_diff_inverse min.cobounded1 take_add)
    have "n - ?k < n" using True by (simp add: ARCHIVE_WRITE_BUFFER_BYTES_def)
    then have "emits written (st_bind (put W (take ?k rest))
        (\<lambda>_. copy_chunks W (drop ?k rest) (n - ?k))) (take ?k rest @ take (n - ?k) (drop ?k rest))"
      by (intro emits_bind emits_put less.IH)
    with True eq show ?thesis by (subst copy_chunks.simps) (simp add: Let_def not_less)
  next
    case False
    then show ?thesis by (subst copy_chunks.simps) (auto simp: Let_def not_less)
  qed
qed

lemma emits_copy_files:
  "emits written (copy_files W open_file fps)
     (concat (map (\<lambda>(e, p). take (unat (entry_length e)) (file_bytes open_file p)) fps))"
proof (induction fps)
  case (Cons fp fps)
  obtain e p where fp: "fp = (e, p)" by (cases fp)
  show ?case
  proof (cases "open_file p")
    case (Inr data)
    with Cons.IH show ?thesis unfolding fp
      by (auto simp: file_bytes_def intro!: emits_bind emits_chunks)
  qed (simp add: fp)
qed simp

lemma emits_put_each: "emits written (put_each W fs) (concat (map snd fs))"
  by (induction fs) (auto intro!: emits_bind emits_put)

lemma emits_header:
  assumes "jt_print J (header_to_json h) = Inr json"
  shows "emits written (write_envelope_header J W h) (envelope_prefix json)"
proof (cases "MAX_HEADER_BYTES < length json")
  case True
  with assms show ?thesis by (auto simp: write_envelope_header_def)
next
  case False
  then have len: "length json < 2 ^ 32" by (simp add: MAX_HEADER_BYTES_def)
  show ?thesis
    using assms False len unfolding write_envelope_header_def envelope_prefix_def
    by (auto intro!: emits_lift_bind emits_bind emits_put)
qed

lemma emits_envelope:
  assumes "jt_print J (header_to_json h) = Inr json"
  shows "emits written (write_envelope J W h fs) (envelope_prefix json @ concat (map snd fs))"
  using emits_bind [OF emits_header [OF assms] emits_bind [OF emits_put_each emits_flush]]
  by (simp add: write_envelope_def)

lemma emits_envelope_from_paths:
  assumes "jt_print J (header_to_json h) = Inr json"
  shows "emits written (write_envelope_from_paths J open_file W h paths)
    (envelope_prefix json @ concat (map (\<lambda>(e, p). take (unat (entry_length e)) (file_bytes open_file p))
       (zip (hdr_files h) paths)))"
  using emits_bind [OF emits_header [OF assms] emits_bind [OF emits_copy_files emits_flush]]
  by (auto simp: write_envelope_from_paths_def)

end

section \<open>Validated headers\<close>

abbreviation entry_end :: "archive_file_entry \<Rightarrow> nat" where
  "entry_end e \<equiv> unat (entry_offset e) + unat (entry_length e)"

definition entry_ok :: "archive_file_entry \<Rightarrow> bool" where
  "entry_ok e \<longleftrightarrow> validate_archive_file_name (entry_name e) = Inr () \<and> entry_end e < 2 ^ 64"

definition entry_range :: "archive_file_entry \<Rightarrow> u64 \<times> u64 \<times> string" where
  "entry_range e = (entry_offset e, entry_offset e + entry_length e, entry_name e)"

lemma entry_ok_iff:
  "entry_ok e \<longleftrightarrow> validate_archive_file_name (entry_name e) = Inr ()
     \<and> checked_add (entry_offset e) (entry_length e) = Some (entry_offset e + entry_length e)"
  by (auto simp: entry_ok_def checked_add_def)

lemma checked_add_eq: "checked_add a b = Some c \<Longrightarrow> c = a + b"
  by (auto simp: checked_add_def split: if_splits)

lemma collect_ranges_Inr:
  "collect_ranges seen es = Inr rs \<longleftrightarrow>
     list_all entry_ok es \<and> distinct (map entry_name es)
     \<and> entry_name ` set es \<inter> set seen = {} \<and> rs = map entry_range es"
proof (induction es arbitrary: seen rs)
  case (Cons e es)
  have "collect_ranges seen (e # es) = Inr rs \<longleftrightarrow>
      entry_ok e \<and> entry_name e \<notin> set seen
      \<and> (\<exists>rs'. collect_ranges (entry_name e # seen) es = Inr rs' \<and> rs = entry_range e # rs')"
    using checked_add_eq [of "entry_offset e" "entry_length e"]
    by (cases "checked_add (entry_offset e) (entry_length e)")
      (auto simp: res_simps entry_ok_iff entry_range_def split: if_splits)
  also have "\<dots> \<longleftrightarrow> list_all entry_ok (e # es) \<and> distinct (map entry_name (e # es))
      \<and> entry_name ` set (e # es) \<inter> set seen = {} \<and> rs = map entry_range (e # es)"
    unfolding Cons.IH by auto
  finally show ?case .
qed auto

definition range_before :: "u64 \<times> u64 \<times> string \<Rightarrow> u64 \<times> u64 \<times> string \<Rightarrow> bool" where
  "range_before r r' \<longleftrightarrow> fst (snd r) \<le> fst r'"

lemma range_before_simp [simp]: "range_before (a, b, n) r \<longleftrightarrow> b \<le> fst r"
  by (simp add: range_before_def)

lemma check_overlap_sorted_wrt:
  "check_overlap p rs = Inr u \<Longrightarrow> \<forall>r \<in> set rs. fst r \<le> fst (snd r) \<Longrightarrow>
     (\<forall>r \<in> set rs. p \<le> fst r) \<and> sorted_wrt range_before rs"
proof (induction p rs rule: check_overlap.induct)
  case (2 p start stop nm rs)
  then have "p \<le> start" and "start \<le> stop"
    and "(\<forall>r \<in> set rs. stop \<le> fst r) \<and> sorted_wrt range_before rs"
    by (auto split: if_splits)
  then show ?case by auto
qed simp

lemma check_overlap_complete:
  "\<forall>r \<in> set rs. p \<le> fst r \<Longrightarrow> sorted_wrt range_before rs \<Longrightarrow> check_overlap p rs = Inr ()"
  by (induction p rs rule: check_overlap.induct) (auto simp: not_less)

lemma entry_range_le: "entry_ok e \<Longrightarrow> entry_offset e \<le> entry_offset e + entry_length e"
  by (auto simp: entry_ok_def word_le_nat_alt unat_add_u64)

definition disjoint_entries :: "archive_file_entry \<Rightarrow> archive_file_entry \<Rightarrow> bool" where
  "disjoint_entries e f \<longleftrightarrow> entry_end e \<le> unat (entry_offset f) \<or> entry_end f \<le> unat (entry_offset e)"

lemma sorted_wrt_set:
  "sorted_wrt R xs \<Longrightarrow> x \<in> set xs \<Longrightarrow> y \<in> set xs \<Longrightarrow> x \<noteq> y \<Longrightarrow> R x y \<or> R y x"
  by (induction xs) auto

lemma sorted_wrt_refine:
  assumes "sorted_wrt R xs" and "distinct xs"
    and "\<And>x y. x \<in> set xs \<Longrightarrow> y \<in> set xs \<Longrightarrow> x \<noteq> y \<Longrightarrow> R x y \<Longrightarrow> Q x y"
  shows "sorted_wrt Q xs"
  using assms by (induction xs) auto

lemma validate_header_Inr:
  assumes "validate_header h = Inr u"
  shows "validate_config (config (hdr_metadata h)) = Inr ()"
    and "\<not> is_blank (tantivy_version (hdr_metadata h))" and "hdr_files h \<noteq> []"
    and "list_all entry_ok (hdr_files h)" and "distinct (map entry_name (hdr_files h))"
    and "check_overlap 0 (sort_key fst (map entry_range (hdr_files h))) = Inr ()"
  using assms by (auto simp: validate_header_def res_simps collect_ranges_Inr split: if_splits)

lemma validate_header_disjoint:
  assumes "validate_header h = Inr u" and e: "e \<in> set (hdr_files h)" and f: "f \<in> set (hdr_files h)"
    and neq: "e \<noteq> f"
  shows "disjoint_entries e f"
proof -
  note v = validate_header_Inr [OF assms(1)]
  have ok: "entry_ok x" if "x \<in> set (hdr_files h)" for x
    using v(4) that by (simp add: list_all_iff)
  have names: "entry_name e \<noteq> entry_name f"
    using v(5) e f neq by (auto simp: distinct_map inj_on_def)
  let ?rs = "sort_key fst (map entry_range (hdr_files h))"
  have "\<forall>r \<in> set ?rs. fst r \<le> fst (snd r)"
    using ok entry_range_le by (auto simp: entry_range_def)
  with v(6) have "sorted_wrt range_before ?rs"
    using check_overlap_sorted_wrt by blast
  moreover have "entry_range e \<in> set ?rs" "entry_range f \<in> set ?rs" "entry_range e \<noteq> entry_range f"
    using e f names by (auto simp: entry_range_def)
  ultimately have "entry_offset e + entry_length e \<le> entry_offset f
      \<or> entry_offset f + entry_length f \<le> entry_offset e"
    using sorted_wrt_set [of range_before ?rs "entry_range e" "entry_range f"]
    by (simp add: entry_range_def range_before_def)
  with ok [OF e] ok [OF f] show ?thesis
    by (simp add: disjoint_entries_def entry_ok_def word_le_nat_alt unat_add_u64)
qed

section \<open>The layout of a written archive\<close>

text \<open>Entries laid out one after the other from a given offset, as the index writer does.\<close>

fun contiguous :: "nat \<Rightarrow> archive_file_entry list \<Rightarrow> bool" where
  "contiguous start [] \<longleftrightarrow> start < 2 ^ 64"
| "contiguous start (e # es) \<longleftrightarrow> unat (entry_offset e) = start \<and> contiguous (entry_end e) es"

lemma contiguous_bound: "contiguous start es \<Longrightarrow> start < 2 ^ 64"
proof (induction es arbitrary: start)
  case (Cons e es)
  then have "entry_end e < 2 ^ 64" by auto
  with Cons.prems show ?case by simp
qed simp

lemma contiguous_ok: "contiguous start es \<Longrightarrow> e \<in> set es \<Longrightarrow> entry_end e < 2 ^ 64 \<and> start \<le> unat (entry_offset e)"
proof (induction es arbitrary: start)
  case (Cons f es)
  then have rest: "contiguous (entry_end f) es" and f: "unat (entry_offset f) = start" by auto
  show ?case
  proof (cases "e = f")
    case True
    with contiguous_bound [OF rest] f show ?thesis by simp
  next
    case False
    with Cons.prems have "e \<in> set es" by simp
    from Cons.IH [OF rest this] f show ?thesis by simp
  qed
qed simp

lemma contiguous_sorted_wrt:
  "contiguous start es \<Longrightarrow>
     sorted_wrt range_before (map entry_range es)"
proof (induction es arbitrary: start)
  case (Cons e es)
  then have rest: "contiguous (entry_end e) es" and e: "entry_end e < 2 ^ 64"
    by (auto dest: contiguous_bound)
  have "unat (entry_offset e + entry_length e) \<le> unat (entry_offset x)" if "x \<in> set es" for x
    using contiguous_ok [OF rest that] e by (simp add: unat_add_u64)
  with Cons.IH [OF rest] show ?case
    by (auto simp: entry_range_def range_before_def word_le_nat_alt)
qed simp

lemma contiguous_sorted: "contiguous start es \<Longrightarrow> sorted (map fst (map entry_range es))"
proof (induction es arbitrary: start)
  case (Cons e es)
  then have rest: "contiguous (entry_end e) es" by auto
  have "entry_offset e \<le> entry_offset x" if "x \<in> set es" for x
    using contiguous_ok [OF rest that] by (simp add: word_le_nat_alt)
  with Cons.IH [OF rest] show ?case by (auto simp: entry_range_def)
qed simp

lemma validate_header_contiguous:
  assumes "validate_config (config (hdr_metadata h)) = Inr ()"
    and "\<not> is_blank (tantivy_version (hdr_metadata h))" and "hdr_files h \<noteq> []"
    and "distinct (map entry_name (hdr_files h))"
    and "\<forall>e \<in> set (hdr_files h). validate_archive_file_name (entry_name e) = Inr ()"
    and "contiguous start (hdr_files h)"
  shows "validate_header h = Inr ()"
proof -
  have ok: "list_all entry_ok (hdr_files h)"
    using assms(5) contiguous_ok [OF assms(6)] by (simp add: list_all_iff entry_ok_def)
  have "check_overlap 0 (sort_key fst (map entry_range (hdr_files h))) = Inr ()"
    using contiguous_sorted [OF assms(6)] contiguous_sorted_wrt [OF assms(6)]
    by (simp add: sort_key_id_if_sorted check_overlap_complete)
  then show ?thesis
    using assms ok by (simp add: validate_header_def collect_ranges_Inr [THEN iffD2])
qed

section \<open>Reading back\<close>

lemma length_envelope_prefix [simp]: "length (envelope_prefix json) = 16 + length json"
  by (simp add: envelope_prefix_def FORMAT_MAGIC_def)

lemma envelope_fixed:
  assumes "content = envelope_prefix json @ body"
  shows "subslice 0 8 (subslice 0 16 content) = FORMAT_MAGIC"
    and "subslice 8 12 (subslice 0 16 content) = u32_to_be_bytes FORMAT_VERSION"
    and "subslice 12 16 (subslice 0 16 content) = u32_to_be_bytes (of_nat (length json))"
    and "subslice 16 (16 + length json) content = json"
proof -
  let ?V = "u32_to_be_bytes FORMAT_VERSION" and ?L = "u32_to_be_bytes (of_nat (length json))"
  have c: "content = FORMAT_MAGIC @ ?V @ ?L @ json @ body"
    by (simp add: assms envelope_prefix_def)
  have m: "length FORMAT_MAGIC = 8" by (simp add: FORMAT_MAGIC_def)
  show "subslice 0 8 (subslice 0 16 content) = FORMAT_MAGIC"
    using subslice_middle [of "[]" FORMAT_MAGIC] by (simp add: subslice_subslice c m)
  show "subslice 8 12 (subslice 0 16 content) = ?V"
    using subslice_middle [of FORMAT_MAGIC ?V] by (simp add: subslice_subslice c m)
  show "subslice 12 16 (subslice 0 16 content) = ?L"
    using subslice_middle [of "FORMAT_MAGIC @ ?V" ?L] by (simp add: subslice_subslice c m)
  show "subslice 16 (16 + length json) content = json"
    using subslice_middle [of "FORMAT_MAGIC @ ?V @ ?L" json] by (simp add: c m)
qed

context total_seek_read
begin

lemma read_exact_at_total:
  assumes "request_within content (read_req p n)"
  shows "\<exists>s'. read_exact_at pread p n s = (s', Inr (request_bytes content (read_req p n)))"
proof -
  obtain s' where "pread [read_req p n] s = (s', Inr [request_bytes content (read_req p n)])"
    using pread_total [of "[read_req p n]" s] assms by auto
  then show ?thesis by (simp add: read_exact_at_def st_map_err_def)
qed

lemma read_header_total:
  assumes content: "content = envelope_prefix json @ body" and len: "length json \<le> MAX_HEADER_BYTES"
    and json: "jt_parse J json = Inr j" "de_header j = Inr h" and valid: "validate_header h = Inr ()"
  shows "\<exists>s'. read_header J pread s = (s', Inr (h, 16 + of_nat (length json)))"
proof -
  note fixed = envelope_fixed [OF content]
  have small: "length json < 2 ^ 24 + 1" using len by (simp add: MAX_HEADER_BYTES_def)
  then have u64: "unat (of_nat (length json) :: u64) = length json"
    by (simp add: unat_of_nat take_bit_nat_eq_self)
  have u32: "unat (of_nat (length json) :: u32) = length json"
    using small by (simp add: unat_of_nat take_bit_nat_eq_self)
  obtain s1 where r1: "read_exact_at pread 0 16 s = (s1, Inr (subslice 0 16 content))"
    using read_exact_at_total [of 0 16 s] by (auto simp: request_within_def request_bytes_def content)
  obtain s2 where r2: "read_exact_at pread 16 (of_nat (length json)) s1 = (s2, Inr json)"
    using read_exact_at_total [of 16 "of_nat (length json)" s1] small fixed(4)
    by (auto simp: request_within_def request_bytes_def content u64)
  show ?thesis
    unfolding read_header_def
    using r1 r2 json valid fixed len by (simp add: u32 Let_def)
qed

end

section \<open>Batched reads\<close>

definition pend_request :: "pending_archive_file \<Rightarrow> read_request" where
  "pend_request p = read_req (pend_pos p) (pend_len p)"

definition entry_request :: "u64 \<Rightarrow> archive_file_entry \<Rightarrow> read_request" where
  "entry_request body_start e = read_req (body_start + entry_offset e) (entry_length e)"

definition entry_reads :: "bytes \<Rightarrow> u64 \<Rightarrow> archive_file_entry \<Rightarrow> bool" where
  "entry_reads content body_start e \<longleftrightarrow>
     unat body_start + unat (entry_offset e) < 2 ^ 64
     \<and> request_within content (entry_request body_start e)"

context total_seek_read
begin

lemma batch_total:
  assumes "list_all (\<lambda>p. request_within content (pend_request p)) pending"
  shows "\<exists>s'. read_archive_file_batch pread (\<lambda>nm d. Inr (g nm d)) pending s =
     (s', Inr (map (\<lambda>p. g (pend_name p) (request_bytes content (pend_request p))) pending))"
proof -
  have reqs: "map (\<lambda>p. read_req (pend_pos p) (pend_len p)) pending = map pend_request pending"
    by (simp add: pend_request_def)
  obtain s' where "pread (map pend_request pending) s =
      (s', Inr (map (request_bytes content) (map pend_request pending)))"
    using pread_total [of "map pend_request pending" s] assms by (auto simp: list_all_iff)
  moreover have "res_collect (\<lambda>(p, data). Inr (g (pend_name p) data))
      (zip pending (map (request_bytes content) (map pend_request pending)))
    = Inr (map (\<lambda>p. g (pend_name p) (request_bytes content (pend_request p))) pending)"
    by (induction pending) simp_all
  ultimately show ?thesis
    by (simp add: read_archive_file_batch_def reqs st_map_err_def)
qed

lemma loop_total:
  assumes "list_all (entry_reads content b) fs"
    and "list_all (\<lambda>p. request_within content (pend_request p)) pending"
  shows "\<exists>s'. read_archive_loop pread b (\<lambda>nm d. Inr (g nm d)) fs pending pb out s =
     (s', Inr (out @ map (\<lambda>p. g (pend_name p) (request_bytes content (pend_request p))) pending
       @ map (\<lambda>e. g (entry_name e) (request_bytes content (entry_request b e))) fs))"
  using assms
proof (induction fs arbitrary: pending pb out s)
  case Nil
  then show ?case using batch_total [of pending g s] by (cases "pending = []") auto
next
  case (Cons e fs)
  let ?p = "\<lparr>pend_name = entry_name e, pend_pos = b + entry_offset e, pend_len = entry_length e\<rparr>"
  have p: "pend_request ?p = entry_request b e" by (simp add: pend_request_def entry_request_def)
  have fs: "list_all (entry_reads content b) fs" and "entry_reads content b e"
    using Cons.prems(1) by simp_all
  then have e: "request_within content (pend_request ?p)"
    and add: "checked_add b (entry_offset e) = Some (b + entry_offset e)"
    using p by (simp_all add: entry_reads_def checked_add_def)
  obtain s1 where s1: "read_archive_file_batch pread (\<lambda>nm d. Inr (g nm d)) pending s =
      (s1, Inr (map (\<lambda>p. g (pend_name p) (request_bytes content (pend_request p))) pending))"
    using batch_total [OF Cons.prems(2)] by blast
  let ?g = "\<lambda>p. g (pend_name p) (request_bytes content (pend_request p))"
  have "\<exists>s'. read_archive_loop pread b (\<lambda>nm d. Inr (g nm d)) fs [?p]
      (saturating_add 0 (entry_length e)) (out @ map ?g pending) s1 = (s', Inr ((out @ map ?g pending)
        @ map ?g [?p] @ map (\<lambda>e. g (entry_name e) (request_bytes content (entry_request b e))) fs))"
    by (rule Cons.IH [OF fs]) (simp add: e)
  moreover have "\<exists>s'. read_archive_loop pread b (\<lambda>nm d. Inr (g nm d)) fs (pending @ [?p])
      (saturating_add pb (entry_length e)) out s = (s', Inr (out @ map ?g (pending @ [?p])
        @ map (\<lambda>e. g (entry_name e) (request_bytes content (entry_request b e))) fs))"
    by (rule Cons.IH [OF fs]) (simp add: e Cons.prems(2))
  ultimately show ?case using s1 add p by (auto simp: Let_def)
qed

lemma read_archive_files_total:
  assumes "list_all (entry_reads content b) fs"
  shows "\<exists>s'. read_archive_files pread b fs s =
     (s', Inr (map (\<lambda>e. (entry_name e, request_bytes content (entry_request b e))) fs))"
  using loop_total [OF assms, of "[]" Pair 0 "[]" s]
  by (simp add: read_archive_files_def read_archive_files_with_def)

end

definition batch_ok :: "read_request list \<Rightarrow> bool" where
  "batch_ok rs \<longleftrightarrow> rs \<noteq> [] \<and> length rs \<le> MAX_ARCHIVE_READ_BATCH_RANGES
     \<and> (length rs = 1 \<or> sum_list (map (unat \<circ> req_len) rs) \<le> MAX_ARCHIVE_READ_BATCH_BYTES)"

definition batch_guard :: "'s pread \<Rightarrow> 's pread" where
  "batch_guard R rs = (if batch_ok rs then R rs else st_lift (Inl (IoError OtherKind [])))"

definition pending_ok :: "pending_archive_file list \<Rightarrow> usize \<Rightarrow> bool" where
  "pending_ok pending pb \<longleftrightarrow>
     length pending \<le> MAX_ARCHIVE_READ_BATCH_RANGES
     \<and> unat pb = min (sum_list (map (unat \<circ> pend_len) pending)) (2 ^ 64 - 1)
     \<and> (length pending \<le> 1
         \<or> sum_list (map (unat \<circ> pend_len) pending) \<le> MAX_ARCHIVE_READ_BATCH_BYTES)"

lemma batch_guarded:
  assumes "pending_ok pending pb" and "pending \<noteq> []"
  shows "read_archive_file_batch (batch_guard R) consume pending
       = read_archive_file_batch R consume pending"
proof -
  have "batch_ok (map (\<lambda>p. read_req (pend_pos p) (pend_len p)) pending)"
    using assms by (auto simp: pending_ok_def batch_ok_def comp_def le_Suc_eq)
  then show ?thesis by (simp add: read_archive_file_batch_def batch_guard_def)
qed

lemma loop_guarded:
  "pending_ok pending pb \<Longrightarrow>
     read_archive_loop (batch_guard R) b consume fs pending pb out
   = read_archive_loop R b consume fs pending pb out"
proof (induction fs arbitrary: pending pb out)
  case Nil
  then show ?case by (auto simp: batch_guarded)
next
  case (Cons e fs)
  have fresh: "pending_ok [p] (saturating_add 0 (pend_len p))" for p
    by (simp add: pending_ok_def word_simps MAX_ARCHIVE_READ_BATCH_RANGES_def)
  have ext: "pending_ok (pending @ [p]) (saturating_add pb (pend_len p))"
    if "pending = [] \<or> length pending < MAX_ARCHIVE_READ_BATCH_RANGES
        \<and> unat (saturating_add pb (pend_len p)) \<le> MAX_ARCHIVE_READ_BATCH_BYTES" for p
    using Cons.prems that
    by (auto simp: pending_ok_def word_simps MAX_ARCHIVE_READ_BATCH_RANGES_def
        MAX_ARCHIVE_READ_BATCH_BYTES_def min_def split: if_splits)
  show ?case
  proof (cases "checked_add b (entry_offset e)")
    case (Some pos)
    let ?p = "\<lparr>pend_name = entry_name e, pend_pos = pos, pend_len = entry_length e\<rparr>"
    have flush: "read_archive_loop (batch_guard R) b consume fs [?p] (saturating_add 0 (entry_length e)) o'
        = read_archive_loop R b consume fs [?p] (saturating_add 0 (entry_length e)) o'" for o'
      using Cons.IH [OF fresh [of ?p]] by simp
    show ?thesis
    proof (cases "pending \<noteq> [] \<and> (MAX_ARCHIVE_READ_BATCH_RANGES \<le> length pending
          \<or> MAX_ARCHIVE_READ_BATCH_BYTES < unat (saturating_add pb (entry_length e)))")
      case True
      with Some flush show ?thesis by (simp add: Let_def batch_guarded [OF Cons.prems])
    next
      case False
      then have "pending_ok (pending @ [?p]) (saturating_add pb (entry_length e))"
        using ext [of ?p] by auto
      from Cons.IH [OF this] show ?thesis using Some False by (auto simp: Let_def)
    qed
  qed simp
qed

section \<open>Files laid out in the body of an archive\<close>

lemma contiguous_reads:
  assumes "contiguous start es" and "list_all2 (\<lambda>e d. length d = unat (entry_length e)) es ds"
    and "length front = unat b + start" and "length front + length (concat ds) < 2 ^ 64"
  shows "list_all (entry_reads (front @ concat ds @ rest) b) es
    \<and> map (\<lambda>e. request_bytes (front @ concat ds @ rest) (entry_request b e)) es = ds"
  using assms(2,1,3,4)
proof (induction es ds arbitrary: start front rule: list_all2_induct)
  case (Cons e es d ds)
  have off: "unat (entry_offset e) = start" and es: "contiguous (start + unat (entry_length e)) es"
    using Cons.prems(1) by auto
  have pos: "unat (b + entry_offset e) = length front"
    using Cons.prems off by (simp add: unat_add_u64)
  have e: "entry_reads (front @ concat (d # ds) @ rest) b e"
    using Cons.prems Cons.hyps pos off
    by (simp add: entry_reads_def request_within_def entry_request_def)
  have d: "request_bytes (front @ concat (d # ds) @ rest) (entry_request b e) = d"
    using Cons.hyps pos subslice_middle [of front d "concat ds @ rest"]
    by (simp add: request_bytes_def entry_request_def)
  have "length (front @ d) = unat b + (start + unat (entry_length e))"
    and "length (front @ d) + length (concat ds) < 2 ^ 64"
    using Cons.prems Cons.hyps by simp_all
  from Cons.IH [OF es this] e d show ?case by simp
qed simp

section \<open>Writers that do not fail\<close>

text \<open>
  The archive is streamed in buffers no longer than the largest header, so a writer only has to
  accept buffers of that length.
\<close>

locale total_seek_writer = seek_writer +
  assumes write_all_total: "length buf \<le> MAX_HEADER_BYTES \<Longrightarrow> \<exists>w'. write_all W buf w = (w', Inr ())"
    and flush_total: "\<exists>w'. flush W w = (w', Inr ())"
begin

lemma put_total: "length buf \<le> MAX_HEADER_BYTES \<Longrightarrow> \<exists>w'. put W buf w = (w', Inr ())"
  using write_all_total by (simp add: put_def res_simps)

lemma st_bind_total:
  assumes "\<And>w. \<exists>w'. m w = (w', Inr ())" and "\<And>w. \<exists>w'. f () w = (w', Inr ())"
  shows "\<exists>w'. st_bind m f w = (w', Inr ())"
proof -
  obtain w1 where "m w = (w1, Inr ())" using assms(1) by blast
  then show ?thesis using assms(2) [of w1] by simp
qed

lemma chunks_total: "n \<le> length rest \<Longrightarrow> \<exists>w'. copy_chunks W rest n w = (w', Inr ())"
proof (induction n arbitrary: rest w rule: less_induct)
  case (less n)
  let ?k = "min n ARCHIVE_WRITE_BUFFER_BYTES"
  show ?case
  proof (cases "0 < n")
    case True
    then have lt: "n - ?k < n" by (simp add: ARCHIVE_WRITE_BUFFER_BYTES_def)
    have "\<exists>w'. st_bind (put W (take ?k rest)) (\<lambda>_. copy_chunks W (drop ?k rest) (n - ?k)) w = (w', Inr ())"
      using less.IH [OF lt] less.prems
      by (intro st_bind_total put_total) (auto simp: ARCHIVE_WRITE_BUFFER_BYTES_def MAX_HEADER_BYTES_def)
    then show ?thesis
      using True less.prems by (subst copy_chunks.simps) (auto simp: Let_def not_less)
  qed (simp add: copy_chunks.simps)
qed

lemma copy_files_total:
  assumes "list_all (\<lambda>(e, p). \<exists>d. open_file p = Inr d \<and> unat (entry_length e) \<le> length d) fps"
  shows "\<exists>w'. copy_files W open_file fps w = (w', Inr ())"
  using assms
proof (induction fps arbitrary: w)
  case (Cons fp fps)
  obtain e p where fp: "fp = (e, p)" by (cases fp)
  with Cons.prems obtain d where d: "open_file p = Inr d" "unat (entry_length e) \<le> length d" by auto
  have "\<exists>w'. st_bind (copy_chunks W d (unat (entry_length e))) (\<lambda>_. copy_files W open_file fps) w
      = (w', Inr ())"
    using Cons.IH Cons.prems chunks_total [OF d(2)] by (intro st_bind_total) auto
  with d show ?case by (simp add: fp)
qed simp

lemma header_total:
  assumes "jt_print J (header_to_json h) = Inr json" and "length json \<le> MAX_HEADER_BYTES"
  shows "\<exists>w'. write_envelope_header J W h w = (w', Inr ())"
  using assms by (auto simp: write_envelope_header_def MAX_HEADER_BYTES_def FORMAT_MAGIC_def
      intro!: st_bind_total put_total)

lemma envelope_from_paths_total:
  assumes "jt_print J (header_to_json h) = Inr json" and "length json \<le> MAX_HEADER_BYTES"
    and files: "list_all2 (\<lambda>e p. \<exists>d. open_file p = Inr d \<and> unat (entry_length e) \<le> length d)
          (hdr_files h) paths"
  shows "\<exists>w'. write_envelope_from_paths J open_file W h paths w = (w', Inr ())"
proof -
  have "list_all (\<lambda>(e, p). \<exists>d. open_file p = Inr d \<and> unat (entry_length e) \<le> length d)
      (zip (hdr_files h) paths)"
    using files by (induction rule: list_all2_induct) auto
  then have "\<exists>w'. st_bind (write_envelope_header J W h) (\<lambda>_.
      st_bind (copy_files W open_file (zip (hdr_files h) paths)) (\<lambda>_. st_map_err Io (flush W))) w
      = (w', Inr ())"
    using flush_total
    by (intro st_bind_total header_total [OF assms(1,2)] copy_files_total) (simp_all add: res_simps)
  then show ?thesis
    using list_all2_lengthD [OF files] by (simp add: write_envelope_from_paths_def)
qed

lemma envelope_written:
  assumes json: "jt_print J (header_to_json h) = Inr json" "length json \<le> MAX_HEADER_BYTES"
    and files: "list_all2 (\<lambda>e d. length d = unat (entry_length e)) (hdr_files h) ds"
    and opens: "list_all2 (\<lambda>p d. open_file p = Inr d) paths ds"
  shows "\<exists>w'. write_envelope_from_paths J open_file W h paths w = (w', Inr ())
     \<and> written w' = written w @ envelope_prefix json @ concat ds"
proof -
  have ok: "list_all2 (\<lambda>e p. \<exists>d. open_file p = Inr d \<and> unat (entry_length e) \<le> length d)
      (hdr_files h) paths"
    using files opens by (auto simp: list_all2_conv_all_nth)
  have "map (\<lambda>(e, p). take (unat (entry_length e)) (file_bytes open_file p)) (zip (hdr_files h) paths) = ds"
    using files opens by (auto simp: list_all2_conv_all_nth file_bytes_def intro!: nth_equalityI)
  with envelope_from_paths_total [OF json ok] emits_envelope_from_paths [OF json(1), THEN emits_okD]
  show ?thesis by fastforce
qed

end

interpretation vec_total: total_seek_writer vec_writer "\<lambda>v. v"
  by unfold_locales (auto simp: vec_writer_def pos_writer_def)

lemma vec_envelope_from_paths:
  assumes "jt_print J (header_to_json h) = Inr json" "length json \<le> MAX_HEADER_BYTES"
    and "list_all2 (\<lambda>e d. length d = unat (entry_length e)) (hdr_files h) ds"
    and "list_all2 (\<lambda>p d. open_file p = Inr d) paths ds"
  shows "write_envelope_from_paths J open_file vec_writer h paths v
     = (v @ envelope_prefix json @ concat ds, Inr ())"
  using vec_total.envelope_written [OF assms] by fastforce

section \<open>Properties\<close>

text \<open>
  C3. Round trip of the archive. When serde_json parses what it printed for the header and the
  header fits the limit, writing the archive of a valid header with contiguous entries
  succeeds, and reading the header and then the files back returns the header and, for every
  entry in order, its name and the bytes of the file it was written from.
\<close>

theorem archive_roundtrip:
  assumes json: "jt_print J (header_to_json h) = Inr json" "jt_parse J json = Inr (header_to_json h)"
      "length json \<le> MAX_HEADER_BYTES"
    and header: "validate_header h = Inr ()" "contiguous 0 (hdr_files h)"
    and files: "list_all2 (\<lambda>e d. length d = unat (entry_length e)) (hdr_files h) ds"
      "list_all2 (\<lambda>p d. open_file p = Inr d) paths ds"
    and size: "16 + length json + length (concat ds) < 2 ^ 64"
  shows "\<exists>archive body_start.
     write_envelope_from_paths J open_file vec_writer h paths [] = (archive, Inr ())
     \<and> read_header J (slice_pread \<lparr>slice_data = archive\<rparr>) () = ((), Inr (h, body_start))
     \<and> read_archive_files (slice_pread \<lparr>slice_data = archive\<rparr>) body_start (hdr_files h) ()
         = ((), Inr (zip (map entry_name (hdr_files h)) ds))"
proof -
  let ?a = "envelope_prefix json @ concat ds" and ?b = "16 + of_nat (length json) :: u64"
  let ?r = "\<lparr>slice_data = ?a\<rparr>"
  have len: "length (envelope_prefix json) = 16 + length json"
    by (simp add: envelope_prefix_def FORMAT_MAGIC_def)
  have b: "unat ?b = 16 + length json"
    using size by (subst unat_add_u64) (simp_all add: unat_of_nat_u64)
  have reads: "list_all (entry_reads ?a ?b) (hdr_files h)"
    "map (\<lambda>e. request_bytes ?a (entry_request ?b e)) (hdr_files h) = ds"
    using contiguous_reads [OF header(2) files(1), of "envelope_prefix json" ?b "[]"] size
    by (simp_all add: len b)
  have "read_header J (slice_pread ?r) () = ((), Inr (h, ?b))"
    using slice_rd.read_header_total [of ?r json "concat ds" J _ h "()"] json header(1) by simp
  moreover have "map (\<lambda>e. (entry_name e, request_bytes ?a (entry_request ?b e))) (hdr_files h)
      = zip (map entry_name (hdr_files h)) ds"
    by (subst reads(2) [symmetric]) (simp add: zip_map_map zip_same_conv_map)
  then have "read_archive_files (slice_pread ?r) ?b (hdr_files h) ()
      = ((), Inr (zip (map entry_name (hdr_files h)) ds))"
    using slice_rd.read_archive_files_total [of ?r ?b "hdr_files h" "()"] reads(1) by simp
  moreover have "write_envelope_from_paths J open_file vec_writer h paths [] = (?a, Inr ())"
    using vec_envelope_from_paths [OF json(1,3) files, of "[]"] by simp
  ultimately show ?thesis by blast
qed

definition example_header :: index_header where
  "example_header = \<lparr>
     hdr_metadata = \<lparr>config = default_config, document_count = 2, tantivy_version = ''0.26.1''\<rparr>,
     hdr_files = [
       \<lparr>entry_name = ''meta.json'', entry_offset = 0, entry_length = 3\<rparr>,
       \<lparr>entry_name = ''seg.fast'', entry_offset = 3, entry_length = 0\<rparr>,
       \<lparr>entry_name = ''seg.idx'', entry_offset = 3, entry_length = 2\<rparr>]\<rparr>"

definition example_header_text :: bytes where
  "example_header_text = map of_char (
     ''{\"metadata\":{\"config\":{\"row_id_field\":\"row_id\",\"text_fields\":[\"text\"],\"tokenizer\":''
     @ ''{\"tokenizer\":\"default\",\"ngram_min_gram\":3,\"ngram_max_gram\":3,\"ngram_prefix_only\":false,''
     @ ''\"jieba_search_mode\":true,\"jieba_ordinal_position\":true,\"lower_case\":true,''
     @ ''\"max_token_length\":40,\"ascii_folding\":true,\"stem\":true,\"language\":\"english\",''
     @ ''\"remove_stop_words\":true,\"stop_words\":[],\"with_position\":true}},''
     @ ''\"document_count\":2,\"tantivy_version\":\"0.26.1\"},\"files\":[''
     @ ''{\"name\":\"meta.json\",\"offset\":0,\"length\":3},{\"name\":\"seg.fast\",\"offset\":3,\"length\":0},''
     @ ''{\"name\":\"seg.idx\",\"offset\":3,\"length\":2}]}'')"

text \<open>The text codec restricted to one document.\<close>

definition example_text_codec :: json_text where
  "example_text_codec = \<lparr>
     jt_print = (\<lambda>j. if j = header_to_json example_header then Inr example_header_text
                     else de_error ''other document''),
     jt_parse = (\<lambda>b. if b = example_header_text then Inr (header_to_json example_header)
                     else de_error ''expected value'')\<rparr>"

definition example_disk :: "string \<Rightarrow> io_error + bytes" where
  "example_disk p = (if p = ''t/meta.json'' then Inr [123, 32, 125] else if p = ''t/seg.fast'' then Inr []
     else if p = ''t/seg.idx'' then Inr [7, 8] else Inl (IoError OtherKind [Lit ''No such file or directory'']))"

lemma example_header_valid:
  "contiguous 0 (hdr_files example_header)" "validate_header example_header = Inr ()"
proof -
  show c: "contiguous 0 (hdr_files example_header)" by (simp add: example_header_def)
  have m: "validate_config (config (hdr_metadata example_header)) = Inr ()"
    "\<not> is_blank (tantivy_version (hdr_metadata example_header))"
    "\<forall>e \<in> set (hdr_files example_header). validate_archive_file_name (entry_name e) = Inr ()"
    by code_simp+
  show "validate_header example_header = Inr ()"
    by (rule validate_header_contiguous [OF m(1,2) _ _ m(3) c]) (simp_all add: example_header_def)
qed

theorem archive_roundtrip_witness:
  "\<exists>archive body_start.
     write_envelope_from_paths example_text_codec example_disk vec_writer example_header
         [''t/meta.json'', ''t/seg.fast'', ''t/seg.idx''] [] = (archive, Inr ())
     \<and> read_header example_text_codec (slice_pread \<lparr>slice_data = archive\<rparr>) ()
         = ((), Inr (example_header, body_start))
     \<and> read_archive_files (slice_pread \<lparr>slice_data = archive\<rparr>) body_start (hdr_files example_header) ()
         = ((), Inr (zip (map entry_name (hdr_files example_header)) [[123, 32, 125], [], [7, 8]]))"
  by (rule archive_roundtrip [OF _ _ _ example_header_valid(2,1), where json = example_header_text])
    (simp_all add: example_text_codec_def example_header_def example_disk_def
      example_header_text_def MAX_HEADER_BYTES_def)

text \<open>
  C21. A failed write never puts foreign bytes into the output: whatever fails (printing the
  header, its size, opening or reading a file, the writer itself), the writer has received a
  prefix of the archive that a successful write would have produced.
\<close>

theorem write_error_prefix:
  assumes "seek_writer W written" and "jt_print J (header_to_json h) = Inr json"
    and "write_envelope_from_paths J open_file W h paths w = (w', Inl err)"
  shows "\<exists>n. written w' = written w @ take n (envelope_prefix json
     @ concat (map (\<lambda>(e, p). take (unat (entry_length e)) (file_bytes open_file p))
         (zip (hdr_files h) paths)))"
  by (rule emits_errD [OF seek_writer.emits_envelope_from_paths [OF assms(1,2)] assms(3)])

text \<open>A disk on which the last file has become shorter than its entry says.\<close>

definition truncated_disk :: "string \<Rightarrow> io_error + bytes" where
  "truncated_disk p = (if p = ''t/seg.idx'' then Inr [7] else example_disk p)"

lemma truncated_disk_write:
  "write_envelope_from_paths example_text_codec truncated_disk vec_writer example_header
     [''t/meta.json'', ''t/seg.fast'', ''t/seg.idx''] []
   = (envelope_prefix example_header_text @ [123, 32, 125],
      Inl (Io (IoError UnexpectedEof [Lit ''failed to fill whole buffer''])))"
proof -
  have len: "length example_header_text \<le> 1000" by (simp add: example_header_text_def)
  have head: "write_envelope_header example_text_codec vec_writer example_header []
      = (envelope_prefix example_header_text, Inr ())"
    using len by (simp add: write_envelope_header_def example_text_codec_def MAX_HEADER_BYTES_def
        put_def st_bind_def st_map_err_def vec_writer_def pos_writer_def envelope_prefix_def)
  have "copy_files vec_writer truncated_disk (zip (hdr_files example_header)
      [''t/meta.json'', ''t/seg.fast'', ''t/seg.idx'']) v
    = (v @ [123, 32, 125], Inl (Io (IoError UnexpectedEof [Lit ''failed to fill whole buffer''])))" for v
    by (simp add: example_header_def truncated_disk_def example_disk_def copy_chunks.simps
        ARCHIVE_WRITE_BUFFER_BYTES_def put_def st_bind_def st_map_err_def vec_writer_def pos_writer_def)
  with head show ?thesis
    by (simp add: write_envelope_from_paths_def) (simp add: example_header_def)
qed

theorem write_error_prefix_witness:
  "\<exists>n. envelope_prefix example_header_text @ [123, 32, 125] = [] @ take n (envelope_prefix example_header_text
     @ concat (map (\<lambda>(e, p). take (unat (entry_length e)) (file_bytes truncated_disk p))
         (zip (hdr_files example_header) [''t/meta.json'', ''t/seg.fast'', ''t/seg.idx''])))"
  by (rule write_error_prefix [OF vec_wr.seek_writer_axioms _ truncated_disk_write])
    (simp add: example_text_codec_def)

text \<open>
  C6. A header accepted by \<^verbatim>\<open>validate_header\<close> describes a well-formed archive: its configuration
  is valid, it has at least one file, every name is a plain file name, names are distinct, no
  range overflows 64 bits, and the ranges of any two files are disjoint.
\<close>

theorem validate_header_sound:
  assumes "validate_header h = Inr ()"
  shows "validate_config (config (hdr_metadata h)) = Inr ()
    \<and> \<not> is_blank (tantivy_version (hdr_metadata h)) \<and> hdr_files h \<noteq> []
    \<and> distinct (map entry_name (hdr_files h))
    \<and> (\<forall>e \<in> set (hdr_files h). (\<exists>n. components (entry_name e) = [Normal n])
         \<and> unat (entry_offset e) + unat (entry_length e) < 2 ^ 64)
    \<and> (\<forall>e \<in> set (hdr_files h). \<forall>f \<in> set (hdr_files h). e \<noteq> f \<longrightarrow> disjoint_entries e f)"
proof -
  note v = validate_header_Inr [OF assms]
  have "\<exists>n. components nm = [Normal n]" if "validate_archive_file_name nm = Inr ()" for nm
    using that by (auto simp: validate_archive_file_name_def split: if_splits list.splits path_component.splits)
  with v validate_header_disjoint [OF assms] show ?thesis
    by (auto simp: list_all_iff entry_ok_def)
qed

theorem validate_header_sound_witness:
  "disjoint_entries (hdr_files example_header ! 0) (hdr_files example_header ! 2)
   \<and> validate_header example_header = Inr ()"
  using validate_header_sound [OF example_header_valid(2)] example_header_valid(2)
  by (simp add: example_header_def)

text \<open>
  Conversely, when no file is empty, every well-formed header is accepted, in whatever
  order its files are listed.
\<close>

theorem validate_header_complete:
  assumes meta: "validate_config (config (hdr_metadata h)) = Inr ()"
      "\<not> is_blank (tantivy_version (hdr_metadata h))"
    and files: "hdr_files h \<noteq> []" "distinct (map entry_name (hdr_files h))"
      "list_all entry_ok (hdr_files h)" "\<forall>e \<in> set (hdr_files h). entry_length e \<noteq> 0"
    and disjoint: "\<forall>e \<in> set (hdr_files h). \<forall>f \<in> set (hdr_files h). e \<noteq> f \<longrightarrow> disjoint_entries e f"
  shows "validate_header h = Inr ()"
proof -
  let ?rs = "sort_key fst (map entry_range (hdr_files h))"
  have dist: "distinct ?rs"
    using files(2) by (auto simp: distinct_map inj_on_def entry_range_def)
  have before: "range_before r r'" if "r \<in> set ?rs" "r' \<in> set ?rs" "r \<noteq> r'" "fst r \<le> fst r'" for r r'
  proof -
    from that(1,2) obtain e f where e: "e \<in> set (hdr_files h)" "r = entry_range e"
      and f: "f \<in> set (hdr_files h)" "r' = entry_range f" by auto
    have "entry_end e < 2 ^ 64" "entry_end f < 2 ^ 64"
      using files(3) e f by (auto simp: list_all_iff entry_ok_def)
    moreover have "disjoint_entries e f" using disjoint e f that(3) by auto
    moreover have "0 < unat (entry_length f)" using files(4) f by (simp add: unat_gt_0)
    ultimately show ?thesis
      using that(4) e f
      by (auto simp: range_before_def entry_range_def disjoint_entries_def word_le_nat_alt unat_add_u64)
  qed
  have "sorted_wrt (\<lambda>x y. fst x \<le> fst y) ?rs"
    using sorted_sort_key [of fst "map entry_range (hdr_files h)"] by (simp add: sorted_map)
  then have "sorted_wrt range_before ?rs"
    using dist before by (rule sorted_wrt_refine)
  then have "check_overlap 0 ?rs = Inr ()" by (intro check_overlap_complete) simp_all
  then show ?thesis
    using assms by (simp add: validate_header_def collect_ranges_Inr [THEN iffD2])
qed

definition shuffled_header :: index_header where
  "shuffled_header = example_header\<lparr>hdr_files := [
     \<lparr>entry_name = ''seg.idx'', entry_offset = 9, entry_length = 2\<rparr>,
     \<lparr>entry_name = ''meta.json'', entry_offset = 0, entry_length = 3\<rparr>]\<rparr>"

theorem validate_header_complete_witness: "validate_header shuffled_header = Inr ()"
proof (rule validate_header_complete)
  show "validate_config (config (hdr_metadata shuffled_header)) = Inr ()"
    "\<not> is_blank (tantivy_version (hdr_metadata shuffled_header))"
    by code_simp+
  have "validate_archive_file_name ''seg.idx'' = Inr ()" "validate_archive_file_name ''meta.json'' = Inr ()"
    by code_simp+
  then show "list_all entry_ok (hdr_files shuffled_header)"
    by (simp add: shuffled_header_def entry_ok_def)
qed (simp_all add: shuffled_header_def disjoint_entries_def)

text \<open>What is wrong with the first 16 bytes of an archive, if anything.\<close>

definition prefix_error :: "bytes \<Rightarrow> ft_error option" where
  "prefix_error archive =
     (let version = u32_from_be_bytes (subslice 8 12 archive);
          header_len = unat (u32_from_be_bytes (subslice 12 16 archive))
      in if length archive < 16 then Some (Io (IoError UnexpectedEof [Lit ''read past end of slice'']))
         else if take 8 archive \<noteq> FORMAT_MAGIC then Some (InvalidStorage [Lit ''bad magic''])
         else if version \<noteq> FORMAT_VERSION then
           Some (InvalidStorage [Lit ''unsupported format version '', ArgNat (unat version)])
         else if MAX_HEADER_BYTES < header_len then
           Some (InvalidStorage [Lit ''header too large: '', ArgNat header_len,
             Lit '' bytes exceeds '', ArgNat MAX_HEADER_BYTES, Lit '' bytes''])
         else None)"

text \<open>
  C22. Corrupt prefixes are refused after a single read of 16 bytes, before anything is
  allocated for the header: a short archive, wrong magic, an unknown version, and a header
  length above the limit each give their error, and the metered reader has counted one
  call, one range and 16 bytes.
\<close>

theorem read_header_rejects_prefix:
  assumes "prefix_error archive = Some e"
  shows "read_header J (metered_pread (slice_pread \<lparr>slice_data = archive\<rparr>)) (default_metrics, s)
     = ((default_metrics\<lparr>pread_calls := 1, pread_ranges := 1, pread_bytes := 16\<rparr>, s), Inl e)"
proof (cases "length archive < 16")
  case True
  have "slice_read_one \<lparr>slice_data = archive\<rparr> (read_req 0 16)
      = Inl (IoError UnexpectedEof [Lit ''read past end of slice''])"
    using True by (simp add: slice_read_one_def checked_add_def)
  then show ?thesis
    using assms True
    by (simp add: read_header_def read_exact_at_def metered_pread_def slice_pread_def st_map_err_def
        st_bind_def record_pread_def default_metrics_def prefix_error_def)
next
  case False
  let ?m = "default_metrics\<lparr>pread_calls := 1, pread_ranges := 1, pread_bytes := 16\<rparr>"
  have "slice_pread \<lparr>slice_data = archive\<rparr> [read_req 0 16] s = (s, Inr [subslice 0 16 archive])"
    using False by (simp add: slice_pread_Inr request_within_def request_bytes_def)
  then have "read_exact_at (metered_pread (slice_pread \<lparr>slice_data = archive\<rparr>)) 0 16 (default_metrics, s)
      = ((?m, s), Inr (subslice 0 16 archive))"
    by (simp add: read_exact_at_def metered_pread_def st_map_err_def record_pread_def default_metrics_def)
  moreover have "subslice 0 8 archive = take 8 archive" by (simp add: subslice_def)
  ultimately show ?thesis
    using assms False
    by (auto simp: read_header_def prefix_error_def subslice_subslice Let_def split: if_splits)
qed

theorem read_header_rejects_prefix_witness:
  "read_header example_text_codec (metered_pread (slice_pread \<lparr>slice_data = FORMAT_MAGIC @ [0, 0, 0, 1, 1, 0, 0, 1]\<rparr>))
       (default_metrics, ())
     = ((default_metrics\<lparr>pread_calls := 1, pread_ranges := 1, pread_bytes := 16\<rparr>, ()),
        Inl (InvalidStorage [Lit ''header too large: '', ArgNat 16777217,
             Lit '' bytes exceeds '', ArgNat MAX_HEADER_BYTES, Lit '' bytes'']))"
  by (rule read_header_rejects_prefix)
    (simp add: prefix_error_def FORMAT_MAGIC_def FORMAT_VERSION_def subslice_def
      u32_from_be_bytes_def MAX_HEADER_BYTES_def)

text \<open>
  C23. Batched reading stays within its limits for every reader: it behaves as over a reader
  that refuses calls with no range, with more than 64 ranges, or with several ranges of
  together more than 64 MiB.
\<close>

theorem read_archive_files_batches:
  "read_archive_files_with (batch_guard R) body_start fs consume
     = read_archive_files_with R body_start fs consume"
  unfolding read_archive_files_with_def
  by (rule loop_guarded) (simp add: pending_ok_def)

end
