(* ===== verification/ArchiveDirectory.thy ===== *)
theory ArchiveDirectory
  imports Storage "HOL-Library.AList"
begin

text \<open>
  The read-only directory of \<^verbatim>\<open>core/src/archive_directory.rs\<close>: files of an archive as byte ranges
  of a positional reader, file handles, and the block cache they share. The cache state, the
  read metrics and the reader's own state form one record, since the program shares them
  between all handles; the metrics are part of the reader's state because the metered reader
  updates the same counters. A hash map of blocks is an association list with distinct keys,
  a path is compared by its components, and the mutex is the flag that says it is poisoned.
  A panic (slicing a block out of bounds) is a failure of its own, distinct from errors.
\<close>

section \<open>Data\<close>

definition READ_CACHE_BLOCK_BYTES :: nat where
  "READ_CACHE_BLOCK_BYTES = 64 * 1024"

definition READ_CACHE_MAX_BLOCKS :: nat where
  "READ_CACHE_MAX_BLOCKS = 256"

datatype 'e failure = Fail 'e | Panic

record archived_file =
  file_start :: u64
  file_length :: usize

record 'i dir_state =
  ac_blocks :: "(u64 \<times> bytes) list"
  ac_order :: "u64 list"
  ac_poisoned :: bool
  ac_io :: "read_metrics \<times> 'i"

type_synonym file_map = "path_component list \<rightharpoonup> archived_file"

record archive_file_handle =
  handle_path :: string
  handle_start :: u64
  handle_length :: usize

datatype open_read_error = FileDoesNotExist string | OpenReadIoError io_error string
datatype delete_error = DeleteFileDoesNotExist string | DeleteIoError io_error string
datatype open_write_error = OpenWriteIoError io_error string
datatype lock_error = LockIoError io_error

definition read_only_error :: io_error where
  "read_only_error = IoError PermissionDenied [Lit ''archive directory is read-only'']"

section \<open>The block cache\<close>

definition upd_metrics :: "(read_metrics \<Rightarrow> read_metrics) \<Rightarrow> 'i dir_state \<Rightarrow> 'i dir_state" where
  "upd_metrics f st = st\<lparr>ac_io := (f (fst (ac_io st)), snd (ac_io st))\<rparr>"

definition poisoned_error :: io_error where
  "poisoned_error = IoError OtherKind [Lit ''archive read cache lock poisoned'']"

definition new_cache :: "read_metrics \<times> 'i \<Rightarrow> 'i dir_state" where
  "new_cache io = \<lparr>ac_blocks = [], ac_order = [], ac_poisoned = False, ac_io = io\<rparr>"

definition cache_get :: "u64 \<Rightarrow> ('i dir_state, io_error, bytes option) st_res" where
  "cache_get pos st =
     (if ac_poisoned st then (st, Inl poisoned_error)
      else case map_of (ac_blocks st) pos of
        Some block \<Rightarrow> (upd_metrics record_cache_hit st, Inr (Some block))
      | None \<Rightarrow> (st, Inr None))"

definition cache_record_miss :: "'i dir_state \<Rightarrow> 'i dir_state" where
  "cache_record_miss st = upd_metrics record_cache_miss st"

fun evict :: "(u64 \<times> bytes) list \<Rightarrow> u64 list \<Rightarrow> read_metrics
    \<Rightarrow> (u64 \<times> bytes) list \<times> u64 list \<times> read_metrics" where
  "evict blocks [] m = (blocks, [], m)"
| "evict blocks (evicted # order) m =
     (if READ_CACHE_MAX_BLOCKS \<le> length blocks
      then evict (AList.delete evicted blocks) order (record_cache_eviction m)
      else (blocks, evicted # order, m))"

definition cache_insert :: "u64 \<Rightarrow> bytes \<Rightarrow> ('i dir_state, io_error, bytes) st_res" where
  "cache_insert pos block st =
     (if ac_poisoned st then (st, Inl poisoned_error)
      else case map_of (ac_blocks st) pos of
        Some existing \<Rightarrow> (st, Inr existing)
      | None \<Rightarrow>
          (case evict (ac_blocks st) (ac_order st) (fst (ac_io st)) of (blocks, order, m) \<Rightarrow>
            (st\<lparr>ac_blocks := AList.update pos block blocks, ac_order := order @ [pos],
                ac_io := (record_cache_insert m, snd (ac_io st))\<rparr>, Inr block)))"

section \<open>File handles\<close>

text \<open>\<^verbatim>\<open>u64::try_from\<close> on a \<^verbatim>\<open>usize\<close>; the two types have the same width.\<close>

definition u64_try_from :: "usize \<Rightarrow> u64 option" where
  "u64_try_from x = (if unat x < 2 ^ 64 then Some x else None)"

lemma u64_try_from_Some [simp]: "u64_try_from x = Some x"
  by (simp add: u64_try_from_def)

definition offset_overflow :: "io_error failure" where
  "offset_overflow = Fail (IoError InvalidInput [Lit ''offset overflow''])"

definition absolute_pos :: "archive_file_handle \<Rightarrow> usize \<Rightarrow> io_error failure + u64" where
  "absolute_pos h offset =
     res_bind (ok_or offset_overflow (u64_try_from offset)) (\<lambda>relative_start.
     ok_or offset_overflow (checked_add (handle_start h) relative_start))"

definition read_direct ::
  "(read_metrics \<times> 'i) pread \<Rightarrow> u64 \<Rightarrow> usize \<Rightarrow> ('i dir_state, io_error failure, bytes) st_res" where
  "read_direct R pos n st =
     (case R [read_req pos n] (ac_io st) of (io, r) \<Rightarrow>
       (st\<lparr>ac_io := io\<rparr>, map_err Fail (res_bind r (\<lambda>bufs. Inr (case bufs of [] \<Rightarrow> [] | b # _ \<Rightarrow> b)))))"

text \<open>\<^verbatim>\<open>OwnedBytes::slice\<close> panics out of bounds.\<close>

definition block_slice :: "bytes \<Rightarrow> usize \<Rightarrow> usize \<Rightarrow> io_error failure + bytes" where
  "block_slice block start len =
     (if unat start + unat len \<le> length block
      then Inr (subslice (unat start) (unat start + unat len) block) else Inl Panic)"

definition block_start :: "usize \<Rightarrow> usize" where
  "block_start i = (i div of_nat READ_CACHE_BLOCK_BYTES) * of_nat READ_CACHE_BLOCK_BYTES"

definition block_end :: "archive_file_handle \<Rightarrow> usize \<Rightarrow> usize" where
  "block_end h i = min (handle_length h) (block_start i + of_nat READ_CACHE_BLOCK_BYTES)"

definition cacheable :: "archive_file_handle \<Rightarrow> usize \<Rightarrow> usize \<Rightarrow> bool" where
  "cacheable h a b \<longleftrightarrow> unat (b - a) \<le> READ_CACHE_BLOCK_BYTES \<and> b \<le> block_end h a"

definition read_cached_block ::
  "(read_metrics \<times> 'i) pread \<Rightarrow> archive_file_handle \<Rightarrow> usize \<Rightarrow> usize
     \<Rightarrow> ('i dir_state, io_error failure, bytes option) st_res" where
  "read_cached_block R h a b =
     (if \<not> unat (b - a) \<le> READ_CACHE_BLOCK_BYTES then st_lift (Inr None)
      else if block_end h a < b then st_lift (Inr None)
      else
        st_bind (st_lift (absolute_pos h (block_start a))) (\<lambda>pos.
        st_bind (st_map_err Fail (cache_get pos)) (\<lambda>found.
        st_bind
          (case found of
             Some block \<Rightarrow> st_lift (Inr block)
           | None \<Rightarrow>
               (\<lambda>st. st_bind (read_direct R pos (block_end h a - block_start a))
                       (\<lambda>block. st_map_err Fail (cache_insert pos block)) (cache_record_miss st)))
          (\<lambda>block. st_bind (st_lift (block_slice block (a - block_start a) (b - a)))
             (\<lambda>bytes. st_lift (Inr (Some bytes)))))))"

definition invalid_range :: "archive_file_handle \<Rightarrow> usize \<Rightarrow> usize \<Rightarrow> io_error" where
  "invalid_range h a b = IoError InvalidInput [Lit ''invalid range '', ArgNat (unat a), Lit ''..'',
     ArgNat (unat b), Lit '' for archive file '', Lit [CHR 0x27], ArgStr (handle_path h), Lit [CHR 0x27],
     Lit '' with length '', ArgNat (unat (handle_length h))]"

definition read_bytes ::
  "(read_metrics \<times> 'i) pread \<Rightarrow> archive_file_handle \<Rightarrow> usize \<Rightarrow> usize
     \<Rightarrow> ('i dir_state, io_error failure, bytes) st_res" where
  "read_bytes R h a b =
     (if b < a \<or> handle_length h < b then st_lift (Inl (Fail (invalid_range h a b)))
      else if \<not> a < b then st_lift (Inr [])
      else
        st_bind (read_cached_block R h a b) (\<lambda>cached.
          case cached of
            Some bytes \<Rightarrow> st_lift (Inr bytes)
          | None \<Rightarrow> st_bind (st_lift (absolute_pos h a)) (\<lambda>pos. read_direct R pos (b - a))))"

section \<open>The directory\<close>

fun map_files :: "u64 \<Rightarrow> file_map \<Rightarrow> archive_file_entry list \<Rightarrow> ft_error + file_map" where
  "map_files body_start mapped [] = Inr mapped"
| "map_files body_start mapped (file # rest) =
     res_bind (ok_or (InvalidStorage (quoted ''archive file '' (entry_name file) '' offset overflow''))
       (checked_add body_start (entry_offset file))) (\<lambda>start.
     res_bind (ok_or (InvalidStorage (quoted ''archive file '' (entry_name file) '' is too large''))
       (usize_try_from (entry_length file))) (\<lambda>len.
     map_files body_start
       (mapped(components (entry_name file) \<mapsto> \<lparr>file_start = start, file_length = len\<rparr>)) rest))"

definition new_with_metrics ::
  "u64 \<Rightarrow> archive_file_entry list \<Rightarrow> read_metrics \<times> 'i \<Rightarrow> ft_error + file_map \<times> 'i dir_state" where
  "new_with_metrics body_start files io =
     res_bind (map_files body_start Map.empty files) (\<lambda>mapped. Inr (mapped, new_cache io))"

definition dir_file :: "file_map \<Rightarrow> string \<Rightarrow> open_read_error + archived_file" where
  "dir_file files path = ok_or (FileDoesNotExist path) (files (components path))"

definition get_file_handle :: "file_map \<Rightarrow> string \<Rightarrow> open_read_error + archive_file_handle" where
  "get_file_handle files path = res_bind (dir_file files path) (\<lambda>file.
     Inr \<lparr>handle_path = path, handle_start = file_start file, handle_length = file_length file\<rparr>)"

definition dir_delete :: "file_map \<Rightarrow> string \<Rightarrow> delete_error + unit" where
  "dir_delete files path =
     (if files (components path) \<noteq> None then Inl (DeleteIoError read_only_error path)
      else Inl (DeleteFileDoesNotExist path))"

definition dir_exists :: "file_map \<Rightarrow> string \<Rightarrow> open_read_error + bool" where
  "dir_exists files path = Inr (files (components path) \<noteq> None)"

definition open_write :: "file_map \<Rightarrow> string \<Rightarrow> open_write_error + unit" where
  "open_write files path = Inl (OpenWriteIoError read_only_error path)"

definition atomic_write :: "file_map \<Rightarrow> string \<Rightarrow> bytes \<Rightarrow> io_error + unit" where
  "atomic_write files path data = Inl read_only_error"

definition sync_directory :: "io_error + unit" where
  "sync_directory = Inr ()"

text \<open>The path of tantivy's meta lock is a parameter.\<close>

definition acquire_lock :: "string \<Rightarrow> string \<Rightarrow> lock_error + unit" where
  "acquire_lock meta_lock_path lock_path =
     (if components lock_path = components meta_lock_path then Inr ()
      else Inl (LockIoError read_only_error))"

text \<open>
  \<^verbatim>\<open>atomic_read\<close> opens the file as tantivy's \<^verbatim>\<open>FileSlice\<close> over the handle and reads all of it;
  \<open>read_slice\<close> stands for \<^verbatim>\<open>FileSlice::read_bytes\<close> and gets the handle's \<^verbatim>\<open>read_bytes\<close> and length.
\<close>

type_synonym 'i slice_read = "(usize \<Rightarrow> usize \<Rightarrow> ('i dir_state, io_error failure, bytes) st_res)
  \<Rightarrow> usize \<Rightarrow> ('i dir_state, io_error failure, bytes) st_res"

definition wrap_open_read :: "string \<Rightarrow> io_error failure \<Rightarrow> open_read_error failure" where
  "wrap_open_read path e = (case e of Fail io \<Rightarrow> Fail (OpenReadIoError io path) | Panic \<Rightarrow> Panic)"

definition atomic_read ::
  "'i slice_read \<Rightarrow> (read_metrics \<times> 'i) pread \<Rightarrow> file_map \<Rightarrow> string
     \<Rightarrow> ('i dir_state, open_read_error failure, bytes) st_res" where
  "atomic_read read_slice R files path =
     st_bind (st_lift (map_err Fail (get_file_handle files path))) (\<lambda>h.
     st_map_err (wrap_open_read path) (read_slice (read_bytes R h) (handle_length h)))"

section \<open>The cache invariant\<close>

definition cache_shape :: "(u64 \<times> bytes) list \<Rightarrow> u64 list \<Rightarrow> read_metrics \<Rightarrow> bool" where
  "cache_shape blocks order m \<longleftrightarrow>
     distinct order \<and> distinct (map fst blocks) \<and> set order = fst ` set blocks
     \<and> length blocks \<le> READ_CACHE_MAX_BLOCKS \<and> cached_blocks m = of_nat (length blocks)"

definition cache_inv :: "'i dir_state \<Rightarrow> bool" where
  "cache_inv st \<longleftrightarrow> cache_shape (ac_blocks st) (ac_order st) (fst (ac_io st))"

lemma cache_shape_length: "cache_shape blocks order m \<Longrightarrow> length order = length blocks"
  unfolding cache_shape_def by (metis distinct_card length_map list.set_map)

lemma cache_shape_counters [simp]:
  "cache_shape blocks order (record_cache_hit m) \<longleftrightarrow> cache_shape blocks order m"
  "cache_shape blocks order (record_cache_miss m) \<longleftrightarrow> cache_shape blocks order m"
  "cache_shape blocks order (record_pread rs m) \<longleftrightarrow> cache_shape blocks order m"
  by (simp_all add: cache_shape_def metrics_defs)

lemma cache_shape_cong:
  "cache_shape blocks order m \<Longrightarrow> cached_blocks m' = cached_blocks m \<Longrightarrow> cache_shape blocks order m'"
  by (simp add: cache_shape_def)

lemma delete_keys: "fst ` set (AList.delete k xs) = fst ` set xs - {k}"
  by (induction xs) auto

lemma length_delete:
  "distinct (map fst xs) \<Longrightarrow> k \<in> fst ` set xs \<Longrightarrow> length (AList.delete k xs) = length xs - 1"
proof (induction xs)
  case (Cons x xs)
  show ?case
  proof (cases "fst x = k")
    case True
    with Cons.prems have "k \<notin> fst ` set xs" by auto
    then have "AList.delete k xs = xs"
      by (force simp: AList.delete_eq intro!: filter_True)
    with True show ?thesis by (cases x) auto
  next
    case False
    with Cons.prems have "k \<in> fst ` set xs" and "distinct (map fst xs)" by auto
    moreover from this(1) have "xs \<noteq> []" by auto
    ultimately show ?thesis using Cons.IH False by (cases x) auto
  qed
qed simp

lemma length_update_new:
  "k \<notin> fst ` set xs \<Longrightarrow> AList.update k v xs = xs @ [(k, v)]"
  by (induction xs) auto

lemma evict_one_shape:
  assumes "cache_shape blocks (evicted # order) m" and "READ_CACHE_MAX_BLOCKS \<le> length blocks"
  shows "cache_shape (AList.delete evicted blocks) order (record_cache_eviction m)"
proof -
  have sh: "distinct (map fst blocks)" "evicted \<in> fst ` set blocks" "length blocks \<le> READ_CACHE_MAX_BLOCKS"
    "cached_blocks m = of_nat (length blocks)" "0 < length blocks"
    using assms by (auto simp: cache_shape_def READ_CACHE_MAX_BLOCKS_def)
  have "cached_blocks (record_cache_eviction m) = of_nat (length blocks - 1)"
    using sh(4,5) by (cases blocks) (simp_all add: record_cache_eviction_def)
  moreover have "length (AList.delete evicted blocks) = length blocks - 1"
    using sh by (simp add: length_delete)
  moreover have "set order = fst ` set (AList.delete evicted blocks)" "distinct order"
    using assms(1) by (auto simp: cache_shape_def delete_keys)
  ultimately show ?thesis
    using sh by (simp only: cache_shape_def distinct_delete) simp
qed

lemma evict_shape:
  assumes "evict blocks order m = (blocks', order', m')" and "cache_shape blocks order m"
  shows "cache_shape blocks' order' m' \<and> length blocks' < READ_CACHE_MAX_BLOCKS
     \<and> set blocks' \<subseteq> set blocks"
  using assms
proof (induction blocks order m rule: evict.induct)
  case (1 blocks m)
  then show ?case using cache_shape_length [OF 1(2)] by (simp add: READ_CACHE_MAX_BLOCKS_def)
next
  case (2 blocks evicted order m)
  show ?case
  proof (cases "READ_CACHE_MAX_BLOCKS \<le> length blocks")
    case True
    from evict_one_shape [OF 2(3) True]
    have "cache_shape (AList.delete evicted blocks) order (record_cache_eviction m)" .
    from 2(1) [OF True _ this] 2(2) True have
      "cache_shape blocks' order' m' \<and> length blocks' < READ_CACHE_MAX_BLOCKS
       \<and> set blocks' \<subseteq> set (AList.delete evicted blocks)" by simp
    then show ?thesis by (auto simp: AList.delete_eq)
  next
    case False
    with 2 show ?thesis by auto
  qed
qed

lemma cache_get_inv: "cache_get pos st = (st', r) \<Longrightarrow> cache_inv st \<Longrightarrow> cache_inv st'"
  by (auto simp: cache_get_def upd_metrics_def cache_inv_def split: if_splits option.splits)

lemma cache_get_blocks:
  "cache_get pos st = (st', r) \<Longrightarrow> ac_blocks st' = ac_blocks st \<and> ac_poisoned st' = ac_poisoned st"
  by (auto simp: cache_get_def upd_metrics_def split: if_splits option.splits)

lemma cache_insert_inv:
  assumes "cache_insert pos block st = (st', r)" and inv: "cache_inv st"
  shows "cache_inv st' \<and> set (ac_blocks st') \<subseteq> insert (pos, block) (set (ac_blocks st))
     \<and> ac_poisoned st' = ac_poisoned st"
proof (cases "ac_poisoned st \<or> map_of (ac_blocks st) pos \<noteq> None")
  case True
  with assms have "st' = st" by (auto simp: cache_insert_def split: if_splits)
  with inv show ?thesis by auto
next
  case False
  obtain bs os m where ev: "evict (ac_blocks st) (ac_order st) (fst (ac_io st)) = (bs, os, m)"
    by (metis prod_cases3)
  have shape: "cache_shape bs os m" "length bs < READ_CACHE_MAX_BLOCKS" "set bs \<subseteq> set (ac_blocks st)"
    using evict_shape [OF ev] inv by (simp_all add: cache_inv_def)
  have "pos \<notin> fst ` set bs"
    using False shape(3) by (force simp: map_of_eq_None_iff)
  then have "cache_shape (AList.update pos block bs) (os @ [pos]) (record_cache_insert m)"
    using shape(1,2) by (simp add: cache_shape_def length_update_new record_cache_insert_def)
  with False assms(1) ev shape(3) \<open>pos \<notin> fst ` set bs\<close> show ?thesis
    by (auto simp: cache_insert_def cache_inv_def length_update_new)
qed

lemma cache_insert_result:
  "cache_insert pos block st = (st', Inr b) \<Longrightarrow> b = block \<or> (pos, b) \<in> set (ac_blocks st)"
  by (auto simp: cache_insert_def dest: map_of_SomeD split: if_splits option.splits prod.splits)

lemma read_direct_inv:
  assumes "\<And>rs io io' r. R rs io = (io', r) \<Longrightarrow> cached_blocks (fst io') = cached_blocks (fst io)"
    and "read_direct R pos n st = (st', r)" and "cache_inv st"
  shows "cache_inv st' \<and> ac_blocks st' = ac_blocks st \<and> ac_poisoned st' = ac_poisoned st"
  using assms(2,3) assms(1) [of "[read_req pos n]" "ac_io st"]
  by (auto simp: read_direct_def cache_inv_def split: prod.splits elim: cache_shape_cong)

section \<open>Blocks of files\<close>

abbreviation file_end :: "archived_file \<Rightarrow> nat" where
  "file_end f \<equiv> unat (file_start f) + unat (file_length f)"

definition files_ok :: "bytes \<Rightarrow> archived_file set \<Rightarrow> bool" where
  "files_ok content F \<longleftrightarrow>
     (\<forall>f \<in> F. file_end f \<le> length content \<and> file_end f < 2 ^ 64)
     \<and> (\<forall>f \<in> F. \<forall>g \<in> F. f \<noteq> g \<longrightarrow> file_end f \<le> unat (file_start g) \<or> file_end g \<le> unat (file_start f))"

definition block_at :: "bytes \<Rightarrow> archived_file \<Rightarrow> nat \<Rightarrow> u64 \<times> bytes \<Rightarrow> bool" where
  "block_at content f k x \<longleftrightarrow>
     k * READ_CACHE_BLOCK_BYTES < unat (file_length f)
     \<and> unat (fst x) = unat (file_start f) + k * READ_CACHE_BLOCK_BYTES
     \<and> snd x = subslice (unat (fst x))
         (unat (file_start f) + min (unat (file_length f)) (k * READ_CACHE_BLOCK_BYTES + READ_CACHE_BLOCK_BYTES))
         content"

definition blocks_ok :: "bytes \<Rightarrow> archived_file set \<Rightarrow> (u64 \<times> bytes) set \<Rightarrow> bool" where
  "blocks_ok content F X \<longleftrightarrow> (\<forall>x \<in> X. \<exists>f \<in> F. \<exists>k. block_at content f k x)"

lemma block_at_unique:
  assumes ok: "files_ok content F" and f: "f \<in> F" and g: "g \<in> F"
    and x: "block_at content f k (pos, b)" and y: "block_at content g l (pos, c)"
  shows "b = c"
proof -
  have fk: "unat pos = unat (file_start f) + k * READ_CACHE_BLOCK_BYTES"
      "k * READ_CACHE_BLOCK_BYTES < unat (file_length f)"
    and gl: "unat pos = unat (file_start g) + l * READ_CACHE_BLOCK_BYTES"
      "l * READ_CACHE_BLOCK_BYTES < unat (file_length g)"
    using x y by (simp_all add: block_at_def)
  have "f = g"
  proof (rule ccontr)
    assume "f \<noteq> g"
    with ok f g have "file_end f \<le> unat (file_start g) \<or> file_end g \<le> unat (file_start f)"
      by (auto simp: files_ok_def)
    with fk gl show False by linarith
  qed
  with fk gl have "k = l" by (simp add: READ_CACHE_BLOCK_BYTES_def)
  with x y \<open>f = g\<close> show ?thesis by (simp add: block_at_def)
qed

section \<open>Block arithmetic\<close>

lemma unat_block_start:
  "unat (block_start i) = unat i div READ_CACHE_BLOCK_BYTES * READ_CACHE_BLOCK_BYTES"
proof -
  have B: "unat (of_nat READ_CACHE_BLOCK_BYTES :: usize) = READ_CACHE_BLOCK_BYTES"
    by (simp add: READ_CACHE_BLOCK_BYTES_def)
  have "unat i div READ_CACHE_BLOCK_BYTES * READ_CACHE_BLOCK_BYTES \<le> unat i"
    by (simp add: div_times_less_eq_dividend)
  then have "unat i div READ_CACHE_BLOCK_BYTES * READ_CACHE_BLOCK_BYTES < 2 ^ 64"
    by (rule le_less_trans [OF _ unat_u64_bound])
  then show ?thesis
    by (simp add: block_start_def unat_word_ariths(2) unat_div_distrib B)
qed

lemma block_start_le: "unat (block_start i) \<le> unat i" "unat i < unat (block_start i) + READ_CACHE_BLOCK_BYTES"
proof -
  have "unat (block_start i) + unat i mod READ_CACHE_BLOCK_BYTES = unat i"
    by (simp add: unat_block_start)
  moreover have "unat i mod READ_CACHE_BLOCK_BYTES < READ_CACHE_BLOCK_BYTES"
    by (simp add: READ_CACHE_BLOCK_BYTES_def)
  ultimately show "unat (block_start i) \<le> unat i" "unat i < unat (block_start i) + READ_CACHE_BLOCK_BYTES"
    by linarith+
qed

lemma unat_block_end:
  assumes "a < b" and "b \<le> block_end h a"
  shows "unat (block_end h a) = min (unat (handle_length h)) (unat (block_start a) + READ_CACHE_BLOCK_BYTES)"
proof -
  have B: "unat (of_nat READ_CACHE_BLOCK_BYTES :: usize) = READ_CACHE_BLOCK_BYTES"
    by (simp add: READ_CACHE_BLOCK_BYTES_def)
  let ?s = "block_start a + of_nat READ_CACHE_BLOCK_BYTES :: usize"
  have "unat (block_start a) + READ_CACHE_BLOCK_BYTES < 2 ^ 64"
  proof (rule ccontr)
    assume "\<not> ?thesis"
    then have "unat ?s = unat (block_start a) + READ_CACHE_BLOCK_BYTES - 2 ^ 64"
      using unat_add_wrap [of "block_start a" "of_nat READ_CACHE_BLOCK_BYTES"] unfolding B by simp
    then have "unat ?s \<le> unat (block_start a)" by (simp add: READ_CACHE_BLOCK_BYTES_def)
    moreover have "unat b \<le> unat ?s"
      using assms(2) by (auto simp: block_end_def min_def word_le_nat_alt split: if_splits)
    moreover have "unat a < unat b" using assms(1) by (simp add: word_less_nat_alt)
    ultimately show False using block_start_le(1) [of a] by linarith
  qed
  then have "unat ?s = unat (block_start a) + READ_CACHE_BLOCK_BYTES"
    by (simp add: unat_add_u64 B)
  then show ?thesis by (auto simp: block_end_def min_def word_le_nat_alt)
qed

definition handle_file :: "archive_file_handle \<Rightarrow> archived_file" where
  "handle_file h = \<lparr>file_start = handle_start h, file_length = handle_length h\<rparr>"

definition handle_bytes :: "bytes \<Rightarrow> archive_file_handle \<Rightarrow> usize \<Rightarrow> usize \<Rightarrow> bytes" where
  "handle_bytes content h a b = subslice (unat (handle_start h) + unat a) (unat (handle_start h) + unat b) content"

definition block_pos :: "archive_file_handle \<Rightarrow> usize \<Rightarrow> u64" where
  "block_pos h a = handle_start h + block_start a"

definition block_request :: "archive_file_handle \<Rightarrow> usize \<Rightarrow> read_request" where
  "block_request h a = read_req (block_pos h a) (block_end h a - block_start a)"

lemma file_within:
  assumes "files_ok content F" and "handle_file h \<in> F"
  shows "unat (handle_start h) + unat (handle_length h) \<le> length content"
    and "unat (handle_start h) + unat (handle_length h) < 2 ^ 64"
  using assms by (auto simp: files_ok_def handle_file_def)

lemma absolute_pos_ok:
  assumes "files_ok content F" and "handle_file h \<in> F" and "unat i < unat (handle_length h)"
  shows "absolute_pos h i = Inr (handle_start h + i)"
    and "unat (handle_start h + i) = unat (handle_start h) + unat i"
proof -
  have lt: "unat (handle_start h) + unat i < 2 ^ 64"
    using file_within(2) [OF assms(1,2)] assms(3) by linarith
  then show "unat (handle_start h + i) = unat (handle_start h) + unat i"
    by (rule unat_add_u64)
  show "absolute_pos h i = Inr (handle_start h + i)"
    using lt by (simp add: absolute_pos_def checked_add_def)
qed

lemma direct_request:
  assumes "files_ok content F" and "handle_file h \<in> F" and "a < b" and "b \<le> handle_length h"
  shows "request_within content (read_req (handle_start h + a) (b - a))"
    and "request_bytes content (read_req (handle_start h + a) (b - a)) = handle_bytes content h a b"
proof -
  have ab: "unat a < unat b" "unat b \<le> unat (handle_length h)"
    using assms(3,4) by (simp_all add: word_less_nat_alt word_le_nat_alt)
  have pos: "unat (handle_start h + a) = unat (handle_start h) + unat a"
    using ab by (intro absolute_pos_ok [OF assms(1,2)]) simp
  have len: "unat (b - a) = unat b - unat a" using assms(3) by (simp add: unat_diff_u64)
  show "request_within content (read_req (handle_start h + a) (b - a))"
    using file_within [OF assms(1,2)] ab by (simp add: request_within_def pos len)
  show "request_bytes content (read_req (handle_start h + a) (b - a)) = handle_bytes content h a b"
    using ab by (simp add: request_bytes_def handle_bytes_def pos len)
qed

lemma block_request_ok:
  assumes ok: "files_ok content F" "handle_file h \<in> F" and ab: "a < b" "b \<le> handle_length h"
    and c: "cacheable h a b"
  shows "absolute_pos h (block_start a) = Inr (block_pos h a)"
    and "request_within content (block_request h a)"
    and "block_at content (handle_file h) (unat a div READ_CACHE_BLOCK_BYTES)
           (block_pos h a, request_bytes content (block_request h a))"
proof -
  have be: "unat (block_end h a) = min (unat (handle_length h)) (unat (block_start a) + READ_CACHE_BLOCK_BYTES)"
    using c ab(1) by (intro unat_block_end) (auto simp: cacheable_def)
  have lt: "unat (block_start a) < unat (handle_length h)" and lt': "unat (block_start a) < unat (block_end h a)"
    using ab c block_start_le(1) [of a] by (auto simp: word_less_nat_alt word_le_nat_alt cacheable_def)
  have le: "unat (block_end h a) \<le> unat (handle_length h)" using be by simp
  have pos: "unat (block_pos h a) = unat (handle_start h) + unat (block_start a)"
    using lt by (simp add: block_pos_def absolute_pos_ok [OF ok])
  show "absolute_pos h (block_start a) = Inr (block_pos h a)"
    using lt by (simp add: block_pos_def absolute_pos_ok [OF ok])
  have len: "unat (block_end h a - block_start a) = unat (block_end h a) - unat (block_start a)"
    using lt' by (intro unat_diff_u64) (simp add: word_le_nat_alt)
  show "request_within content (block_request h a)"
    using file_within [OF ok] lt' le by (simp add: request_within_def block_request_def pos len)
  have "request_bytes content (block_request h a)
      = subslice (unat (block_pos h a)) (unat (handle_start h) + unat (block_end h a)) content"
    using lt' by (simp add: request_bytes_def block_request_def pos len)
  then show "block_at content (handle_file h) (unat a div READ_CACHE_BLOCK_BYTES)
      (block_pos h a, request_bytes content (block_request h a))"
    using lt be by (simp add: block_at_def handle_file_def pos unat_block_start)
qed

text \<open>Any valid block at the position of a request serves the request.\<close>

lemma block_serves:
  assumes ok: "files_ok content F" "handle_file h \<in> F" and ab: "a < b" "b \<le> handle_length h"
    and c: "cacheable h a b" and x: "g \<in> F" "block_at content g k (block_pos h a, block)"
  shows "block_slice block (a - block_start a) (b - a) = Inr (handle_bytes content h a b)"
proof -
  note req = block_request_ok [OF ok ab c]
  have block: "block = request_bytes content (block_request h a)"
    by (rule block_at_unique [OF ok(1) x(1) ok(2) x(2) req(3)])
  have be: "unat (block_end h a) = min (unat (handle_length h)) (unat (block_start a) + READ_CACHE_BLOCK_BYTES)"
    using c ab(1) by (intro unat_block_end) (auto simp: cacheable_def)
  have pos: "unat (block_pos h a) = unat (handle_start h) + unat (block_start a)"
    using req(3) by (simp add: block_at_def handle_file_def unat_block_start)
  have ab': "unat a < unat b" "unat b \<le> unat (block_end h a)"
    using ab c by (auto simp: word_less_nat_alt word_le_nat_alt cacheable_def)
  have eq: "block = subslice (unat (handle_start h) + unat (block_start a))
      (unat (handle_start h) + unat (block_end h a)) content"
    using req(3) be by (simp add: block block_at_def handle_file_def pos unat_block_start)
  have "unat (handle_start h) + unat (block_end h a) \<le> length content"
    using file_within(1) [OF ok] be by simp
  then have len: "length block = unat (block_end h a) - unat (block_start a)" by (simp add: eq)
  have "block_start a \<le> a" using block_start_le(1) [of a] by (simp add: word_le_nat_alt)
  then have d: "unat (a - block_start a) = unat a - unat (block_start a)" "unat (b - a) = unat b - unat a"
    using ab(1) by (simp_all add: unat_diff_u64)
  have "unat (a - block_start a) + unat (b - a) \<le> length block"
    using ab' block_start_le(1) [of a] by (simp add: len d)
  then show ?thesis
    using ab' block_start_le(1) [of a]
    by (simp add: block_slice_def d handle_bytes_def) (simp add: eq subslice_subslice)
qed

section \<open>Reads as sequences of atomic steps\<close>

text \<open>
  A read of a handle takes the cache lock twice and reads the archive in between, so reads of
  several threads interleave. One read is a machine whose steps are the atomic actions of
  \<^verbatim>\<open>read_bytes\<close>: the lookup under the lock, the miss counter, the read of the block, the insertion
  under the lock, and, for ranges the cache does not serve, the direct read.
\<close>

record read_op =
  op_handle :: archive_file_handle
  op_start :: usize
  op_end :: usize

datatype read_phase =
    Lookup | Missed | Fetch | Store bytes | Direct | Finished "io_error failure + bytes"

definition slice_for :: "read_op \<Rightarrow> bytes \<Rightarrow> io_error failure + bytes" where
  "slice_for op block = block_slice block (op_start op - block_start (op_start op)) (op_end op - op_start op)"

definition lookup_step :: "read_op \<Rightarrow> 'i dir_state \<Rightarrow> 'i dir_state \<times> read_phase" where
  "lookup_step op st =
     (let h = op_handle op; a = op_start op; b = op_end op in
      if b < a \<or> handle_length h < b then (st, Finished (Inl (Fail (invalid_range h a b))))
      else if \<not> a < b then (st, Finished (Inr []))
      else if \<not> cacheable h a b then (st, Direct)
      else case absolute_pos h (block_start a) of
        Inl e \<Rightarrow> (st, Finished (Inl e))
      | Inr pos \<Rightarrow> (case cache_get pos st of
            (st', Inl e) \<Rightarrow> (st', Finished (Inl (Fail e)))
          | (st', Inr None) \<Rightarrow> (st', Missed)
          | (st', Inr (Some block)) \<Rightarrow> (st', Finished (slice_for op block))))"

definition direct_step ::
  "(read_metrics \<times> 'i) pread \<Rightarrow> read_op \<Rightarrow> 'i dir_state \<Rightarrow> 'i dir_state \<times> read_phase" where
  "direct_step R op st =
     (case absolute_pos (op_handle op) (op_start op) of
        Inl e \<Rightarrow> (st, Finished (Inl e))
      | Inr pos \<Rightarrow> (case read_direct R pos (op_end op - op_start op) st of (st', r) \<Rightarrow> (st', Finished r)))"

fun read_step ::
  "(read_metrics \<times> 'i) pread \<Rightarrow> read_op \<Rightarrow> read_phase \<Rightarrow> 'i dir_state \<Rightarrow> 'i dir_state \<times> read_phase" where
  "read_step R op Lookup st = lookup_step op st"
| "read_step R op Missed st = (cache_record_miss st, Fetch)"
| "read_step R op Fetch st =
     (case read_direct R (block_pos (op_handle op) (op_start op))
             (block_end (op_handle op) (op_start op) - block_start (op_start op)) st of
        (st', Inl e) \<Rightarrow> (st', Finished (Inl e))
      | (st', Inr block) \<Rightarrow> (st', Store block))"
| "read_step R op (Store block) st =
     (case cache_insert (block_pos (op_handle op) (op_start op)) block st of
        (st', Inl e) \<Rightarrow> (st', Finished (Inl (Fail e)))
      | (st', Inr b) \<Rightarrow> (st', Finished (slice_for op b)))"
| "read_step R op Direct st = direct_step R op st"
| "read_step R op (Finished r) st = (st, Finished r)"

fun read_run :: "(read_metrics \<times> 'i) pread \<Rightarrow> read_op \<Rightarrow> nat \<Rightarrow> read_phase \<Rightarrow> 'i dir_state
    \<Rightarrow> 'i dir_state \<times> read_phase" where
  "read_run R op 0 ph st = (st, ph)"
| "read_run R op (Suc n) ph st = (case read_step R op ph st of (st', ph') \<Rightarrow> read_run R op n ph' st')"

lemma read_run_Finished [simp]: "read_run R op n (Finished r) st = (st, Finished r)"
  by (induction n) simp_all

lemma absolute_pos_Inr: "absolute_pos h i = Inr p \<Longrightarrow> p = handle_start h + i"
  by (auto simp: absolute_pos_def res_simps checked_add_def split: if_splits)

text \<open>A read alone is the run of its machine: four steps are always enough.\<close>

lemma read_bytes_run:
  assumes "read_bytes R h a b st = (st', r)"
  shows "read_run R \<lparr>op_handle = h, op_start = a, op_end = b\<rparr> 4 Lookup st = (st', Finished r)"
proof -
  have n: "4 = Suc (Suc (Suc (Suc 0)))" by simp
  have c: "cacheable h a b \<longleftrightarrow> unat (b - a) \<le> READ_CACHE_BLOCK_BYTES \<and> \<not> block_end h a < b"
    by (auto simp: cacheable_def not_less)
  show ?thesis
    using assms unfolding n
    by (auto simp: read_bytes_def read_cached_block_def lookup_step_def direct_step_def c Let_def
        slice_for_def st_bind_split st_map_err_def block_pos_def
        split: if_splits sum.splits prod.splits option.splits dest: absolute_pos_Inr)
qed

section \<open>Interleaved reads\<close>

inductive interleave ::
  "(read_metrics \<times> 'i) pread \<Rightarrow> 'i dir_state \<times> (read_op \<times> read_phase) list
     \<Rightarrow> 'i dir_state \<times> (read_op \<times> read_phase) list \<Rightarrow> bool"
  for R where
  thread: "i < length ts \<Longrightarrow> ts ! i = (op, ph) \<Longrightarrow> (\<And>r. ph \<noteq> Finished r) \<Longrightarrow>
     read_step R op ph st = (st', ph') \<Longrightarrow> interleave R (st, ts) (st', ts[i := (op, ph')])"

inductive_cases interleaveE: "interleave R (st, ts) cfg"

text \<open>
  What holds of a thread in each phase. With \<open>live\<close> the reader does not fail and the cache
  lock is not poisoned; then a finished read of a valid range has its bytes.
\<close>

definition result_ok :: "bool \<Rightarrow> bytes \<Rightarrow> read_op \<Rightarrow> io_error failure + bytes \<Rightarrow> bool" where
  "result_ok live content op r \<longleftrightarrow>
     (let h = op_handle op; a = op_start op; b = op_end op;
          valid = (a \<le> b \<and> b \<le> handle_length h) in
      r \<noteq> Inl Panic \<and> (\<forall>bs. r = Inr bs \<longrightarrow> valid \<and> bs = handle_bytes content h a b)
      \<and> (\<not> valid \<longrightarrow> r = Inl (Fail (invalid_range h a b)))
      \<and> (live \<and> valid \<longrightarrow> r = Inr (handle_bytes content h a b)))"

definition op_valid :: "read_op \<Rightarrow> bool" where
  "op_valid op \<longleftrightarrow> op_start op < op_end op \<and> op_end op \<le> handle_length (op_handle op)"

fun phase_ok :: "bool \<Rightarrow> bytes \<Rightarrow> archived_file set \<Rightarrow> read_op \<Rightarrow> read_phase \<Rightarrow> bool" where
  "phase_ok live content F op Lookup \<longleftrightarrow> True"
| "phase_ok live content F op Direct \<longleftrightarrow> op_valid op"
| "phase_ok live content F op (Store block) \<longleftrightarrow>
     op_valid op \<and> cacheable (op_handle op) (op_start op) (op_end op)
     \<and> blocks_ok content F {(block_pos (op_handle op) (op_start op), block)}"
| "phase_ok live content F op (Finished r) \<longleftrightarrow> result_ok live content op r"
| "phase_ok live content F op _ \<longleftrightarrow>
     op_valid op \<and> cacheable (op_handle op) (op_start op) (op_end op)"

definition state_ok :: "bool \<Rightarrow> bytes \<Rightarrow> archived_file set \<Rightarrow> 'i dir_state \<Rightarrow> bool" where
  "state_ok live content F st \<longleftrightarrow>
     cache_inv st \<and> blocks_ok content F (set (ac_blocks st)) \<and> (live \<longrightarrow> \<not> ac_poisoned st)"

lemma op_validD:
  assumes "op_valid op"
  shows "op_start op < op_end op" "op_start op \<le> op_end op" "op_end op \<le> handle_length (op_handle op)"
    "\<not> op_end op < op_start op" "\<not> handle_length (op_handle op) < op_end op"
  using assms by (auto simp: op_valid_def)

lemma result_okI:
  assumes "op_valid op"
  shows "result_ok live content op (Inr (handle_bytes content (op_handle op) (op_start op) (op_end op)))"
  using assms op_validD [OF assms(1)] by (simp add: result_ok_def Let_def)

lemma result_ok_Fail:
  assumes "op_valid op" and "\<not> live"
  shows "result_ok live content op (Inl (Fail e))"
  using assms op_validD [OF assms(1)] by (simp add: result_ok_def Let_def)

lemma slice_for_ok:
  assumes "files_ok content F" and "handle_file (op_handle op) \<in> F" and "op_valid op"
    and "cacheable (op_handle op) (op_start op) (op_end op)"
    and "(block_pos (op_handle op) (op_start op), block) \<in> X" and "blocks_ok content F X"
  shows "slice_for op block = Inr (handle_bytes content (op_handle op) (op_start op) (op_end op))"
proof -
  from assms(5,6) obtain g k where "g \<in> F" "block_at content g k (block_pos (op_handle op) (op_start op), block)"
    by (auto simp: blocks_ok_def)
  then show ?thesis
    using block_serves [OF assms(1,2) _ _ assms(4)] assms(3) by (simp add: slice_for_def op_valid_def)
qed

lemma lookup_step_ok:
  assumes F: "files_ok content F" "handle_file (op_handle op) \<in> F" and st: "state_ok live content F st"
    and step: "lookup_step op st = (st', ph')"
  shows "state_ok live content F st' \<and> phase_ok live content F op ph'"
proof (cases "op_valid op \<and> cacheable (op_handle op) (op_start op) (op_end op)")
  case False
  have "handle_bytes content h a a = []" for h a by (simp add: handle_bytes_def)
  with False step st show ?thesis
    by (auto simp: lookup_step_def op_valid_def Let_def result_ok_def not_less not_le
        dest: antisym split: if_splits)
next
  case True
  let ?pos = "block_pos (op_handle op) (op_start op)"
  have pos: "absolute_pos (op_handle op) (block_start (op_start op)) = Inr ?pos"
    using True by (intro block_request_ok [OF F]) (auto simp: op_valid_def)
  obtain s r where get: "cache_get ?pos st = (s, r)" by (cases "cache_get ?pos st")
  have s: "state_ok live content F s"
    using cache_get_inv [OF get] cache_get_blocks [OF get] st by (simp add: state_ok_def)
  have found: "(?pos, block) \<in> set (ac_blocks st)" if "r = Inr (Some block)" for block
    using get that by (auto simp: cache_get_def dest: map_of_SomeD split: if_splits option.splits)
  have err: "\<not> live" if "r = Inl e" for e
    using get that st by (auto simp: cache_get_def state_ok_def split: if_splits option.splits)
  have "(st', ph') = (case r of Inl e \<Rightarrow> (s, Finished (Inl (Fail e))) | Inr None \<Rightarrow> (s, Missed)
      | Inr (Some block) \<Rightarrow> (s, Finished (slice_for op block)))"
    using step True pos get op_validD [of op]
    by (simp add: lookup_step_def Let_def split: sum.splits option.splits)
  moreover have "result_ok live content op (slice_for op block)" if "r = Inr (Some block)" for block
    using slice_for_ok [OF F _ _ found [OF that]] True st result_okI by (simp add: state_ok_def)
  ultimately show ?thesis
    using s True err result_ok_Fail by (auto split: sum.splits option.splits)
qed

context seek_read
begin

lemma metered_read_direct:
  assumes "read_direct (metered_pread pread) pos n st = (st', r)" and "state_ok live content F st"
    and "live \<Longrightarrow> total_seek_read pread content"
  shows "state_ok live content F st'"
    and "r = Inr b \<Longrightarrow> request_within content (read_req pos n) \<and> b = request_bytes content (read_req pos n)"
    and "r = Inl e \<Longrightarrow> (\<exists>io. e = Fail io) \<and> (live \<longrightarrow> \<not> request_within content (read_req pos n))"
proof -
  obtain m s where io: "ac_io st = (m, s)" by (cases "ac_io st")
  obtain s' q where p: "pread [read_req pos n] s = (s', q)" by (cases "pread [read_req pos n] s")
  have run: "st' = st\<lparr>ac_io := (record_pread [read_req pos n] m, s')\<rparr>"
    "r = map_err Fail (res_bind q (\<lambda>bufs. Inr (case bufs of [] \<Rightarrow> [] | b # _ \<Rightarrow> b)))"
    using assms(1) by (auto simp: read_direct_def metered_pread_def io p)
  show "state_ok live content F st'"
    using assms(2) io by (simp add: run state_ok_def cache_inv_def)
  show "request_within content (read_req pos n) \<and> b = request_bytes content (read_req pos n)" if "r = Inr b"
    using that p run(2) pread_one [of "read_req pos n" s s'] by (auto simp: res_simps)
  show "(\<exists>io. e = Fail io) \<and> (live \<longrightarrow> \<not> request_within content (read_req pos n))" if e: "r = Inl e"
  proof
    obtain x where q: "q = Inl x" and "e = Fail x"
      using e run(2) by (auto simp: res_simps)
    then show "\<exists>io. e = Fail io" by simp
    have "\<not> request_within content (read_req pos n)" if "total_seek_read pread content"
      using total_seek_read.pread_total [OF that, of "[read_req pos n]" s] p q by auto
    with assms(3) show "live \<longrightarrow> \<not> request_within content (read_req pos n)" by blast
  qed
qed

lemma read_step_ok:
  assumes F: "files_ok content F" "handle_file (op_handle op) \<in> F"
    and total: "live \<Longrightarrow> total_seek_read pread content"
    and st: "state_ok live content F st" and ph: "phase_ok live content F op ph"
    and step: "read_step (metered_pread pread) op ph st = (st', ph')"
  shows "state_ok live content F st' \<and> phase_ok live content F op ph'"
proof (cases ph)
  case Lookup
  with step lookup_step_ok [OF F st] show ?thesis by simp
next
  case Missed
  with step st ph show ?thesis
    by (auto simp: cache_record_miss_def upd_metrics_def state_ok_def cache_inv_def)
next
  case Fetch
  let ?h = "op_handle op" and ?a = "op_start op"
  have c: "op_valid op" "cacheable ?h ?a (op_end op)" using ph Fetch by simp_all
  obtain r where d: "read_direct (metered_pread pread) (block_pos ?h ?a) (block_end ?h ?a - block_start ?a) st
      = (st', r)" and ph': "ph' = (case r of Inl e \<Rightarrow> Finished (Inl e) | Inr b \<Rightarrow> Store b)"
    using step Fetch by (auto split: prod.splits sum.splits)
  note d_ok = metered_read_direct [OF d st total]
  note req = block_request_ok(2,3) [OF F op_validD(1,3) [OF c(1)] c(2), unfolded block_request_def]
  show ?thesis
  proof (cases r)
    case (Inl e)
    with d_ok(3) req(1) c have "result_ok live content op r" by (auto intro: result_ok_Fail)
    with d_ok(1) ph' Inl show ?thesis by simp
  next
    case (Inr b)
    with d_ok(2) req(2) F(2) have "blocks_ok content F {(block_pos ?h ?a, b)}"
      by (auto simp: blocks_ok_def)
    with d_ok(1) ph' Inr c show ?thesis by simp
  qed
next
  case (Store block)
  let ?pos = "block_pos (op_handle op) (op_start op)"
  have c: "op_valid op" "cacheable (op_handle op) (op_start op) (op_end op)" "blocks_ok content F {(?pos, block)}"
    using ph Store by simp_all
  obtain r where ins: "cache_insert ?pos block st = (st', r)"
    and ph': "ph' = (case r of Inl e \<Rightarrow> Finished (Inl (Fail e)) | Inr b \<Rightarrow> Finished (slice_for op b))"
    using step Store by (auto split: prod.splits sum.splits)
  let ?X = "insert (?pos, block) (set (ac_blocks st))"
  have X: "blocks_ok content F ?X" using c(3) st by (simp add: state_ok_def blocks_ok_def)
  have st': "state_ok live content F st'"
    using cache_insert_inv [OF ins] st X by (auto simp: state_ok_def blocks_ok_def)
  show ?thesis
  proof (cases r)
    case (Inl e)
    then have "\<not> live" using ins st
      by (auto simp: cache_insert_def state_ok_def split: if_splits option.splits prod.splits)
    with st' ph' Inl c show ?thesis by (simp add: result_ok_Fail)
  next
    case (Inr b)
    then have "(?pos, b) \<in> ?X" using cache_insert_result ins by blast
    from slice_for_ok [OF F c(1,2) this X] show ?thesis using st' ph' Inr c result_okI by simp
  qed
next
  case Direct
  have c: "op_valid op" using ph Direct by simp
  note v = op_validD [OF c]
  have pos: "absolute_pos (op_handle op) (op_start op) = Inr (handle_start (op_handle op) + op_start op)"
    using v by (intro absolute_pos_ok [OF F]) (auto simp: word_less_nat_alt word_le_nat_alt)
  obtain r where d: "read_direct (metered_pread pread) (handle_start (op_handle op) + op_start op)
      (op_end op - op_start op) st = (st', r)" and ph': "ph' = Finished r"
    using step Direct pos by (auto simp: direct_step_def split: prod.splits)
  note d_ok = metered_read_direct [OF d st total] and req = direct_request [OF F v(1,3)]
  have "result_ok live content op r"
    using d_ok(2,3) req c by (cases r) (auto intro: result_okI result_ok_Fail)
  with d_ok(1) ph' show ?thesis by simp
next
  case (Finished r)
  with step st ph show ?thesis by simp
qed

lemma interleave_ok:
  assumes F: "files_ok content F" and total: "live \<Longrightarrow> total_seek_read pread content"
    and run: "(interleave (metered_pread pread))\<^sup>*\<^sup>* (st, ts) (st', ts')"
    and init: "state_ok live content F st" "\<forall>(op, ph) \<in> set ts. handle_file (op_handle op) \<in> F \<and> phase_ok live content F op ph"
  shows "state_ok live content F st' \<and> map fst ts' = map fst ts
     \<and> (\<forall>(op, ph) \<in> set ts'. handle_file (op_handle op) \<in> F \<and> phase_ok live content F op ph)"
  using run
proof (induction rule: rtranclp_induct2)
  case refl
  then show ?case using init by auto
next
  case (step s us s' us')
  from step(2) obtain i op ph ph' where i: "i < length us" "us ! i = (op, ph)"
    and run: "read_step (metered_pread pread) op ph s = (s', ph')" and us': "us' = us[i := (op, ph')]"
    by (cases rule: interleave.cases) auto
  have "(op, ph) \<in> set us" using i by (metis nth_mem)
  with step.IH have h: "handle_file (op_handle op) \<in> F" and "phase_ok live content F op ph" by auto
  then have "state_ok live content F s'" "phase_ok live content F op ph'"
    using read_step_ok [OF F h total _ _ run] step.IH by auto
  moreover have "map fst us' = map fst us"
    using i us' by (simp add: map_update) (metis fst_conv list_update_id length_map nth_map)
  ultimately show ?case
    using step.IH h us' set_update_subset_insert [of us i "(op, ph')"] by auto
qed

end

section \<open>Files of a validated archive\<close>

definition entry_file :: "u64 \<Rightarrow> archive_file_entry \<Rightarrow> archived_file" where
  "entry_file body_start e = \<lparr>file_start = body_start + entry_offset e, file_length = entry_length e\<rparr>"

lemma map_files_Inr:
  assumes "\<forall>e \<in> set es. unat body_start + unat (entry_offset e) < 2 ^ 64"
  shows "map_files body_start mapped es
     = Inr (mapped ++ map_of (rev (map (\<lambda>e. (components (entry_name e), entry_file body_start e)) es)))"
  using assms
proof (induction es arbitrary: mapped)
  case (Cons e es)
  then show ?case by (simp add: checked_add_def entry_file_def map_add_upd_left)
qed simp

definition archive_fits :: "bytes \<Rightarrow> u64 \<Rightarrow> archive_file_entry list \<Rightarrow> bool" where
  "archive_fits content body_start es \<longleftrightarrow>
     (\<forall>e \<in> set es. unat body_start + entry_end e \<le> length content \<and> unat body_start + entry_end e < 2 ^ 64)"

lemma entry_file_end:
  assumes "archive_fits content body_start es" and "e \<in> set es"
  shows "unat (file_start (entry_file body_start e)) = unat body_start + unat (entry_offset e)"
    and "unat (file_length (entry_file body_start e)) = unat (entry_length e)"
proof -
  have "unat body_start + unat (entry_offset e) < 2 ^ 64"
    using assms by (auto simp: archive_fits_def)
  then show "unat (file_start (entry_file body_start e)) = unat body_start + unat (entry_offset e)"
    by (simp add: entry_file_def unat_add_u64)
qed (simp add: entry_file_def)

lemma files_ok_entries:
  assumes "validate_header h = Inr ()" and fits: "archive_fits content body_start (hdr_files h)"
  shows "files_ok content (entry_file body_start ` set (hdr_files h))"
proof -
  have "file_end (entry_file body_start e) \<le> unat (file_start (entry_file body_start f))
      \<or> file_end (entry_file body_start f) \<le> unat (file_start (entry_file body_start e))"
    if "e \<in> set (hdr_files h)" "f \<in> set (hdr_files h)" "e \<noteq> f" for e f
    using validate_header_disjoint [OF assms(1) that] entry_file_end [OF fits that(1)]
      entry_file_end [OF fits that(2)] by (auto simp: disjoint_entries_def)
  moreover have "file_end (entry_file body_start e) \<le> length content \<and> file_end (entry_file body_start e) < 2 ^ 64"
    if "e \<in> set (hdr_files h)" for e
    using entry_file_end [OF fits that] fits that by (auto simp: archive_fits_def)
  ultimately show ?thesis unfolding files_ok_def by blast
qed

lemma files_ok_subset: "files_ok content F \<Longrightarrow> G \<subseteq> F \<Longrightarrow> files_ok content G"
  unfolding files_ok_def by blast

definition default_io :: "'i \<Rightarrow> read_metrics \<times> 'i" where
  "default_io i = (default_metrics, i)"

lemma fresh_cache_ok: "cached_blocks (fst io) = 0 \<Longrightarrow> state_ok live content F (new_cache io)"
  by (simp add: state_ok_def new_cache_def cache_inv_def cache_shape_def blocks_ok_def)

lemma new_cache_ok: "state_ok live content F (new_cache (default_io i))"
  by (rule fresh_cache_ok) (simp add: default_io_def default_metrics_def)

lemma new_with_metrics_ok:
  assumes "archive_fits content body_start es"
  shows "new_with_metrics body_start es io
    = Inr (map_of (rev (map (\<lambda>e. (components (entry_name e), entry_file body_start e)) es)), new_cache io)"
proof -
  have "\<forall>e \<in> set es. unat body_start + unat (entry_offset e) < 2 ^ 64"
    using assms by (auto simp: archive_fits_def)
  then show ?thesis by (simp add: new_with_metrics_def map_files_Inr)
qed

lemma map_of_rev_distinct:
  assumes "distinct (map k es)" and "e \<in> set es"
  shows "map_of (rev (map (\<lambda>e. (k e, v e)) es)) (k e) = Some (v e)"
proof -
  have "distinct (map fst (rev (map (\<lambda>e. (k e, v e)) es)))"
    using assms(1) by (simp add: comp_def flip: rev_map)
  then show ?thesis using assms(2) by (intro map_of_is_SomeI) auto
qed

lemma result_ok_live:
  assumes "result_ok True content op r"
  shows "r = (if op_start op \<le> op_end op \<and> op_end op \<le> handle_length (op_handle op)
     then Inr (handle_bytes content (op_handle op) (op_start op) (op_end op))
     else Inl (Fail (invalid_range (op_handle op) (op_start op) (op_end op))))"
proof (cases "op_start op \<le> op_end op \<and> op_end op \<le> handle_length (op_handle op)")
  case True
  then show ?thesis using assms unfolding result_ok_def Let_def if_P [OF True] by blast
next
  case False
  then show ?thesis using assms unfolding result_ok_def Let_def if_not_P [OF False] by blast
qed

lemma interleave_from_start:
  assumes reader: "seek_read inner content" "live \<Longrightarrow> total_seek_read inner content"
    and header: "validate_header h = Inr ()" "archive_fits content body_start (hdr_files h)"
    and ops: "\<forall>op \<in> set ops. handle_file (op_handle op) \<in> entry_file body_start ` set (hdr_files h)"
    and run: "(interleave (metered_pread inner))\<^sup>*\<^sup>*
        (new_cache (default_io i), map (\<lambda>op. (op, Lookup)) ops) (st, ts)"
  shows "cache_inv st" and "map fst ts = ops"
    and "(op, Finished r) \<in> set ts \<Longrightarrow> result_ok live content op r"
proof -
  let ?F = "entry_file body_start ` set (hdr_files h)"
  have inv: "state_ok live content ?F st \<and> map fst ts = map fst (map (\<lambda>op. (op, Lookup)) ops)
     \<and> (\<forall>(op, ph) \<in> set ts. handle_file (op_handle op) \<in> ?F \<and> phase_ok live content ?F op ph)"
    by (rule seek_read.interleave_ok [OF reader(1) files_ok_entries [OF header] reader(2) run new_cache_ok])
      (use ops in auto)
  then show "cache_inv st" "map fst ts = ops" by (simp_all add: state_ok_def comp_def)
  show "(op, Finished r) \<in> set ts \<Longrightarrow> result_ok live content op r"
    using inv by fastforce
qed

section \<open>Properties\<close>

text \<open>
  C8. Concurrent reads are safe. Any number of threads read ranges of files of a validated
  archive through one shared cache, in any interleaving of their atomic steps, over any reader
  that keeps its contract but may fail. At every moment the cache holds at most 256 blocks, its
  queue lists exactly the cached positions once, and the gauge of cached blocks is right; a
  finished read never panicked, and if it returned bytes, these are the bytes of the archive
  at the requested range.
\<close>

theorem concurrent_reads_safe:
  assumes reader: "seek_read inner content"
    and header: "validate_header h = Inr ()" "archive_fits content body_start (hdr_files h)"
    and ops: "\<forall>op \<in> set ops. handle_file (op_handle op) \<in> entry_file body_start ` set (hdr_files h)"
    and run: "(interleave (metered_pread inner))\<^sup>*\<^sup>*
        (new_cache (default_io i), map (\<lambda>op. (op, Lookup)) ops) (st, ts)"
  shows "cache_inv st \<and> map fst ts = ops
     \<and> (\<forall>op r. (op, Finished r) \<in> set ts \<longrightarrow> result_ok False content op r)"
  using interleave_from_start [OF reader _ header ops run, of False] by auto

text \<open>
  Over a reader that serves every range within its data, concurrent reads are also
  complete: a finished read of a valid range has returned exactly its bytes, and a finished
  read of an invalid range the error that says so.
\<close>

theorem concurrent_reads_complete:
  assumes reader: "total_seek_read inner content"
    and header: "validate_header h = Inr ()" "archive_fits content body_start (hdr_files h)"
    and ops: "\<forall>op \<in> set ops. handle_file (op_handle op) \<in> entry_file body_start ` set (hdr_files h)"
    and run: "(interleave (metered_pread inner))\<^sup>*\<^sup>*
        (new_cache (default_io i), map (\<lambda>op. (op, Lookup)) ops) (st, ts)"
    and finished: "(op, Finished r) \<in> set ts"
  shows "r = (if op_start op \<le> op_end op \<and> op_end op \<le> handle_length (op_handle op)
     then Inr (handle_bytes content (op_handle op) (op_start op) (op_end op))
     else Inl (Fail (invalid_range (op_handle op) (op_start op) (op_end op))))"
proof -
  have "seek_read inner content" using reader by (rule total_seek_read.axioms)
  from interleave_from_start(3) [OF this reader header ops run finished]
  show ?thesis by (rule result_ok_live)
qed

fun phase_rank :: "read_phase \<Rightarrow> nat" where
  "phase_rank Lookup = 4"
| "phase_rank Missed = 3"
| "phase_rank Fetch = 2"
| "phase_rank (Store _) = 1"
| "phase_rank Direct = 1"
| "phase_rank (Finished _) = 0"

lemma read_step_rank:
  assumes "read_step R op ph st = (st', ph')" and "\<And>r. ph \<noteq> Finished r"
  shows "phase_rank ph' < phase_rank ph"
  using assms
  by (cases ph) (auto simp: lookup_step_def direct_step_def Let_def
      split: if_splits sum.splits prod.splits option.splits)

fun run_schedule ::
  "(read_metrics \<times> 'i) pread \<Rightarrow> nat list \<Rightarrow> 'i dir_state \<times> (read_op \<times> read_phase) list
     \<Rightarrow> 'i dir_state \<times> (read_op \<times> read_phase) list" where
  "run_schedule R [] cfg = cfg"
| "run_schedule R (i # sched) (st, ts) =
     (if i < length ts then
        (case read_step R (fst (ts ! i)) (snd (ts ! i)) st of
           (st', ph') \<Rightarrow> run_schedule R sched (st', ts[i := (fst (ts ! i), ph')]))
      else run_schedule R sched (st, ts))"

lemma run_schedule_interleave: "(interleave R)\<^sup>*\<^sup>* cfg (run_schedule R sched cfg)"
proof (induction R sched cfg rule: run_schedule.induct)
  case (2 R i sched st ts)
  show ?case
  proof (cases "i < length ts")
    case True
    obtain op ph where ts: "ts ! i = (op, ph)" by (cases "ts ! i")
    obtain st' ph' where step: "read_step R op ph st = (st', ph')" by (cases "read_step R op ph st")
    have "(interleave R)\<^sup>*\<^sup>* (st, ts) (st', ts[i := (op, ph')])"
    proof (cases "\<exists>r. ph = Finished r")
      case True
      with step ts have "st' = st" "ts[i := (op, ph')] = ts" by (auto simp: list_update_same_conv \<open>i < length ts\<close>)
      then show ?thesis by simp
    next
      case False
      then show ?thesis using interleave.thread [OF True ts _ step] by blast
    qed
    with 2(1) [OF True] step ts True show ?thesis by (simp add: rtranclp_trans)
  qed (use 2(2) in simp)
qed simp

lemma turns_rank:
  "run_schedule R sched (st, ts) = (st', ts') \<Longrightarrow> k < length ts \<Longrightarrow>
     k < length ts' \<and> phase_rank (snd (ts' ! k)) \<le> phase_rank (snd (ts ! k)) - count_list sched k"
proof (induction R sched "(st, ts)" arbitrary: st ts rule: run_schedule.induct)
  case (2 R i sched st ts)
  show ?case
  proof (cases "i < length ts")
    case True
    obtain st1 ph where step: "read_step R (fst (ts ! i)) (snd (ts ! i)) st = (st1, ph)" by fastforce
    have rank: "phase_rank ph \<le> phase_rank (snd (ts ! i)) - 1"
    proof (cases "\<exists>r. snd (ts ! i) = Finished r")
      case True
      then obtain r where r: "snd (ts ! i) = Finished r" by blast
      with step have "ph = Finished r" by simp
      with r show ?thesis by simp
    next
      case False
      with read_step_rank [OF step] show ?thesis by fastforce
    qed
    from 2(1) [OF True step [symmetric]] 2(3,4) step True
    have "k < length ts' \<and> phase_rank (snd (ts' ! k))
        \<le> phase_rank (snd (ts[i := (fst (ts ! i), ph)] ! k)) - count_list sched k" by simp
    with rank 2(4) show ?thesis by (cases "k = i") auto
  next
    case False
    with 2(2) [OF False] 2(3,4) show ?thesis by auto
  qed
qed simp

text \<open>
  C9. Every concurrent read finishes, and with the right result. However the scheduler
  distributes the turns among the threads, a thread that has had four turns is done, whatever the
  others do and however slow they are: over a reader that serves every range within its data it
  then holds exactly the requested bytes, or the error for an invalid range.
\<close>

theorem reads_finish:
  assumes reader: "total_seek_read inner content"
    and header: "validate_header h = Inr ()" "archive_fits content body_start (hdr_files h)"
    and ops: "\<forall>op \<in> set ops. handle_file (op_handle op) \<in> entry_file body_start ` set (hdr_files h)"
    and run: "run_schedule (metered_pread inner) sched
        (new_cache (default_io i), map (\<lambda>op. (op, Lookup)) ops) = (st, ts)"
    and turns: "k < length ops" "4 \<le> count_list sched k"
    and op: "op = ops ! k"
  shows "ts ! k = (op, Finished (if op_start op \<le> op_end op \<and> op_end op \<le> handle_length (op_handle op)
     then Inr (handle_bytes content (op_handle op) (op_start op) (op_end op))
     else Inl (Fail (invalid_range (op_handle op) (op_start op) (op_end op)))))"
proof -
  let ?cfg = "(new_cache (default_io i), map (\<lambda>op. (op, Lookup)) ops)"
  have k: "k < length ts \<and> phase_rank (snd (ts ! k)) \<le> phase_rank (snd (map (\<lambda>op. (op, Lookup)) ops ! k)) - count_list sched k"
    using turns_rank [OF run, of k] turns(1) by simp
  then have "phase_rank (snd (ts ! k)) = 0" using turns by simp
  then obtain r where r: "snd (ts ! k) = Finished r" by (cases "snd (ts ! k)") simp_all
  have steps: "(interleave (metered_pread inner))\<^sup>*\<^sup>* ?cfg (st, ts)"
    using run_schedule_interleave [of "metered_pread inner" ?cfg sched] run by simp
  have sr: "seek_read inner content" using reader by (rule total_seek_read.axioms)
  note start = interleave_from_start [OF sr reader header ops steps]
  have "fst (ts ! k) = op" using start(2) k op by (metis nth_map)
  then have eq: "ts ! k = (op, Finished r)" using r by (metis prod.collapse)
  then have "(op, Finished r) \<in> set ts" using k by (metis nth_mem)
  from result_ok_live [OF start(3) [OF this]] eq show ?thesis by simp
qed

definition example_file :: archive_file_handle where
  "example_file = \<lparr>handle_path = ''meta.json'', handle_start = 0, handle_length = 3\<rparr>"

definition example_ops :: "read_op list" where
  "example_ops = [\<lparr>op_handle = example_file, op_start = 0, op_end = 3\<rparr>,
                  \<lparr>op_handle = example_file, op_start = 1, op_end = 2\<rparr>]"

definition example_body :: bytes where
  "example_body = [123, 32, 125, 7, 8]"

lemma small_block:
  assumes "unat a < 65536"
  shows "block_start a = 0" and "unat (handle_length h) < 65536 \<Longrightarrow> block_end h a = handle_length h"
proof -
  have "unat (block_start a) = 0"
    using assms by (simp add: unat_block_start READ_CACHE_BLOCK_BYTES_def)
  then show s: "block_start a = 0" by (simp add: unat_eq_zero)
  show "block_end h a = handle_length h" if "unat (handle_length h) < 65536"
    using that by (simp add: block_end_def s READ_CACHE_BLOCK_BYTES_def min_def word_le_nat_alt)
qed

lemmas cache_eval = lookup_step_def Let_def cacheable_def absolute_pos_def small_block READ_CACHE_BLOCK_BYTES_def
  READ_CACHE_MAX_BLOCKS_def cache_get_def new_cache_def default_io_def checked_add_def cache_record_miss_def
  upd_metrics_def read_direct_def metered_pread_def slice_pread_def slice_read_one_def subslice_def
  cache_insert_def slice_for_def block_slice_def block_pos_def

lemma example_schedule:
  "\<exists>st. run_schedule (metered_pread (slice_pread \<lparr>slice_data = example_body\<rparr>)) [0, 1, 1, 0, 0, 1, 0, 1]
     (new_cache (default_io ()), map (\<lambda>op. (op, Lookup)) example_ops)
   = (st, [(example_ops ! 0, Finished (Inr [123, 32, 125])), (example_ops ! 1, Finished (Inr [32]))])
   \<and> ac_order st = [0]"
  by (simp add: example_ops_def example_file_def example_body_def cache_eval)

lemma example_archive:
  "archive_fits example_body 0 (hdr_files example_header)"
  "\<forall>op \<in> set example_ops. handle_file (op_handle op) \<in> entry_file 0 ` set (hdr_files example_header)"
  by (simp_all add: archive_fits_def example_header_def example_body_def example_ops_def example_file_def
      handle_file_def entry_file_def)

lemma example_run:
  obtains st where "(interleave (metered_pread (slice_pread \<lparr>slice_data = example_body\<rparr>)))\<^sup>*\<^sup>*
      (new_cache (default_io ()), map (\<lambda>op. (op, Lookup)) example_ops)
      (st, [(example_ops ! 0, Finished (Inr [123, 32, 125])), (example_ops ! 1, Finished (Inr [32]))])"
  using example_schedule run_schedule_interleave by metis

lemma example_slice_reader:
  "total_seek_read (slice_pread \<lparr>slice_data = example_body\<rparr>) example_body"
  using slice_rd.total_seek_read_axioms [of "\<lparr>slice_data = example_body\<rparr>"] by simp

theorem concurrent_reads_safe_witness:
  "\<exists>st. cache_inv st \<and> (interleave (metered_pread (slice_pread \<lparr>slice_data = example_body\<rparr>)))\<^sup>*\<^sup>*
      (new_cache (default_io ()), map (\<lambda>op. (op, Lookup)) example_ops)
      (st, [(example_ops ! 0, Finished (Inr [123, 32, 125])), (example_ops ! 1, Finished (Inr [32]))])"
proof -
  obtain st where run: "(interleave (metered_pread (slice_pread \<lparr>slice_data = example_body\<rparr>)))\<^sup>*\<^sup>*
      (new_cache (default_io ()), map (\<lambda>op. (op, Lookup)) example_ops)
      (st, [(example_ops ! 0, Finished (Inr [123, 32, 125])), (example_ops ! 1, Finished (Inr [32]))])"
    by (rule example_run)
  with concurrent_reads_safe [OF total_seek_read.axioms(1) [OF example_slice_reader]
      example_header_valid(2) example_archive run]
  show ?thesis by blast
qed

theorem concurrent_reads_complete_witness:
  "(Inr [32] :: io_error failure + bytes) = Inr (handle_bytes example_body example_file 1 2)"
proof -
  obtain st where run: "(interleave (metered_pread (slice_pread \<lparr>slice_data = example_body\<rparr>)))\<^sup>*\<^sup>*
      (new_cache (default_io ()), map (\<lambda>op. (op, Lookup)) example_ops)
      (st, [(example_ops ! 0, Finished (Inr [123, 32, 125])), (example_ops ! 1, Finished (Inr [32]))])"
    by (rule example_run)
  from concurrent_reads_complete [OF example_slice_reader example_header_valid(2) example_archive run,
      of "example_ops ! 1" "Inr [32]"]
  show ?thesis by (simp add: example_ops_def example_file_def)
qed

theorem reads_finish_witness:
  "\<exists>st ts. run_schedule (metered_pread (slice_pread \<lparr>slice_data = example_body\<rparr>)) [1, 1, 0, 1, 1]
      (new_cache (default_io ()), map (\<lambda>op. (op, Lookup)) example_ops) = (st, ts)
     \<and> ts ! 1 = (example_ops ! 1, Finished (Inr (handle_bytes example_body example_file 1 2)))"
proof -
  obtain st ts where run: "run_schedule (metered_pread (slice_pread \<lparr>slice_data = example_body\<rparr>)) [1, 1, 0, 1, 1]
      (new_cache (default_io ()), map (\<lambda>op. (op, Lookup)) example_ops) = (st, ts)" by fastforce
  have "1 < length example_ops" "4 \<le> count_list [1, 1, 0, 1, 1] (1 :: nat)" by (simp_all add: example_ops_def)
  from reads_finish [OF example_slice_reader example_header_valid(2) example_archive run this refl] run
  show ?thesis by (simp add: example_ops_def example_file_def)
qed

lemma read_run_ok:
  assumes "total_seek_read inner content" and F: "files_ok content F" "handle_file (op_handle op) \<in> F"
    and "state_ok True content F st" and "phase_ok True content F op ph"
    and "read_run (metered_pread inner) op n ph st = (st', ph')"
  shows "state_ok True content F st' \<and> phase_ok True content F op ph'"
  using assms(4-)
proof (induction n arbitrary: ph st)
  case (Suc n)
  obtain s p where step: "read_step (metered_pread inner) op ph st = (s, p)"
    by (cases "read_step (metered_pread inner) op ph st")
  have "state_ok True content F s \<and> phase_ok True content F op p"
    by (rule seek_read.read_step_ok [OF total_seek_read.axioms(1) [OF assms(1)] F assms(1) Suc.prems(1,2) step])
  with Suc step show ?case by auto
qed auto

lemma read_bytes_ok:
  assumes "total_seek_read inner content" and "files_ok content F" "handle_file h \<in> F"
    and "state_ok True content F st" and run: "read_bytes (metered_pread inner) h a b st = (st', r)"
  shows "state_ok True content F st' \<and> r = (if a \<le> b \<and> b \<le> handle_length h
     then Inr (handle_bytes content h a b) else Inl (Fail (invalid_range h a b)))"
proof -
  let ?op = "\<lparr>op_handle = h, op_start = a, op_end = b\<rparr>"
  have "state_ok True content F st' \<and> phase_ok True content F ?op (Finished r)"
    by (rule read_run_ok [OF assms(1,2) _ assms(4) _ read_bytes_run [OF run]]) (simp_all add: assms(3))
  with result_ok_live [of content ?op r] show ?thesis by simp
qed

text \<open>
  C5. The cache is transparent. Over a reader that serves every range within its data, from any
  state in which the invariant holds, a read of a file handle returns exactly the requested
  bytes of the archive or, for an invalid range, the error, and keeps the invariant: reading
  through the cache is reading the archive.
\<close>

theorem read_bytes_transparent:
  assumes "total_seek_read inner content" and "files_ok content F" "handle_file h \<in> F"
    and "state_ok True content F st"
  shows "\<exists>st'. read_bytes (metered_pread inner) h a b st =
      (st', if a \<le> b \<and> b \<le> handle_length h then Inr (handle_bytes content h a b)
            else Inl (Fail (invalid_range h a b)))
    \<and> state_ok True content F st'"
proof -
  obtain st' r where run: "read_bytes (metered_pread inner) h a b st = (st', r)"
    by (cases "read_bytes (metered_pread inner) h a b st")
  note ok = read_bytes_ok [OF assms run]
  show ?thesis using run conjunct1 [OF ok] unfolding conjunct2 [OF ok] by blast
qed

theorem read_bytes_transparent_witness:
  "\<exists>st'. read_bytes (metered_pread (slice_pread \<lparr>slice_data = example_body\<rparr>)) example_file 1 3
      (new_cache (default_io ())) = (st', Inr [32, 125])
    \<and> state_ok True example_body (entry_file 0 ` set (hdr_files example_header)) st'"
  using read_bytes_transparent [OF example_slice_reader files_ok_entries [OF example_header_valid(2) example_archive(1)]
      _ new_cache_ok, of example_file 1 3] example_archive(2)
  by (simp add: example_ops_def handle_bytes_def example_file_def subslice_def example_body_def)

lemma update_lookup: "map_of (AList.update k v xs) k = Some v"
  by (simp add: update_conv)

lemma cache_insert_cached:
  "cache_insert pos block st = (st', Inr b) \<Longrightarrow> map_of (ac_blocks st') pos = Some b"
  by (auto simp: cache_insert_def update_lookup split: if_splits option.splits prod.splits)

lemma read_cached:
  assumes "read_bytes R h a b st = (st', Inr bs)" and "a < b" and "cacheable h a b"
  shows "map_of (ac_blocks st') (block_pos h a) \<noteq> None"
proof -
  have c: "unat (b - a) \<le> READ_CACHE_BLOCK_BYTES" "\<not> block_end h a < b"
    using assms(3) by (auto simp: cacheable_def)
  have v: "\<not> b < a" using assms(2) by simp
  obtain pos where "absolute_pos h (block_start a) = Inr pos" and pos: "pos = block_pos h a"
    using assms v c
    by (cases "absolute_pos h (block_start a)")
      (auto simp: read_bytes_def read_cached_block_def block_pos_def dest: absolute_pos_Inr split: if_splits)
  then have body: "read_cached_block R h a b = st_bind (st_map_err Fail (cache_get (block_pos h a))) (\<lambda>found.
      st_bind (case found of Some block \<Rightarrow> st_lift (Inr block)
         | None \<Rightarrow> (\<lambda>st. st_bind (read_direct R (block_pos h a) (block_end h a - block_start a))
              (\<lambda>block. st_map_err Fail (cache_insert (block_pos h a) block)) (cache_record_miss st)))
      (\<lambda>block. st_bind (st_lift (block_slice block (a - block_start a) (b - a))) (\<lambda>bytes. st_lift (Inr (Some bytes)))))"
    using c by (simp add: read_cached_block_def)
  obtain w cached where rc: "read_cached_block R h a b st = (w, Inr cached)"
    and k: "(case cached of Some bytes \<Rightarrow> st_lift (Inr bytes)
        | None \<Rightarrow> st_bind (st_lift (absolute_pos h a)) (\<lambda>pos. read_direct R pos (b - a))) w = (st', Inr bs)"
    using assms(1,2) v unfolding read_bytes_def by (auto simp: st_bind_Inr split: if_splits)
  obtain u found block x where get: "cache_get (block_pos h a) st = (u, Inr found)"
    and load: "(case found of Some block \<Rightarrow> st_lift (Inr block)
         | None \<Rightarrow> (\<lambda>st. st_bind (read_direct R (block_pos h a) (block_end h a - block_start a))
              (\<lambda>block. st_map_err Fail (cache_insert (block_pos h a) block)) (cache_record_miss st))) u
      = (w, Inr block)" and "cached = Some x"
    using rc unfolding body st_bind_Inr st_map_err_Inr st_lift_apply by (elim exE conjE) (simp, blast)
  with k have "w = st'" by simp
  show ?thesis
  proof (cases found)
    case None
    with load \<open>w = st'\<close> show ?thesis by (auto simp: res_simps dest: cache_insert_cached)
  next
    case (Some x)
    with load get \<open>w = st'\<close> show ?thesis
      by (auto simp: cache_get_def upd_metrics_def split: if_splits option.splits)
  qed
qed

lemma read_hit:
  assumes "state_ok True content F st" and F: "files_ok content F" "handle_file h \<in> F"
    and ab: "a < b" "b \<le> handle_length h" "cacheable h a b"
    and hit: "map_of (ac_blocks st) (block_pos h a) = Some block"
  shows "read_bytes R h a b st = (upd_metrics record_cache_hit st, Inr (handle_bytes content h a b))"
proof -
  have c: "unat (b - a) \<le> READ_CACHE_BLOCK_BYTES" "\<not> block_end h a < b" "\<not> b < a" "\<not> handle_length h < b"
    using ab by (auto simp: cacheable_def)
  have "(block_pos h a, block) \<in> set (ac_blocks st)" using hit by (rule map_of_SomeD)
  then have "block_slice block (a - block_start a) (b - a) = Inr (handle_bytes content h a b)"
    using assms(1) block_serves [OF F ab] by (fastforce simp: state_ok_def blocks_ok_def)
  then show ?thesis
    using c ab(1) hit block_request_ok(1) [OF F ab] assms(1)
    by (simp add: read_bytes_def read_cached_block_def cache_get_def st_map_err_def state_ok_def)
qed

section \<open>First in, first out\<close>

text \<open>A sequence of reads, and the blocks that its valid cacheable reads ask the cache for.\<close>

fun run_reads ::
  "(read_metrics \<times> 'i) pread \<Rightarrow> (archive_file_handle \<times> usize \<times> usize) list \<Rightarrow> 'i dir_state \<Rightarrow> 'i dir_state" where
  "run_reads R [] st = st"
| "run_reads R ((h, a, b) # rs) st = run_reads R rs (fst (read_bytes R h a b st))"

definition requested_blocks :: "(archive_file_handle \<times> usize \<times> usize) list \<Rightarrow> u64 set" where
  "requested_blocks rs = (\<lambda>(h, a, b). block_pos h a)
     ` {(h, a, b) \<in> set rs. a < b \<and> b \<le> handle_length h \<and> cacheable h a b}"

lemma requested_blocks_iff:
  "q \<in> requested_blocks rs \<longleftrightarrow>
     (\<exists>h a b. (h, a, b) \<in> set rs \<and> a < b \<and> b \<le> handle_length h \<and> cacheable h a b \<and> q = block_pos h a)"
  by (force simp: requested_blocks_def)

text \<open>A block stays in the queue while those behind it leave room for it.\<close>

lemma evict_keeps:
  assumes "evict blocks (pre @ p # suf) m = (bs, order, m')" and "cache_shape blocks (pre @ p # suf) m"
    and "Suc (length suf) < READ_CACHE_MAX_BLOCKS"
  shows "\<exists>pre'. order = pre' @ p # suf"
  using assms
proof (induction pre arbitrary: blocks m)
  case Nil
  then have "length blocks < READ_CACHE_MAX_BLOCKS" using cache_shape_length [OF Nil(2)] by simp
  with Nil.prems show ?case by auto
next
  case (Cons e pre)
  show ?case
  proof (cases "READ_CACHE_MAX_BLOCKS \<le> length blocks")
    case True
    then show ?thesis using Cons.IH Cons.prems evict_one_shape [of blocks e "pre @ p # suf" m] by simp
  next
    case False
    with Cons.prems have "order = (e # pre) @ p # suf" by simp
    then show ?thesis by (rule exI)
  qed
qed

definition queued_before :: "u64 \<Rightarrow> u64 set \<Rightarrow> 'i dir_state \<Rightarrow> bool" where
  "queued_before p D st \<longleftrightarrow> (\<exists>pre suf. ac_order st = pre @ p # suf \<and> set suf \<subseteq> D - {p})"

lemma insert_queued:
  assumes ins: "cache_insert q block st = (st', Inr b)" and inv: "cache_inv st" and p: "queued_before p D st"
    and D: "q \<in> D" "finite D" "card (D - {p}) < READ_CACHE_MAX_BLOCKS"
  shows "queued_before p D st'"
proof (cases "map_of (ac_blocks st) q")
  case (Some x)
  with ins p show ?thesis by (auto simp: cache_insert_def queued_before_def split: if_splits)
next
  case None
  obtain pre suf where order: "ac_order st = pre @ p # suf" and suf: "set suf \<subseteq> D - {p}"
    using p by (auto simp: queued_before_def)
  obtain bs os m where ev: "evict (ac_blocks st) (ac_order st) (fst (ac_io st)) = (bs, os, m)" by (metis prod_cases3)
  have shape: "cache_shape (ac_blocks st) (pre @ p # suf) (fst (ac_io st))" using inv by (simp add: cache_inv_def order)
  have "q \<notin> set (pre @ p # suf)"
    using None shape by (auto simp: cache_shape_def map_of_eq_None_iff)
  then have "insert q (set suf) \<subseteq> D - {p}" "q \<notin> set suf" using suf D(1) by auto
  moreover have "card (insert q (set suf)) \<le> card (D - {p})" using calculation(1) D(2) by (simp add: card_mono)
  moreover have "distinct suf" using shape by (simp add: cache_shape_def)
  ultimately have "Suc (length suf) < READ_CACHE_MAX_BLOCKS"
    using D(3) distinct_card [of suf] by simp
  from evict_keeps [OF ev [unfolded order] shape this] obtain pre' where "os = pre' @ p # suf" by blast
  with ins None ev have "ac_order st' = pre' @ p # (suf @ [q])" by (auto simp: cache_insert_def split: if_splits)
  with \<open>insert q (set suf) \<subseteq> D - {p}\<close> show ?thesis
    unfolding queued_before_def by (intro exI conjI) auto
qed

lemma read_step_queue:
  assumes "read_step R op ph st = (st', ph')" and "\<And>block. ph \<noteq> Store block"
  shows "ac_order st' = ac_order st \<and> ac_blocks st' = ac_blocks st"
  using assms
  by (cases ph) (auto simp: lookup_step_def direct_step_def read_direct_def cache_get_def cache_record_miss_def upd_metrics_def Let_def
      split: if_splits sum.splits prod.splits option.splits)

lemma read_step_queued:
  assumes step: "read_step R op ph st = (st', ph')" and inv: "cache_inv st" and p: "queued_before p D st"
    and D: "\<And>block. ph = Store block \<Longrightarrow> block_pos (op_handle op) (op_start op) \<in> D" "finite D" "card (D - {p}) < READ_CACHE_MAX_BLOCKS"
  shows "queued_before p D st'"
proof (cases "\<exists>block. ph = Store block")
  case True
  then obtain block where ph: "ph = Store block" ..
  obtain s r where ins: "cache_insert (block_pos (op_handle op) (op_start op)) block st = (s, r)"
    by (cases "cache_insert (block_pos (op_handle op) (op_start op)) block st")
  have s: "s = st'" using step ins by (auto simp: ph split: sum.splits)
  show ?thesis
  proof (cases r)
    case (Inl e)
    with ins p show ?thesis by (auto simp: s cache_insert_def split: if_splits option.splits prod.splits)
  next
    case (Inr b)
    then show ?thesis using insert_queued [OF _ inv p D(1) [OF ph] D(2,3)] ins by (simp add: s)
  qed
next
  case False
  then show ?thesis using read_step_queue [OF step] p by (auto simp: queued_before_def)
qed

lemma read_run_queued:
  assumes reader: "total_seek_read inner content" and F: "files_ok content F" "handle_file (op_handle op) \<in> F"
    and D: "op_valid op \<and> cacheable (op_handle op) (op_start op) (op_end op) \<Longrightarrow> block_pos (op_handle op) (op_start op) \<in> D"
      "finite D" "card (D - {p}) < READ_CACHE_MAX_BLOCKS"
    and "state_ok True content F st" and "phase_ok True content F op ph" and "queued_before p D st"
    and "read_run (metered_pread inner) op n ph st = (st', ph')"
  shows "queued_before p D st'"
  using assms(7-)
proof (induction n arbitrary: ph st)
  case (Suc n)
  obtain s q where step: "read_step (metered_pread inner) op ph st = (s, q)"
    by (cases "read_step (metered_pread inner) op ph st")
  have ok: "state_ok True content F s \<and> phase_ok True content F op q"
    by (rule seek_read.read_step_ok [OF total_seek_read.axioms(1) [OF reader] F reader Suc.prems(1,2) step])
  have "queued_before p D s"
    using Suc.prems(1,2) by (intro read_step_queued [OF step _ Suc.prems(3) D(1) D(2,3)]) (auto simp: state_ok_def)
  with Suc step ok show ?case by auto
qed simp

lemma run_reads_queued:
  assumes reader: "total_seek_read inner content" and F: "files_ok content F" "\<forall>(h, a, b) \<in> set rs. handle_file h \<in> F"
    and D: "requested_blocks rs \<subseteq> D" "finite D" "card (D - {p}) < READ_CACHE_MAX_BLOCKS"
    and "state_ok True content F st" and "queued_before p D st"
  shows "state_ok True content F (run_reads (metered_pread inner) rs st) \<and> queued_before p D (run_reads (metered_pread inner) rs st)"
  using F(2) D(1) assms(7,8)
proof (induction rs arbitrary: st)
  case (Cons x rs)
  obtain h a b where x: "x = (h, a, b)" by (cases x)
  obtain s r where run: "read_bytes (metered_pread inner) h a b st = (s, r)" by (cases "read_bytes (metered_pread inner) h a b st")
  have h: "handle_file h \<in> F" using Cons.prems(1) by (simp add: x)
  have "block_pos h a \<in> D" if "a < b \<and> b \<le> handle_length h \<and> cacheable h a b"
    using that Cons.prems(2) by (force simp: requested_blocks_iff x)
  then have "queued_before p D s"
    using h Cons.prems(3,4)
    by (intro read_run_queued [OF reader F(1) _ _ D(2,3) _ _ _ read_bytes_run [OF run]]) (auto simp: op_valid_def)
  moreover have "state_ok True content F s" using read_bytes_ok [OF reader F(1) h Cons.prems(3) run] ..
  moreover have "requested_blocks rs \<subseteq> D" using Cons.prems(2) by (force simp: requested_blocks_iff x)
  ultimately show ?case using Cons.IH Cons.prems(1) run by (simp add: x)
qed simp

text \<open>A block that was not in the cache is the last of the queue when a read has brought it in.\<close>

lemma read_step_fetched:
  assumes step: "read_step R op ph st = (st', ph')" and p: "p = block_pos (op_handle op) (op_start op)"
    and "map_of (ac_blocks st) p = None \<or> queued_before p {} st"
  shows "map_of (ac_blocks st') p = None \<or> queued_before p {} st'"
proof (cases "\<exists>block. ph = Store block")
  case True
  then show ?thesis
    using step assms(3) unfolding p
    by (auto simp: cache_insert_def queued_before_def split: if_splits option.splits prod.splits)
next
  case False
  then show ?thesis using read_step_queue [OF step] assms(3) by (auto simp: queued_before_def)
qed

lemma read_fetched:
  assumes run: "read_bytes R h a b st = (st', Inr bs)" and ab: "a < b" "cacheable h a b"
    and new: "map_of (ac_blocks st) (block_pos h a) = None"
  shows "queued_before (block_pos h a) {} st'"
proof -
  let ?op = "\<lparr>op_handle = h, op_start = a, op_end = b\<rparr>"
  have "map_of (ac_blocks s') (block_pos h a) = None \<or> queued_before (block_pos h a) {} s'"
    if "read_run R ?op n ph s = (s', ph')" "map_of (ac_blocks s) (block_pos h a) = None \<or> queued_before (block_pos h a) {} s"
    for n ph s s' ph'
    using that
  proof (induction n arbitrary: ph s)
    case (Suc n)
    then show ?case using read_step_fetched [of R ?op ph s] by (auto split: prod.splits)
  qed simp
  from this [OF read_bytes_run [OF run]] new read_cached [OF run ab] show ?thesis by blast
qed

text \<open>
  C24. The cache keeps a block while 255 others come in, oldest first out: when a read has fetched a block
  that was not in the cache, then after any further sequence of reads, valid or not, of any files,
  that ask the cache for fewer than 256 other blocks, every cacheable read in the same block of the
  file is served from the cache with the right bytes, for any reader, and changes nothing but
  the hit counter.
\<close>

theorem fetched_block_stays:
  assumes reader: "total_seek_read inner content" and F: "files_ok content F" "handle_file h \<in> F"
    and st: "state_ok True content F st" "map_of (ac_blocks st) (block_pos h a) = None"
    and first: "a < b" "b \<le> handle_length h" "cacheable h a b"
    and others: "\<forall>(k, _, _) \<in> set rs. handle_file k \<in> F"
      "card (requested_blocks rs - {block_pos h a}) < READ_CACHE_MAX_BLOCKS"
    and again: "c < d" "d \<le> handle_length h" "cacheable h c d" "block_start c = block_start a"
  shows "\<exists>st' u. read_bytes (metered_pread inner) h a b st = (st', Inr (handle_bytes content h a b))
    \<and> run_reads (metered_pread inner) rs st' = u
    \<and> read_bytes R h c d u = (upd_metrics record_cache_hit u, Inr (handle_bytes content h c d))"
proof -
  let ?p = "block_pos h a" and ?D = "requested_blocks rs"
  obtain st' r where run: "read_bytes (metered_pread inner) h a b st = (st', r)" by (cases "read_bytes (metered_pread inner) h a b st")
  have r: "r = Inr (handle_bytes content h a b)" and st': "state_ok True content F st'"
    using read_bytes_ok [OF reader F st(1) run] first(1,2) by auto
  have "queued_before ?p {} st'" using read_fetched [OF run [unfolded r] first(1,3) st(2)] .
  then have queued: "queued_before ?p ?D st'" by (fastforce simp: queued_before_def)
  let ?u = "run_reads (metered_pread inner) rs st'"
  have "finite ?D" by (auto simp: requested_blocks_def)
  then have u: "state_ok True content F ?u" "queued_before ?p ?D ?u"
    using run_reads_queued [OF reader F(1) _ _ _ others(2) st' queued] others(1) by auto
  have "?p \<in> fst ` set (ac_blocks ?u)"
    using u by (auto simp: queued_before_def state_ok_def cache_inv_def cache_shape_def)
  then obtain block where "map_of (ac_blocks ?u) (block_pos h c) = Some block"
    using again(4) by (metis block_pos_def map_of_eq_None_iff option.exhaust)
  from read_hit [OF u(1) F again(1-3) this] run r show ?thesis by blast
qed

text \<open>The header block of the example is fetched; two reads of the other file come between, and an invalid one.\<close>

definition example_other_file :: archive_file_handle where
  "example_other_file = \<lparr>handle_path = ''seg.idx'', handle_start = 3, handle_length = 2\<rparr>"

definition example_reads :: "(archive_file_handle \<times> usize \<times> usize) list" where
  "example_reads = [(example_other_file, 0, 2), (example_other_file, 1, 2), (example_file, 2, 9)]"

lemma card_requested: "card (requested_blocks rs - X) \<le> length rs"
proof -
  have "requested_blocks rs - X \<subseteq> (\<lambda>(h, a, b). block_pos h a) ` set rs" by (force simp: requested_blocks_iff)
  then have "card (requested_blocks rs - X) \<le> card ((\<lambda>(h, a, b). block_pos h a) ` set rs)"
    by (rule card_mono [OF finite_imageI [OF finite_set]])
  also have "\<dots> \<le> length rs" using card_image_le [OF finite_set] card_length by (rule le_trans)
  finally show ?thesis .
qed

theorem fetched_block_stays_witness:
  "\<exists>st' u. read_bytes (metered_pread (slice_pread \<lparr>slice_data = example_body\<rparr>)) example_file 0 3
      (new_cache (default_io ())) = (st', Inr [123, 32, 125])
    \<and> run_reads (metered_pread (slice_pread \<lparr>slice_data = example_body\<rparr>)) example_reads st' = u
    \<and> read_bytes (\<lambda>_. st_lift (Inl (IoError OtherKind []))) example_file 1 2 u
      = (upd_metrics record_cache_hit u, Inr [32])"
proof -
  let ?F = "entry_file 0 ` set (hdr_files example_header)"
  have F: "files_ok example_body ?F" "handle_file example_file \<in> ?F"
    using files_ok_entries [OF example_header_valid(2) example_archive(1)] example_archive(2)
    by (simp_all add: example_ops_def)
  have others: "\<forall>(k, _, _) \<in> set example_reads. handle_file k \<in> ?F"
    by (simp add: example_reads_def example_file_def example_other_file_def example_header_def handle_file_def entry_file_def)
  have "length example_reads < READ_CACHE_MAX_BLOCKS" by (simp add: example_reads_def READ_CACHE_MAX_BLOCKS_def)
  then have few: "card (requested_blocks example_reads - {block_pos example_file 0}) < READ_CACHE_MAX_BLOCKS"
    by (rule le_less_trans [OF card_requested])
  have new: "map_of (ac_blocks (new_cache (default_io ()))) (block_pos example_file 0) = None" by (simp add: new_cache_def)
  have "handle_bytes example_body example_file 0 3 = [123, 32, 125]" "handle_bytes example_body example_file 1 2 = [32]"
    by (simp_all add: handle_bytes_def example_file_def subslice_def example_body_def)
  then show ?thesis
    using fetched_block_stays [OF example_slice_reader F new_cache_ok new _ _ _ others few, of 3 1 2 "\<lambda>_. st_lift (Inl (IoError OtherKind []))"]
    by (simp add: example_file_def cacheable_def small_block READ_CACHE_BLOCK_BYTES_def)
qed

lemma fresh_directory_reads:
  assumes reader: "total_seek_read inner content"
    and header: "validate_header h = Inr ()" "archive_fits content body_start (hdr_files h)"
    and names: "distinct (map (components \<circ> entry_name) (hdr_files h))"
    and io: "cached_blocks (fst io) = 0"
  shows "\<exists>files st. new_with_metrics body_start (hdr_files h) io = Inr (files, st)
    \<and> (\<forall>p. dir_exists files p = Inr (\<exists>f \<in> set (hdr_files h). components (entry_name f) = components p))
    \<and> (\<forall>e \<in> set (hdr_files h). snd (atomic_read (\<lambda>rb len. rb 0 len) (metered_pread inner) files (entry_name e) st)
        = Inr (request_bytes content (entry_request body_start e)))"
proof -
  let ?files = "map_of (rev (map (\<lambda>e. (components (entry_name e), entry_file body_start e)) (hdr_files h)))"
  let ?F = "entry_file body_start ` set (hdr_files h)"
  have "snd (atomic_read (\<lambda>rb len. rb 0 len) (metered_pread inner) ?files (entry_name e) (new_cache io))
      = Inr (request_bytes content (entry_request body_start e))" if e: "e \<in> set (hdr_files h)" for e
  proof -
    let ?h = "\<lparr>handle_path = entry_name e, handle_start = file_start (entry_file body_start e),
       handle_length = file_length (entry_file body_start e)\<rparr>"
    have "?files (components (entry_name e)) = Some (entry_file body_start e)"
      using map_of_rev_distinct [of "components \<circ> entry_name" "hdr_files h" e "entry_file body_start"] names e
      by simp
    then have get: "get_file_handle ?files (entry_name e) = Inr ?h"
      by (simp add: get_file_handle_def dir_file_def)
    obtain st' r where run: "read_bytes (metered_pread inner) ?h 0 (handle_length ?h) (new_cache io) = (st', r)"
      by (cases "read_bytes (metered_pread inner) ?h 0 (handle_length ?h) (new_cache io)")
    have "handle_file ?h = entry_file body_start e" by (simp add: handle_file_def entry_file_def)
    then have "handle_file ?h \<in> ?F" using e by simp
    then have "r = Inr (handle_bytes content ?h 0 (handle_length ?h))"
      using read_bytes_ok [OF reader files_ok_entries [OF header] _ fresh_cache_ok [OF io] run] by simp
    moreover have "handle_bytes content ?h 0 (handle_length ?h) = request_bytes content (entry_request body_start e)"
      by (simp add: handle_bytes_def request_bytes_def entry_request_def entry_file_def)
    ultimately show ?thesis
      using get run by (simp add: atomic_read_def st_map_err_def)
  qed
  moreover have "dir_exists ?files p = Inr (\<exists>f \<in> set (hdr_files h). components (entry_name f) = components p)" for p
    by (auto simp: dir_exists_def map_of_eq_None_iff image_iff) (metis option.exhaust)+
  ultimately show ?thesis
    using new_with_metrics_ok [OF header(2), of io] by blast
qed

text \<open>
  C19. The directory gives back the files: for a validated header whose names are distinct as
  paths, opening the archive succeeds, every entry exists, and an atomic read of it returns its
  bytes, when tantivy's file slice reads the whole range of the handle; no other path exists.
\<close>

theorem directory_atomic_read:
  assumes reader: "total_seek_read inner content"
    and header: "validate_header h = Inr ()" "archive_fits content body_start (hdr_files h)"
    and names: "distinct (map (components \<circ> entry_name) (hdr_files h))"
    and slice: "\<And>rb len. read_slice rb len = rb 0 len"
    and e: "e \<in> set (hdr_files h)"
  shows "\<exists>files st. new_with_metrics body_start (hdr_files h) (default_io i) = Inr (files, st)
    \<and> (\<forall>p. dir_exists files p = Inr (\<exists>f \<in> set (hdr_files h). components (entry_name f) = components p))
    \<and> snd (atomic_read read_slice (metered_pread inner) files (entry_name e) st)
        = Inr (request_bytes content (entry_request body_start e))"
proof -
  have "read_slice = (\<lambda>rb len. rb 0 len)" using slice by (intro ext) simp
  moreover have "cached_blocks (fst (default_io i)) = 0" by (simp add: default_io_def default_metrics_def)
  ultimately show ?thesis using fresh_directory_reads [OF reader header names, of "default_io i"] e by blast
qed

theorem directory_atomic_read_witness:
  "\<exists>files st. new_with_metrics 0 (hdr_files example_header) (default_io ()) = Inr (files, st)
    \<and> snd (atomic_read (\<lambda>rb len. rb 0 len) (metered_pread (slice_pread \<lparr>slice_data = example_body\<rparr>))
          files ''seg.idx'' st) = Inr [7, 8]"
proof -
  have "distinct (map (components \<circ> entry_name) (hdr_files example_header))" by code_simp
  moreover have "\<lparr>entry_name = ''seg.idx'', entry_offset = 3, entry_length = 2\<rparr> \<in> set (hdr_files example_header)"
    by (simp add: example_header_def)
  ultimately show ?thesis
    using directory_atomic_read [OF example_slice_reader example_header_valid(2) example_archive(1), of "\<lambda>rb len. rb 0 len"
      "\<lparr>entry_name = ''seg.idx'', entry_offset = 3, entry_length = 2\<rparr>" "()"]
    by (auto simp: request_bytes_def entry_request_def example_body_def subslice_def)
qed

definition colliding_header :: index_header where
  "colliding_header = example_header\<lparr>hdr_files := [
     \<lparr>entry_name = ''a'', entry_offset = 0, entry_length = 3\<rparr>,
     \<lparr>entry_name = ''a/'', entry_offset = 3, entry_length = 2\<rparr>]\<rparr>"

text \<open>
  C25. Path equality is coarser than the comparison of names that validation makes: a header
  with the two names \<^verbatim>\<open>a\<close> and \<^verbatim>\<open>a/\<close> passes validation, yet both lead to the same key of
  the directory, and the first file can no longer be reached.
\<close>

theorem archive_names_collide:
  "validate_header colliding_header = Inr () \<and>
   (\<exists>files st. new_with_metrics 0 (hdr_files colliding_header) (default_io ()) = Inr (files, st)
     \<and> dom files = {[Normal ''a'']}
     \<and> get_file_handle files ''a'' = Inr \<lparr>handle_path = ''a'', handle_start = 3, handle_length = 2\<rparr>)"
proof
  have v: "validate_config (config (hdr_metadata colliding_header)) = Inr ()"
    "\<not> is_blank (tantivy_version (hdr_metadata colliding_header))"
    "validate_archive_file_name ''a'' = Inr ()" "validate_archive_file_name ''a/'' = Inr ()"
    by code_simp+
  show "validate_header colliding_header = Inr ()"
    by (rule validate_header_contiguous [OF v(1,2), where start = 0]) (simp_all add: colliding_header_def v(3,4))
  have c: "components ''a'' = [Normal ''a'']" "components ''a/'' = [Normal ''a'']" by code_simp+
  show "\<exists>files st. new_with_metrics 0 (hdr_files colliding_header) (default_io ()) = Inr (files, st)
     \<and> dom files = {[Normal ''a'']}
     \<and> get_file_handle files ''a'' = Inr \<lparr>handle_path = ''a'', handle_start = 3, handle_length = 2\<rparr>"
    by (simp add: new_with_metrics_def colliding_header_def checked_add_def c get_file_handle_def dir_file_def)
qed

end
