(* ===== verification/F32.thy ===== *)
theory F32
  imports Prelude
begin

text \<open>
  The \<^verbatim>\<open>f32\<close> arithmetic that the sources use: conversion with rounding to nearest, ties to even,
  multiplication, subtraction, absolute value and comparisons. A finite value is its sign
  and a magnitude on the grid of its binade; the main fact is that rounding never crosses a
  representable value, so multiplying a score by a factor of at most one cannot increase it.
\<close>

section \<open>Rounding\<close>

text \<open>The exponent of a magnitude, between -126 and 127; subnormals have the exponent -126.\<close>

fun exponent_from :: "nat \<Rightarrow> rat \<Rightarrow> int" where
  "exponent_from 0 r = - 126"
| "exponent_from (Suc k) r =
     (if 2 powi (int k - 125) \<le> r then int k - 125 else exponent_from k r)"

definition f32_exponent :: "rat \<Rightarrow> int" where
  "f32_exponent r = exponent_from 253 r"

definition f32_quantum :: "rat \<Rightarrow> rat" where
  "f32_quantum r = 2 powi (f32_exponent r - 23)"

definition round_half_even :: "rat \<Rightarrow> int" where
  "round_half_even x =
     (let n = \<lfloor>x\<rfloor>; d = x - of_int n in
      if d < 1 / 2 \<or> d = 1 / 2 \<and> even n then n else n + 1)"

definition round_mag :: "rat \<Rightarrow> rat" where
  "round_mag r = of_int (round_half_even (r / f32_quantum r)) * f32_quantum r"

definition f32_of :: "bool \<Rightarrow> rat \<Rightarrow> f32" where
  "f32_of s r = (if 2 ^ 128 \<le> round_mag r then Infinity s else Finite s (round_mag r))"

definition representable :: "rat \<Rightarrow> bool" where
  "representable r \<longleftrightarrow> 0 \<le> r \<and> r < 2 ^ 128 \<and> r / f32_quantum r = of_int \<lfloor>r / f32_quantum r\<rfloor>"

section \<open>Operations\<close>

fun f32_is_finite :: "f32 \<Rightarrow> bool" where
  "f32_is_finite (Finite s r) = True"
| "f32_is_finite _ = False"

fun f32_signed :: "bool \<Rightarrow> rat \<Rightarrow> rat" where
  "f32_signed s r = (if s then - r else r)"

fun f32_abs :: "f32 \<Rightarrow> f32" where
  "f32_abs NaN = NaN"
| "f32_abs (Infinity s) = Infinity False"
| "f32_abs (Finite s r) = Finite False r"

fun f32_mul :: "f32 \<Rightarrow> f32 \<Rightarrow> f32" where
  "f32_mul (Finite s x) (Finite t y) = f32_of (s \<noteq> t) (x * y)"
| "f32_mul (Infinity s) (Infinity t) = Infinity (s \<noteq> t)"
| "f32_mul (Infinity s) (Finite t y) = (if y = 0 then NaN else Infinity (s \<noteq> t))"
| "f32_mul (Finite s x) (Infinity t) = (if x = 0 then NaN else Infinity (s \<noteq> t))"
| "f32_mul NaN _ = NaN"
| "f32_mul _ NaN = NaN"

text \<open>The difference of equal values is positive zero.\<close>

fun f32_sub :: "f32 \<Rightarrow> f32 \<Rightarrow> f32" where
  "f32_sub (Finite s x) (Finite t y) =
     (let d = f32_signed s x - f32_signed t y in
      if d = 0 then Finite (s \<and> x = 0 \<and> \<not> t) 0 else f32_of (d < 0) \<bar>d\<bar>)"
| "f32_sub (Infinity s) (Infinity t) = (if s = t then NaN else Infinity s)"
| "f32_sub (Infinity s) (Finite t y) = Infinity s"
| "f32_sub (Finite s x) (Infinity t) = Infinity (\<not> t)"
| "f32_sub NaN _ = NaN"
| "f32_sub _ NaN = NaN"

fun f32_le :: "f32 \<Rightarrow> f32 \<Rightarrow> bool" where
  "f32_le (Finite s x) (Finite t y) \<longleftrightarrow> f32_signed s x \<le> f32_signed t y"
| "f32_le (Infinity s) (Infinity t) \<longleftrightarrow> s \<or> \<not> t"
| "f32_le (Infinity s) (Finite t y) \<longleftrightarrow> s"
| "f32_le (Finite s x) (Infinity t) \<longleftrightarrow> \<not> t"
| "f32_le NaN _ \<longleftrightarrow> False"
| "f32_le _ NaN \<longleftrightarrow> False"

definition f32_lt :: "f32 \<Rightarrow> f32 \<Rightarrow> bool" where
  "f32_lt x y \<longleftrightarrow> f32_le x y \<and> \<not> f32_le y x"

definition f32_zero :: f32 where "f32_zero = Finite False 0"
definition f32_one :: f32 where "f32_one = Finite False 1"
definition f32_EPSILON :: f32 where "f32_EPSILON = Finite False (1 / 2 ^ 23)"

fun f32_wf :: "f32 \<Rightarrow> bool" where
  "f32_wf (Finite s r) = representable r"
| "f32_wf _ = True"

section \<open>Rounding respects representable values\<close>

lemma exponent_from_range: "- 126 \<le> exponent_from k r \<and> exponent_from k r \<le> max (- 126) (int k - 126)"
  by (induction k) auto

lemma exponent_from_mono: "x \<le> y \<Longrightarrow> exponent_from k x \<le> exponent_from k y"
proof (induction k)
  case (Suc k)
  show ?case
  proof (cases "2 powi (int k - 125) \<le> x")
    case False
    have "exponent_from k x \<le> int k - 125" using exponent_from_range [of k x] by auto
    with False Suc show ?thesis by auto
  qed (use Suc.prems in auto)
qed simp

lemma quantum_pos [simp]: "0 < f32_quantum r"
  by (simp add: f32_quantum_def zero_less_power_int)

lemma quantum_multiple:
  assumes "x \<le> y"
  shows "\<exists>k :: nat. f32_quantum y = of_nat k * f32_quantum x"
proof -
  have "f32_exponent x \<le> f32_exponent y" using assms by (simp add: f32_exponent_def exponent_from_mono)
  then obtain n :: nat where n: "f32_exponent y = f32_exponent x + int n"
    by (metis zle_iff_zadd)
  have "f32_quantum y = 2 powi int n * f32_quantum x"
    unfolding f32_quantum_def n using power_int_add [of "2 :: rat" "int n" "f32_exponent x - 23"]
    by (simp add: algebra_simps)
  then show ?thesis by (intro exI [of _ "2 ^ n"]) (simp add: power_int_of_nat)
qed

lemma round_half_even_le: "x \<le> of_int m \<Longrightarrow> round_half_even x \<le> m"
proof -
  assume le: "x \<le> of_int m"
  then have "\<lfloor>x\<rfloor> \<le> m" by (metis floor_mono floor_of_int)
  moreover have "x = of_int m" if "\<lfloor>x\<rfloor> = m" using that le by (metis antisym of_int_floor_le)
  ultimately show ?thesis
    by (auto simp: round_half_even_def Let_def) (metis (mono_tags) le_less zless_imp_add1_zle diff_self divide_pos_pos zero_less_numeral zero_less_one)+
qed

lemma round_half_even_ge: "of_int m \<le> x \<Longrightarrow> m \<le> round_half_even x"
  by (simp add: round_half_even_def Let_def le_floor_iff) (meson le_floor_iff order.trans zle_add1_eq_le less_add_one less_imp_le)

lemma representable_multiple:
  assumes "representable y" and "x \<le> y"
  obtains m :: int where "y = of_int m * f32_quantum x"
proof -
  obtain k :: nat where k: "f32_quantum y = of_nat k * f32_quantum x"
    using quantum_multiple [OF assms(2)] by blast
  have "y = of_int \<lfloor>y / f32_quantum y\<rfloor> * f32_quantum y"
    using assms(1) quantum_pos [of y] by (simp add: representable_def field_simps)
  also have "\<dots> = of_int (\<lfloor>y / f32_quantum y\<rfloor> * int k) * f32_quantum x"
    by (simp only: k of_int_mult of_int_of_nat_eq mult.assoc)
  finally have "y = of_int (\<lfloor>y / f32_quantum y\<rfloor> * int k) * f32_quantum x" .
  then show thesis by (rule that)
qed

lemma round_mag_le:
  assumes "representable y" and "x \<le> y"
  shows "round_mag x \<le> y"
proof -
  obtain m :: int where m: "y = of_int m * f32_quantum x"
    using representable_multiple [OF assms] by blast
  then have "x / f32_quantum x \<le> of_int m" using assms(2) by (simp add: pos_divide_le_eq)
  then have "round_half_even (x / f32_quantum x) \<le> m" by (rule round_half_even_le)
  then show ?thesis by (simp add: round_mag_def m)
qed

lemma round_mag_nonneg: "0 \<le> x \<Longrightarrow> 0 \<le> round_mag x"
proof -
  assume "0 \<le> x"
  then have "of_int 0 \<le> x / f32_quantum x" by (simp add: less_imp_le)
  then have "0 \<le> round_half_even (x / f32_quantum x)" by (rule round_half_even_ge)
  then show ?thesis by (simp add: round_mag_def less_imp_le)
qed

lemma round_mag_id: "representable x \<Longrightarrow> round_mag x = x"
proof -
  assume x: "representable x"
  then have "x / f32_quantum x = of_int \<lfloor>x / f32_quantum x\<rfloor>" by (simp add: representable_def)
  then have "of_int (round_half_even (x / f32_quantum x)) = x / f32_quantum x"
    by (simp add: round_half_even_def Let_def)
  then show ?thesis using quantum_pos [of x] by (simp add: round_mag_def less_imp_neq [symmetric])
qed

lemma f32_of_id: "representable x \<Longrightarrow> f32_of s x = Finite s x"
  using round_mag_id [of x] by (simp add: f32_of_def representable_def)

lemma f32_mul_le:
  assumes "representable x" and "0 \<le> y" and "y \<le> 1"
  shows "\<exists>z. f32_mul (Finite False x) (Finite False y) = Finite False z \<and> 0 \<le> z \<and> z \<le> x"
proof -
  have "x * y \<le> x" "0 \<le> x * y"
    using assms by (simp_all add: representable_def mult_left_le)
  then have "round_mag (x * y) \<le> x" "0 \<le> round_mag (x * y)"
    using round_mag_le [OF assms(1)] round_mag_nonneg by blast+
  moreover have "x < 2 ^ 128" using assms(1) by (simp add: representable_def)
  ultimately show ?thesis by (auto simp: f32_of_def)
qed

lemma exponent_exact:
  assumes "int k \<le> 252" and "2 powi (int k - 125) \<le> r" and "r < 2 powi (int k - 124)"
  shows "f32_exponent r = int k - 125"
proof -
  have "exponent_from (Suc k + n) r = int k - 125" for n
  proof (induction n)
    case (Suc n)
    have "(2 :: rat) powi (int k - 124) \<le> 2 powi (int (Suc k + n) - 125)"
      by (rule power_int_increasing) auto
    with assms(3) have "\<not> 2 powi (int (Suc k + n) - 125) \<le> r" by linarith
    then show ?case using Suc by simp
  qed (use assms(2) in simp)
  from this [of "252 - k"] assms(1) show ?thesis by (simp add: f32_exponent_def)
qed

lemma representable_zero [simp]: "representable 0"
  by (simp add: representable_def)

lemma representable_one [simp]: "representable 1"
  using exponent_exact [of 125 1] by (simp add: representable_def f32_quantum_def power_int_minus)

lemma representable_half [simp]: "representable (1 / 2)"
  using exponent_exact [of 124 "1 / 2"] by (simp add: representable_def f32_quantum_def power_int_minus)

end
