(* ===== verification/QuerySpec.thy ===== *)
theory QuerySpec
  imports Json RustStr F32 "HOL-Library.Multiset"
begin

text \<open>
  The query language of \<^verbatim>\<open>core/src/query.rs\<close>: the tree of match, phrase, boolean and boost
  queries, and its deserialization from JSON as serde's derive and the hand-written parts
  prescribe (renamed variants, field aliases, defaults, operators and occurrences by name,
  fuzziness as a number, \<^verbatim>\<open>null\<close> or \<^verbatim>\<open>auto\<close>). The deserializer is a total function on JSON
  values; the text layer is the parameter of the theory \<^verbatim>\<open>Json\<close>.
\<close>

section \<open>Queries\<close>

datatype match_operator = OpOr | OpAnd

datatype boolean_occur = BShould | BMust | BMustNot

datatype query_spec =
    QMatch (qm_column: "string option") (qm_terms: string) (qm_operator: match_operator)
      (qm_boost: f32) (qm_fuzziness: "u8 option") (qm_max_expansions: usize) (qm_prefix_length: u32)
  | QMultiMatch (mm_terms: string) (mm_columns: "string list") (mm_boosts: "f32 list")
      (mm_operator: match_operator) (mm_fuzziness: "u8 option") (mm_max_expansions: usize)
      (mm_prefix_length: u32)
  | QMatchPhrase (qp_column: "string option") (qp_terms: string) (qp_slop: u32)
  | QBoolean (qb_should: "query_spec list") (qb_must: "query_spec list")
      (qb_must_not: "query_spec list") (qb_queries: "(boolean_occur \<times> query_spec) list")
  | QBoost (qd_positive: query_spec) (qd_negative: query_spec) (qd_negative_boost: f32)

definition default_boost :: f32 where "default_boost = f32_one"
definition default_negative_boost :: f32 where "default_negative_boost = Finite False (1 / 2)"
definition default_fuzziness :: "u8 option" where "default_fuzziness = Some 0"
definition default_max_expansions :: usize where "default_max_expansions = 50"

section \<open>Deserialization\<close>

definition de_operator :: "match_operator de" where
  "de_operator j = res_bind (de_string j) (\<lambda>v.
     let t = trim v in
     if t \<in> set [''Or'', ''or'', ''OR''] then Inr OpOr
     else if t \<in> set [''And'', ''and'', ''AND''] then Inr OpAnd
     else Inl [Lit ''invalid full-text query operator: '', ArgStr v])"

definition de_occur :: "boolean_occur de" where
  "de_occur j = res_bind (de_string j) (\<lambda>v.
     let t = trim v in
     if t \<in> set [''Should'', ''should'', ''SHOULD''] then Inr BShould
     else if t \<in> set [''Must'', ''must'', ''MUST''] then Inr BMust
     else if t \<in> set [''MustNot'', ''must_not'', ''MUST_NOT'', ''mustnot'', ''MUSTNOT''] then Inr BMustNot
     else Inl [Lit ''invalid boolean query occur: '', ArgStr v])"

fun de_f32 :: "f32 de" where
  "de_f32 (JNum (PosInt n)) = Inr (f32_of False (of_nat (unat n)))"
| "de_f32 (JNum (NegInt i)) = Inr (f32_of True (of_int (- i)))"
| "de_f32 (JNum (Float s r)) = Inr (f32_of s r)"
| "de_f32 _ = de_error ''invalid type, expected f32''"

fun deserialize_fuzziness :: "u8 option de" where
  "deserialize_fuzziness JNull = Inr None"
| "deserialize_fuzziness (JStr v) =
     (if eq_ignore_ascii_case v ''auto'' then Inr None else Inl [Lit ''invalid fuzziness: '', ArgStr v])"
| "deserialize_fuzziness (JNum (PosInt n)) =
     (if unat n < 256 then Inr (Some (of_nat (unat n)))
      else de_error ''fuzziness must be an unsigned byte'')"
| "deserialize_fuzziness (JNum _) = de_error ''fuzziness must be an unsigned byte''"
| "deserialize_fuzziness _ = de_error ''invalid fuzziness''"

fun de_pair :: "'a de \<Rightarrow> 'b de \<Rightarrow> ('a \<times> 'b) de" where
  "de_pair f g (JArr [a, b]) = res_bind (f a) (\<lambda>x. res_bind (g b) (\<lambda>y. Inr (x, y)))"
| "de_pair f g _ = de_error ''invalid type, expected a tuple of size 2''"

definition match_fields :: "string list list" where
  "match_fields = [[''column''], [''terms'', ''query''], [''operator''], [''boost''], [''fuzziness''],
     [''max_expansions'', ''maxExpansions''], [''prefix_length'', ''prefixLength'']]"

definition multi_match_fields :: "string list list" where
  "multi_match_fields = [[''terms'', ''query''], [''columns''], [''boosts'', ''boost''], [''operator''],
     [''fuzziness''], [''max_expansions'', ''maxExpansions''], [''prefix_length'', ''prefixLength'']]"

definition match_phrase_fields :: "string list list" where
  "match_phrase_fields = [[''column''], [''terms'', ''query''], [''slop'']]"

definition boolean_fields :: "string list list" where
  "boolean_fields = [[''should''], [''must''], [''must_not''], [''queries'']]"

definition boost_fields :: "string list list" where
  "boost_fields = [[''positive''], [''negative''], [''negative_boost'']]"

definition de_match :: "query_spec de" where
  "de_match content =
     res_bind (struct_slots match_fields content) (\<lambda>s.
     res_bind (field_or None (de_option de_string) (s ! 0)) (\<lambda>column.
     res_bind (field_req ''terms'' de_string (s ! 1)) (\<lambda>terms.
     res_bind (field_or OpOr de_operator (s ! 2)) (\<lambda>operator.
     res_bind (field_or default_boost de_f32 (s ! 3)) (\<lambda>boost.
     res_bind (field_or default_fuzziness deserialize_fuzziness (s ! 4)) (\<lambda>fuzziness.
     res_bind (field_or default_max_expansions de_u64 (s ! 5)) (\<lambda>max_expansions.
     res_bind (field_or 0 de_u32 (s ! 6)) (\<lambda>prefix_length.
     Inr (QMatch column terms operator boost fuzziness max_expansions prefix_length)))))))))"

definition de_multi_match :: "query_spec de" where
  "de_multi_match content =
     res_bind (struct_slots multi_match_fields content) (\<lambda>s.
     res_bind (field_req ''terms'' de_string (s ! 0)) (\<lambda>terms.
     res_bind (field_req ''columns'' (de_vec de_string) (s ! 1)) (\<lambda>columns.
     res_bind (field_or [] (de_vec de_f32) (s ! 2)) (\<lambda>boosts.
     res_bind (field_or OpOr de_operator (s ! 3)) (\<lambda>operator.
     res_bind (field_or default_fuzziness deserialize_fuzziness (s ! 4)) (\<lambda>fuzziness.
     res_bind (field_or default_max_expansions de_u64 (s ! 5)) (\<lambda>max_expansions.
     res_bind (field_or 0 de_u32 (s ! 6)) (\<lambda>prefix_length.
     Inr (QMultiMatch terms columns boosts operator fuzziness max_expansions prefix_length)))))))))"

definition de_match_phrase :: "query_spec de" where
  "de_match_phrase content =
     res_bind (struct_slots match_phrase_fields content) (\<lambda>s.
     res_bind (field_or None (de_option de_string) (s ! 0)) (\<lambda>column.
     res_bind (field_req ''terms'' de_string (s ! 1)) (\<lambda>terms.
     res_bind (field_or 0 de_u32 (s ! 2)) (\<lambda>slop.
     Inr (QMatchPhrase column terms slop)))))"

text \<open>The recursion follows the JSON value; these rules show it to the function package.\<close>

lemma res_bind_cong [fundef_cong]:
  "r = r' \<Longrightarrow> (\<And>x. r' = Inr x \<Longrightarrow> f x = g x) \<Longrightarrow> res_bind r f = res_bind r' g"
  by (cases r') auto

lemma res_collect_cong [fundef_cong]:
  "xs = ys \<Longrightarrow> (\<And>x. x \<in> set ys \<Longrightarrow> f x = g x) \<Longrightarrow> res_collect f xs = res_collect g ys"
  by (induction ys arbitrary: xs) (auto split: sum.splits)

lemma de_vec_cong [fundef_cong]:
  "j = j' \<Longrightarrow> (\<And>xs x. j' = JArr xs \<Longrightarrow> x \<in> set xs \<Longrightarrow> f x = g x) \<Longrightarrow> de_vec f j = de_vec g j'"
  by (cases j') (auto intro: res_collect_cong)

lemma de_pair_cong [fundef_cong]:
  "j = j' \<Longrightarrow> f = f' \<Longrightarrow> (\<And>a b. j' = JArr [a, b] \<Longrightarrow> g b = g' b) \<Longrightarrow> de_pair f g j = de_pair f' g' j'"
  by (cases "(f, g, j)" rule: de_pair.cases) auto

lemma field_or_cong [fundef_cong]:
  "d = d' \<Longrightarrow> s = s' \<Longrightarrow> (\<And>j. s' = Some j \<Longrightarrow> f j = g j) \<Longrightarrow> field_or d f s = field_or d' g s'"
  by (cases s') auto

lemma field_req_cong [fundef_cong]:
  "n = n' \<Longrightarrow> s = s' \<Longrightarrow> (\<And>j. s' = Some j \<Longrightarrow> f j = g j) \<Longrightarrow> field_req n f s = field_req n' g s'"
  by (cases s') auto

lemma slot_size:
  assumes "enum_tag j = Inr (tag, content)" and "struct_slots names content = Inr s"
    and "i < length names" and "s ! i = Some v"
  shows "size v < size j"
proof -
  have "Some v \<in> set s" using assms(2-4) struct_slots_length [OF assms(2)] by (metis nth_mem)
  then have "size v < size content" by (rule struct_slots_size [OF assms(2)])
  moreover have "content \<noteq> JNull" using assms(2) by auto
  then have "size content < size j" using enum_tag_size [OF assms(1)] by auto
  ultimately show ?thesis by simp
qed

lemma slot_elem_size:
  assumes "enum_tag j = Inr (tag, content)" and "struct_slots names content = Inr s"
    and "i < length names" and "s ! i = Some (JArr xs)" and "x \<in> set xs"
  shows "size x < size j"
  using slot_size [OF assms(1-4)] size_json_member(1) [OF assms(5)] by linarith

lemma slot_pair_size:
  assumes "enum_tag j = Inr (tag, content)" and "struct_slots names content = Inr s"
    and "i < length names" and "s ! i = Some (JArr xs)" and "JArr [a, b] \<in> set xs"
  shows "size b < size j"
  using slot_elem_size [OF assms] by simp

lemma length_query_fields [simp]:
  "length match_fields = 7" "length multi_match_fields = 7" "length match_phrase_fields = 3"
  "length boolean_fields = 4" "length boost_fields = 3" "boolean_fields \<noteq> []" "boost_fields \<noteq> []"
  by (simp_all add: match_fields_def multi_match_fields_def match_phrase_fields_def boolean_fields_def
      boost_fields_def)

function de_query :: "query_spec de" where
  "de_query j =
     res_bind (enum_tag j) (\<lambda>(tag, content).
     if tag = ''match'' then de_match content
     else if tag = ''multi_match'' then de_multi_match content
     else if tag = ''match_phrase'' \<or> tag = ''phrase'' then de_match_phrase content
     else if tag = ''boolean'' then
       res_bind (struct_slots boolean_fields content) (\<lambda>s.
       res_bind (field_or [] (de_vec de_query) (s ! 0)) (\<lambda>should.
       res_bind (field_or [] (de_vec de_query) (s ! 1)) (\<lambda>must.
       res_bind (field_or [] (de_vec de_query) (s ! 2)) (\<lambda>must_not.
       res_bind (field_or [] (de_vec (de_pair de_occur de_query)) (s ! 3)) (\<lambda>queries.
       Inr (QBoolean should must must_not queries))))))
     else if tag = ''boost'' then
       res_bind (struct_slots boost_fields content) (\<lambda>s.
       res_bind (field_req ''positive'' de_query (s ! 0)) (\<lambda>positive.
       res_bind (field_req ''negative'' de_query (s ! 1)) (\<lambda>negative.
       res_bind (field_or default_negative_boost de_f32 (s ! 2)) (\<lambda>negative_boost.
       Inr (QBoost positive negative negative_boost)))))
     else Inl [Lit ''unknown variant '', ArgStr tag])"
  by pat_completeness auto

termination
  by (relation "measure size")
    (auto intro: slot_elem_size [where names = boolean_fields and i = 0]
      slot_elem_size [where names = boolean_fields and i = "Suc 0"]
      slot_elem_size [where names = boolean_fields and i = 2]
      slot_pair_size [where names = boolean_fields and i = 3]
      slot_size [where names = boost_fields and i = 0] slot_size [where names = boost_fields and i = "Suc 0"])

declare de_query.simps [simp del]

definition from_json :: "json_text \<Rightarrow> bytes \<Rightarrow> ft_error + query_spec" where
  "from_json J text = map_err Json (res_bind (jt_parse J text) de_query)"

section \<open>The order of the fields in a document\<close>

definition known_fields :: "string list list \<Rightarrow> (string \<times> json) list \<Rightarrow> (nat \<times> json) list" where
  "known_fields names kvs =
     List.map_filter (\<lambda>(k, v). map_option (\<lambda>i. (i, v)) (field_index names k)) kvs"

lemma known_fields_simps [simp]:
  "known_fields names [] = []"
  "known_fields names ((k, v) # kvs) =
     (case field_index names k of None \<Rightarrow> known_fields names kvs | Some i \<Rightarrow> (i, v) # known_fields names kvs)"
  by (simp_all add: known_fields_def map_filter_simps split: option.splits)

lemma known_fields_append: "known_fields names (xs @ ys) = known_fields names xs @ known_fields names ys"
  by (induction xs) (auto split: option.splits)

lemma mset_known_fields:
  "mset xs = mset ys \<Longrightarrow> mset (known_fields names xs) = mset (known_fields names ys)"
proof -
  have "mset (known_fields names zs) = image_mset the (filter_mset (\<lambda>x. x \<noteq> None)
      (image_mset (\<lambda>(k, v). map_option (\<lambda>i. (i, v)) (field_index names k)) (mset zs)))" for zs
    by (induction zs) (auto split: option.splits)
  then show "mset xs = mset ys \<Longrightarrow> ?thesis" by simp
qed

lemma fill_slots_iff:
  assumes "length slots = length names"
  shows "fill_slots names slots kvs = Inr slots' \<longleftrightarrow>
     (let ks = known_fields names kvs in distinct (map fst ks) \<and> (\<forall>i \<in> fst ` set ks. slots ! i = None)
      \<and> length slots' = length slots
      \<and> (\<forall>i < length slots. slots' ! i = (case map_of ks i of None \<Rightarrow> slots ! i | v \<Rightarrow> v)))"
  using assms
proof (induction kvs arbitrary: slots)
  case Nil
  then show ?case by (auto simp: list_eq_iff_nth_eq)
next
  case (Cons kv kvs)
  obtain k v where kv: "kv = (k, v)" by (cases kv)
  show ?case
  proof (cases "field_index names k")
    case None
    with Cons show ?thesis by (simp add: kv)
  next
    case (Some i)
    then have i: "i < length slots" using field_index_less Cons.prems by metis
    show ?thesis
    proof (cases "slots ! i = None")
      case False
      with Some show ?thesis by (auto simp: kv Let_def)
    next
      case True
      let ?ks = "known_fields names kvs"
      have IH: "fill_slots names (slots[i := Some v]) kvs = Inr slots' \<longleftrightarrow>
         distinct (map fst ?ks) \<and> (\<forall>j \<in> fst ` set ?ks. slots[i := Some v] ! j = None)
         \<and> length slots' = length slots
         \<and> (\<forall>j < length slots. slots' ! j = (case map_of ?ks j of None \<Rightarrow> slots[i := Some v] ! j | w \<Rightarrow> w))"
        using Cons.IH [of "slots[i := Some v]"] Cons.prems by (simp add: Let_def)
      have upd: "(slots[i := Some v] ! j = None) \<longleftrightarrow> j \<noteq> i \<and> slots ! j = None" for j
        using i True by (cases "j = i") auto
      have "(\<forall>j \<in> fst ` set ?ks. slots[i := Some v] ! j = None)
          \<longleftrightarrow> i \<notin> fst ` set ?ks \<and> (\<forall>j \<in> fst ` set ?ks. slots ! j = None)"
        unfolding upd by auto
      moreover have "i \<notin> fst ` set ?ks \<Longrightarrow> map_of ?ks i = None" by (simp add: map_of_eq_None_iff)
      ultimately show ?thesis
        using Some True i unfolding kv
        by (auto simp: IH Let_def nth_list_update split: option.splits if_splits)
    qed
  qed
qed

lemma struct_slots_order:
  assumes "struct_slots names (JObj kvs) = Inr s"
    and "mset (known_fields names kvs') = mset (known_fields names kvs)"
  shows "struct_slots names (JObj kvs') = Inr s"
proof -
  let ?ks = "known_fields names kvs" and ?ks' = "known_fields names kvs'"
  have ok: "distinct (map fst ?ks)"
    using assms(1) by (simp add: fill_slots_iff Let_def)
  have "mset (map fst ?ks') = mset (map fst ?ks)" and set: "set ?ks' = set ?ks"
    using assms(2) by (metis mset_map, metis set_mset_mset)
  then have ok': "distinct (map fst ?ks')" using ok by (metis mset_eq_imp_distinct_iff)
  have "map_of ?ks' = map_of ?ks" using ok ok' set by (simp add: map_of_inject_set)
  with assms(1) ok' set show ?thesis by (simp add: fill_slots_iff Let_def)
qed

definition variant_fields :: "string \<Rightarrow> string list list" where
  "variant_fields tag =
     (if tag = ''match'' then match_fields else if tag = ''multi_match'' then multi_match_fields
      else if tag = ''match_phrase'' \<or> tag = ''phrase'' then match_phrase_fields
      else if tag = ''boolean'' then boolean_fields else boost_fields)"

lemma field_index_unknown: "k \<notin> set (concat names) \<Longrightarrow> field_index names k = None"
  by (induction names) auto

lemma known_fields_unknown:
  "\<forall>(k, v) \<in> set kvs. k \<notin> set (concat names) \<Longrightarrow> known_fields names kvs = []"
  by (induction kvs) (auto simp: field_index_unknown)

lemmas query_de_defs = de_match_def de_multi_match_def de_match_phrase_def

lemma de_query_struct:
  assumes "de_query (JObj [(tag, content)]) = Inr q"
    and "\<And>s. struct_slots (variant_fields tag) content = Inr s
        \<Longrightarrow> struct_slots (variant_fields tag) content' = Inr s"
  shows "de_query (JObj [(tag, content')]) = Inr q"
proof -
  consider "tag = ''match''" | "tag = ''multi_match''" | "tag = ''match_phrase''" | "tag = ''phrase''"
    | "tag = ''boolean''" | "tag = ''boost''"
    using assms(1) by (subst (asm) de_query.simps) (auto split: if_splits)
  then show ?thesis
  proof cases
    case 1 with assms show ?thesis
      by (auto simp: de_query.simps query_de_defs variant_fields_def res_bind_Inr)
  next
    case 2 with assms show ?thesis
      by (auto simp: de_query.simps query_de_defs variant_fields_def res_bind_Inr)
  next
    case 3 with assms show ?thesis
      by (auto simp: de_query.simps query_de_defs variant_fields_def res_bind_Inr)
  next
    case 4 with assms show ?thesis
      by (auto simp: de_query.simps query_de_defs variant_fields_def res_bind_Inr)
  next
    case 5 with assms show ?thesis
      by (auto simp: de_query.simps variant_fields_def res_bind_Inr)
  next
    case 6 with assms show ?thesis
      by (auto simp: de_query.simps variant_fields_def res_bind_Inr)
  qed
qed

section \<open>Properties\<close>

text \<open>
  The meaning of a query document does not depend on the order of its fields, and fields the
  query does not have are ignored: a document that deserializes to a query still does after
  its entries are permuted and entries under unknown names are added anywhere.
\<close>

theorem query_field_order:
  assumes "de_query (JObj [(tag, JObj kvs)]) = Inr q"
    and "mset kvs' = mset (kvs @ extra)"
    and "\<forall>(k, v) \<in> set extra. k \<notin> set (concat (variant_fields tag))"
  shows "de_query (JObj [(tag, JObj kvs')]) = Inr q"
proof (rule de_query_struct [OF assms(1)])
  fix s
  assume "struct_slots (variant_fields tag) (JObj kvs) = Inr s"
  moreover have "mset (known_fields (variant_fields tag) kvs') = mset (known_fields (variant_fields tag) kvs)"
    using mset_known_fields [OF assms(2)] known_fields_unknown [OF assms(3)]
    by (simp add: known_fields_append)
  ultimately show "struct_slots (variant_fields tag) (JObj kvs') = Inr s"
    by (rule struct_slots_order)
qed

lemma minimal_match:
  "de_query (JObj [(''match'', JObj [(''query'', JStr t), (''column'', JStr c)])])
     = Inr (QMatch (Some c) t OpOr f32_one (Some 0) 50 0)"
  by (simp add: de_query.simps query_de_defs match_fields_def default_boost_def default_fuzziness_def
      default_max_expansions_def numeral_eq_Suc)

theorem query_field_order_witness:
  "de_query (JObj [(''match'', JObj [(''column'', JStr ''title''), (''lang'', JNull), (''query'', JStr ''rust'')])])
     = Inr (QMatch (Some ''title'') ''rust'' OpOr f32_one (Some 0) 50 0)"
  by (rule query_field_order [OF minimal_match, where extra = "[(''lang'', JNull)]"])
    (simp_all add: variant_fields_def match_fields_def)

end
