(* ===== verification/Analyzer.thy ===== *)
theory Analyzer
  imports Config
begin

text \<open>
  How an index is set up from its configuration (\<^verbatim>\<open>core/src/index.rs\<close>): the schema, the text
  analyzer and the name it is registered under, the lookup of the text fields, the check of
  document fields, and the list of files that go into the archive. The schema builder, the
  tokenizers and the filters are tantivy's: a schema is the list of declarations handed to the
  builder and an analyzer the pipeline handed to the analyzer builder, and the calls that can
  fail or answer something (\<^verbatim>\<open>NgramTokenizer::new\<close>, \<^verbatim>\<open>StopWordFilter::new\<close>, \<^verbatim>\<open>Schema::get_field\<close>)
  are parameters, as are the directory listing and the metadata of the file system.
\<close>

section \<open>The schema\<close>

datatype index_record_option = WithFreqs | WithFreqsAndPositions

record text_field_indexing =
  fi_tokenizer :: string
  fi_option :: index_record_option

datatype field_decl =
    U64Field (decl_name: string) (decl_fast: bool) (decl_stored: bool) (decl_indexed: bool)
  | TextField (decl_name: string) (decl_indexing: text_field_indexing)

fun tokenizer_kind_name :: "tokenizer_kind \<Rightarrow> string" where
  "tokenizer_kind_name DefaultTok = ''paimon_custom''"
| "tokenizer_kind_name Simple = ''paimon_custom''"
| "tokenizer_kind_name Whitespace = ''paimon_custom''"
| "tokenizer_kind_name Raw = ''paimon_custom''"
| "tokenizer_kind_name Ngram = ''paimon_ngram''"
| "tokenizer_kind_name Jieba = ''paimon_jieba''"
| "tokenizer_kind_name Icu = ''paimon_icu''"
| "tokenizer_kind_name IcuSplit = ''paimon_icu_split''"

definition tokenizer_name :: "tokenizer_config \<Rightarrow> string" where
  "tokenizer_name c = tokenizer_kind_name (tok_kind c)"

definition build_schema :: "full_text_index_config \<Rightarrow> field_decl list" where
  "build_schema c =
     (let index_option = (if with_position (tokenizer c) then WithFreqsAndPositions else WithFreqs);
          indexing = \<lparr>fi_tokenizer = tokenizer_name (tokenizer c), fi_option = index_option\<rparr>
      in U64Field (row_id_field c) True True True
         # map (\<lambda>f. TextField f indexing) (indexed_text_fields c))"

text \<open>\<open>get_field\<close> stands for \<^verbatim>\<open>schema.get_field\<close>; the result lists the entries of the hash map.\<close>

definition text_field_map ::
  "(string \<Rightarrow> 'f option) \<Rightarrow> full_text_index_config \<Rightarrow> ft_error + (string \<times> 'f) list" where
  "text_field_map get_field c =
     res_collect (\<lambda>name. res_bind (ok_or (InvalidStorage (quoted ''missing text field '' name ''''))
        (get_field name)) (\<lambda>field. Inr (name, field))) (indexed_text_fields c)"

definition validate_indexed_field :: "full_text_index_config \<Rightarrow> string \<Rightarrow> ft_error + unit" where
  "validate_indexed_field c field =
     (if is_blank field then Inl (InvalidStorage [Lit ''document field name must not be empty''])
      else if field \<in> set (indexed_text_fields c) then Inr ()
      else Inl (InvalidStorage (quoted ''document field '' field '' is not configured for this index'')))"

section \<open>The text analyzer\<close>

datatype language =
    Arabic | Danish | Dutch | English | Finnish | French | German | Greek | Hungarian | Italian
  | Norwegian | Portuguese | Romanian | Russian | Spanish | Swedish | Tamil | Turkish

definition parse_language :: "(string \<Rightarrow> string) \<Rightarrow> string \<Rightarrow> ft_error + language" where
  "parse_language unicode_lower lang =
     (let l = to_lowercase unicode_lower (trim lang) in
      if l = ''arabic'' then Inr Arabic
      else if l = ''danish'' then Inr Danish
      else if l = ''dutch'' then Inr Dutch
      else if l = ''english'' \<or> l = ''en'' then Inr English
      else if l = ''finnish'' then Inr Finnish
      else if l = ''french'' \<or> l = ''fr'' then Inr French
      else if l = ''german'' \<or> l = ''de'' then Inr German
      else if l = ''greek'' then Inr Greek
      else if l = ''hungarian'' then Inr Hungarian
      else if l = ''italian'' \<or> l = ''it'' then Inr Italian
      else if l = ''norwegian'' then Inr Norwegian
      else if l = ''portuguese'' \<or> l = ''pt'' then Inr Portuguese
      else if l = ''romanian'' then Inr Romanian
      else if l = ''russian'' \<or> l = ''ru'' then Inr Russian
      else if l = ''spanish'' \<or> l = ''es'' then Inr Spanish
      else if l = ''swedish'' then Inr Swedish
      else if l = ''tamil'' then Inr Tamil
      else if l = ''turkish'' then Inr Turkish
      else Inl (InvalidOption ''language'' (quoted ''unsupported tokenizer language '' l '''')))"

datatype base_tokenizer =
    SimpleTokenizer
  | WhitespaceTokenizer
  | RawTokenizer
  | NgramTokenizer (ng_min: usize) (ng_max: usize) (ng_prefix_only: bool)
  | JiebaTokenizer (jb_search_mode: bool) (jb_ordinal_position: bool)
  | IcuTokenizer (icu_simple_split: bool)

datatype token_filter =
    RemoveLongFilter usize
  | LowerCaser
  | Stemmer language
  | StopWordFilter language
  | StopWordList "string list"
  | AsciiFoldingFilter

type_synonym text_analyzer = "base_tokenizer \<times> token_filter list"

record analyzer_env =
  ae_lower :: "string \<Rightarrow> string"
  ae_ngram_new :: "usize \<Rightarrow> usize \<Rightarrow> bool \<Rightarrow> message + unit"
  ae_stop_words :: "language \<Rightarrow> bool"

definition build_base :: "analyzer_env \<Rightarrow> tokenizer_config \<Rightarrow> ft_error + base_tokenizer" where
  "build_base E c =
     (case tok_kind c of
        DefaultTok \<Rightarrow> Inr SimpleTokenizer
      | Simple \<Rightarrow> Inr SimpleTokenizer
      | Whitespace \<Rightarrow> Inr WhitespaceTokenizer
      | Raw \<Rightarrow> Inr RawTokenizer
      | Ngram \<Rightarrow>
          res_bind (map_err (InvalidOption ''ngram'')
            (ae_ngram_new E (ngram_min_gram c) (ngram_max_gram c) (ngram_prefix_only c)))
            (\<lambda>_. Inr (NgramTokenizer (ngram_min_gram c) (ngram_max_gram c) (ngram_prefix_only c)))
      | Jieba \<Rightarrow> Inr (JiebaTokenizer (jieba_search_mode c) (jieba_ordinal_position c))
      | Icu \<Rightarrow> Inr (IcuTokenizer False)
      | IcuSplit \<Rightarrow> Inr (IcuTokenizer True))"

definition stop_word_filters :: "analyzer_env \<Rightarrow> tokenizer_config \<Rightarrow> ft_error + token_filter list" where
  "stop_word_filters E c =
     (if \<not> remove_stop_words c then Inr []
      else
        res_bind (parse_language (ae_lower E) (language c)) (\<lambda>lang.
        res_bind
          (if ae_stop_words E lang then Inr [StopWordFilter lang]
           else if stop_words c = [] then
             Inl (InvalidOption ''language'' (quoted ''removing stop words for language '' (language c)
               '' is not supported''))
           else Inr []) (\<lambda>builtin.
        Inr (builtin @ (if stop_words c \<noteq> [] then [StopWordList (stop_words c)] else [])))))"

definition build_text_analyzer :: "analyzer_env \<Rightarrow> tokenizer_config \<Rightarrow> ft_error + text_analyzer" where
  "build_text_analyzer E c =
     res_bind (build_base E c) (\<lambda>base.
     res_bind (if stem c then res_bind (parse_language (ae_lower E) (language c)) (\<lambda>l. Inr [Stemmer l])
               else Inr []) (\<lambda>stemmer.
     res_bind (stop_word_filters E c) (\<lambda>stops.
     Inr (base, [RemoveLongFilter (max_token_length c)]
        @ (if lower_case c then [LowerCaser] else []) @ stemmer @ stops
        @ (if ascii_folding c then [AsciiFoldingFilter] else [])))))"

definition register_tokenizer ::
  "analyzer_env \<Rightarrow> (string \<rightharpoonup> text_analyzer) \<Rightarrow> tokenizer_config \<Rightarrow> ft_error + (string \<rightharpoonup> text_analyzer)" where
  "register_tokenizer E registry c =
     res_bind (build_text_analyzer E c) (\<lambda>a. Inr (registry(tokenizer_name c \<mapsto> a)))"

section \<open>The files of an index\<close>

record index_file =
  if_name :: string
  if_path :: string
  if_length :: u64

record dir_entry =
  de_path :: string
  de_is_file :: "io_error + bool"

text \<open>
  The file system: the listing of a directory (an error, or entries that may each be an error),
  and the length of a file. A path in a listing is valid UTF-8 or not; \<open>fs_file_name\<close> is the
  last component as a string when it is. Paths are sorted as \<^verbatim>\<open>Ord\<close> for \<^verbatim>\<open>Path\<close> does, a parameter
  too (\<open>fs_sort\<close>).
\<close>

record file_system =
  fs_read_dir :: "string \<Rightarrow> io_error + (io_error + dir_entry) list"
  fs_file_name :: "string \<Rightarrow> string option"
  fs_length :: "string \<Rightarrow> io_error + u64"
  fs_sort :: "string list \<Rightarrow> string list"

fun regular_files :: "(io_error + dir_entry) list \<Rightarrow> io_error + string list" where
  "regular_files [] = Inr []"
| "regular_files (entry # entries) =
     res_bind entry (\<lambda>e.
     res_bind (de_is_file e) (\<lambda>is_file.
     res_bind (regular_files entries) (\<lambda>paths.
     Inr (if is_file then de_path e # paths else paths))))"

fun index_files_of :: "file_system \<Rightarrow> string list \<Rightarrow> ft_error + index_file list" where
  "index_files_of fs [] = Inr []"
| "index_files_of fs (path # paths) =
     res_bind (ok_or (InvalidStorage [Lit ''non-utf8 file name'']) (fs_file_name fs path)) (\<lambda>name.
     if ends_with name ''.lock'' then index_files_of fs paths
     else
       res_bind (map_err Io (fs_length fs path)) (\<lambda>len.
       res_bind (index_files_of fs paths) (\<lambda>files.
       Inr (\<lparr>if_name = name, if_path = path, if_length = len\<rparr> # files))))"

definition collect_index_files :: "file_system \<Rightarrow> string \<Rightarrow> ft_error + index_file list" where
  "collect_index_files fs path =
     res_bind (map_err Io (fs_read_dir fs path)) (\<lambda>entries.
     res_bind (map_err Io (regular_files entries)) (\<lambda>paths.
     index_files_of fs (fs_sort fs paths)))"

section \<open>Lemmas\<close>

lemma decl_names: "map decl_name (build_schema c) = row_id_field c # indexed_text_fields c"
  by (simp add: build_schema_def Let_def comp_def)

lemma text_field_map_ok:
  assumes "\<And>n. n \<in> set (text_fields c) \<Longrightarrow> get_field n = Some (f n)"
  shows "text_field_map get_field c = Inr (map (\<lambda>n. (n, f n)) (indexed_text_fields c))"
  unfolding text_field_map_def using assms
  by (intro res_collect_Inr_map) (simp add: indexed_text_fields_def)

lemma validate_indexed_field_Inr:
  "validate_indexed_field c field = Inr u \<longleftrightarrow> \<not> is_blank field \<and> field \<in> set (text_fields c)"
  by (simp add: validate_indexed_field_def indexed_text_fields_def)

lemma index_files_of_Inr:
  "index_files_of fs paths = Inr files \<Longrightarrow>
     map if_path files = filter (\<lambda>p. \<exists>n. fs_file_name fs p = Some n \<and> \<not> ends_with n ''.lock'') paths
     \<and> (\<forall>f \<in> set files. fs_file_name fs (if_path f) = Some (if_name f) \<and> \<not> ends_with (if_name f) ''.lock''
          \<and> fs_length fs (if_path f) = Inr (if_length f))"
proof (induction paths arbitrary: files)
  case (Cons p paths)
  then show ?case by (auto simp: res_simps split: if_splits)
qed simp

section \<open>Properties\<close>

text \<open>
  The schema and the registered analyzer of a valid configuration fit together: every name is
  declared once, the row-id field is stored, fast and no text field, the text fields are the
  configured ones, and each refers to a registered name whose analyzer is the one built
  from the configuration, with positions exactly when the configuration asks for them.
\<close>

theorem schema_registered:
  assumes "validate_config c = Inr ()" and "register_tokenizer E registry (tokenizer c) = Inr registry'"
  shows "distinct (map decl_name (build_schema c))
    \<and> U64Field (row_id_field c) True True True \<in> set (build_schema c)
    \<and> {f. \<exists>ind. TextField f ind \<in> set (build_schema c)} = set (text_fields c)
    \<and> (\<forall>f ind. TextField f ind \<in> set (build_schema c) \<longrightarrow>
         (\<exists>a. registry' (fi_tokenizer ind) = Some a \<and> build_text_analyzer E (tokenizer c) = Inr a)
         \<and> (fi_option ind = WithFreqsAndPositions \<longleftrightarrow> with_position (tokenizer c)))"
proof -
  have "distinct (map decl_name (build_schema c))"
    using assms(1) by (auto simp: decl_names validate_config_Inr indexed_text_fields_def)
  moreover obtain a where "build_text_analyzer E (tokenizer c) = Inr a"
    and "registry' = registry(tokenizer_name (tokenizer c) \<mapsto> a)"
    using assms(2) by (auto simp: register_tokenizer_def res_simps)
  ultimately show ?thesis
    by (auto simp: build_schema_def Let_def indexed_text_fields_def)
qed

definition example_env :: analyzer_env where
  "example_env = \<lparr>ae_lower = id,
     ae_ngram_new = (\<lambda>a b _. if 0 < a \<and> a \<le> b then Inr () else Inl [Lit ''min_gram must be positive'']),
     ae_stop_words = (\<lambda>l. l \<noteq> Arabic)\<rparr>"

lemma example_analyzer:
  "build_text_analyzer example_env (tokenizer example_config)
     = Inr (SimpleTokenizer, [RemoveLongFilter 40, LowerCaser, StopWordFilter English, AsciiFoldingFilter])"
  by code_simp

theorem schema_registered_witness:
  "\<exists>registry'. register_tokenizer example_env Map.empty (tokenizer example_config) = Inr registry'
     \<and> distinct (map decl_name (build_schema example_config))
     \<and> {f. \<exists>ind. TextField f ind \<in> set (build_schema example_config)} = set (text_fields example_config)"
proof -
  have v: "validate_config example_config = Inr ()" by code_simp
  have r: "register_tokenizer example_env Map.empty (tokenizer example_config) =
      Inr [tokenizer_name (tokenizer example_config) \<mapsto>
        (SimpleTokenizer, [RemoveLongFilter 40, LowerCaser, StopWordFilter English, AsciiFoldingFilter])]"
    by (simp add: register_tokenizer_def example_analyzer)
  from schema_registered [OF v r] r show ?thesis by blast
qed

text \<open>The place of a filter in the pipeline.\<close>

fun filter_rank :: "token_filter \<Rightarrow> nat" where
  "filter_rank (RemoveLongFilter _) = 0"
| "filter_rank LowerCaser = 1"
| "filter_rank (Stemmer _) = 2"
| "filter_rank (StopWordFilter _) = 3"
| "filter_rank (StopWordList _) = 4"
| "filter_rank AsciiFoldingFilter = 5"

lemma stop_word_filters_rank:
  "stop_word_filters E c = Inr fs \<Longrightarrow> \<forall>f \<in> set fs. filter_rank f \<in> {3, 4}"
  by (auto simp: stop_word_filters_def res_simps split: if_splits)

lemma stop_word_filters_sorted:
  "stop_word_filters E c = Inr fs \<Longrightarrow> sorted_wrt (\<lambda>f g. filter_rank f < filter_rank g) fs"
  by (auto simp: stop_word_filters_def res_simps split: if_splits)

text \<open>
  Building the analyzer succeeds exactly when the n-gram tokenizer accepts its bounds (for
  that kind), the language is known whenever stemming or stop-word removal needs it, and
  stop words exist for it or are given; the filters of an analyzer each occur at most once, in
  the order length limit, lower case, stemming, stop words of the language, given stop words,
  ASCII folding.
\<close>

theorem build_text_analyzer_iff:
  "((\<exists>a. build_text_analyzer E c = Inr a) \<longleftrightarrow>
     (tok_kind c = Ngram \<longrightarrow> (\<exists>u. ae_ngram_new E (ngram_min_gram c) (ngram_max_gram c) (ngram_prefix_only c) = Inr u))
   \<and> (stem c \<or> remove_stop_words c \<longrightarrow> (\<exists>l. parse_language (ae_lower E) (language c) = Inr l
         \<and> (remove_stop_words c \<longrightarrow> ae_stop_words E l \<or> stop_words c \<noteq> []))))
   \<and> (\<forall>base fs. build_text_analyzer E c = Inr (base, fs)
         \<longrightarrow> sorted_wrt (\<lambda>f g. filter_rank f < filter_rank g) fs)"
proof
  show "(\<exists>a. build_text_analyzer E c = Inr a) \<longleftrightarrow>
     (tok_kind c = Ngram \<longrightarrow> (\<exists>u. ae_ngram_new E (ngram_min_gram c) (ngram_max_gram c) (ngram_prefix_only c) = Inr u))
   \<and> (stem c \<or> remove_stop_words c \<longrightarrow> (\<exists>l. parse_language (ae_lower E) (language c) = Inr l
         \<and> (remove_stop_words c \<longrightarrow> ae_stop_words E l \<or> stop_words c \<noteq> [])))"
    by (cases "tok_kind c"; cases "parse_language (ae_lower E) (language c)")
      (auto simp: build_text_analyzer_def build_base_def stop_word_filters_def res_bind_def map_err_def
        split: sum.splits if_splits)
  show "\<forall>base fs. build_text_analyzer E c = Inr (base, fs)
         \<longrightarrow> sorted_wrt (\<lambda>f g. filter_rank f < filter_rank g) fs"
    by (fastforce simp: build_text_analyzer_def res_simps sorted_wrt_append
        dest: stop_word_filters_rank stop_word_filters_sorted split: if_splits)
qed

theorem build_text_analyzer_iff_witness:
  "\<exists>a. build_text_analyzer example_env default_tokenizer_config = Inr a"
proof -
  have "parse_language (ae_lower example_env) (language default_tokenizer_config) = Inr English"
    "ae_stop_words example_env English" "tok_kind default_tokenizer_config = DefaultTok"
    by code_simp+
  then show ?thesis using build_text_analyzer_iff [of example_env default_tokenizer_config] by auto
qed

end
