(* ===== verification/QueryBuilder.thy ===== *)
theory QueryBuilder
  imports QuerySpec Analyzer
begin

text \<open>
  From a query specification to the query handed to tantivy (\<^verbatim>\<open>build_query\<close> and its helpers in
  \<^verbatim>\<open>core/src/index.rs\<close>). The result is the tree of query objects that the program constructs;
  tantivy's own parts are the record \<open>tantivy_index\<close> (field lookup in the schema, the tokens that
  a registered analyzer produces, and the query parser on one field), a parameter of every
  definition.
\<close>

section \<open>Query trees\<close>

datatype occur = Should | Must | MustNot

datatype ('f, 'q) tquery =
    EmptyQuery
  | TermQuery 'f string index_record_option
  | CappedFuzzyTermQuery 'f string u8 string usize
  | BooleanQuery "(occur \<times> ('f, 'q) tquery) list"
  | BoostQuery "('f, 'q) tquery" f32
  | DemoteQuery "('f, 'q) tquery" "('f, 'q) tquery" f32
  | ParsedQuery 'q

record ('f, 'q) tantivy_index =
  ti_get_field :: "string \<Rightarrow> 'f option"
  ti_tokens :: "string \<Rightarrow> (string \<Rightarrow> string list) option"
  ti_parse :: "'f \<Rightarrow> string \<Rightarrow> message + 'q"

abbreviation invalid_query :: "string \<Rightarrow> ft_error + 'a" where
  "invalid_query msg \<equiv> Inl (InvalidQuery [Lit msg])"

section \<open>Validation\<close>

definition validate_match_options :: "u8 option \<Rightarrow> usize \<Rightarrow> u32 \<Rightarrow> ft_error + unit" where
  "validate_match_options fuzziness max_expansions prefix_length =
     (if 2 < (case fuzziness of None \<Rightarrow> 0 | Some f \<Rightarrow> f) then
        invalid_query ''match query fuzziness must be auto/null or a value in [0, 2]''
      else if max_expansions = 0 then invalid_query ''match query max_expansions must be positive''
      else Inr ())"

definition validate_boost :: "f32 \<Rightarrow> ft_error + unit" where
  "validate_boost boost =
     (if \<not> f32_is_finite boost \<or> f32_le boost f32_zero then
        Inl (InvalidQuery [Lit ''boost must be a finite positive value, got '', ArgF32 boost])
      else Inr ())"

definition validate_multi_match_options ::
  "string list \<Rightarrow> f32 list \<Rightarrow> u8 option \<Rightarrow> usize \<Rightarrow> u32 \<Rightarrow> ft_error + unit" where
  "validate_multi_match_options columns boosts fuzziness max_expansions prefix_length =
     (if columns = [] then invalid_query ''multi_match query must contain at least one column''
      else if boosts \<noteq> [] \<and> length boosts \<noteq> length columns then
        Inl (InvalidQuery [Lit ''multi_match boosts length '', ArgNat (length boosts),
          Lit '' does not match columns length '', ArgNat (length columns)])
      else
        res_bind (res_collect validate_boost boosts) (\<lambda>_.
        validate_match_options fuzziness max_expansions prefix_length))"

definition validate_negative_boost :: "f32 \<Rightarrow> ft_error + unit" where
  "validate_negative_boost negative_boost =
     (if \<not> f32_is_finite negative_boost
         \<or> \<not> (f32_le f32_zero negative_boost \<and> f32_le negative_boost f32_one) then
        Inl (InvalidQuery [Lit ''negative_boost must be a finite value in [0.0, 1.0], got '', ArgF32 negative_boost])
      else Inr ())"

section \<open>Fields and terms\<close>

text \<open>\<^verbatim>\<open>column.map(str::trim).filter(|column| !column.is_empty())\<close>.\<close>

definition given_column :: "string option \<Rightarrow> string option" where
  "given_column column =
     (case map_option trim column of Some c \<Rightarrow> (if c \<noteq> [] then Some c else None) | None \<Rightarrow> None)"

definition resolve_text_field ::
  "('f, 'q) tantivy_index \<Rightarrow> full_text_index_config \<Rightarrow> string option \<Rightarrow> ft_error + 'f" where
  "resolve_text_field ix c column =
     res_bind
       (case given_column column of
          Some col \<Rightarrow> Inr col
        | None \<Rightarrow> (case indexed_text_fields c of
              [field] \<Rightarrow> Inr field
            | _ \<Rightarrow> invalid_query ''full-text query column must be set for multi-field indexes'')) (\<lambda>col.
     if col \<notin> set (indexed_text_fields c) then
       Inl (InvalidQuery (quoted ''full-text query column '' col '' is not configured for this index''))
     else ok_or (InvalidQuery (quoted ''missing text field '' col '''')) (ti_get_field ix col))"

definition resolve_match_fields ::
  "('f, 'q) tantivy_index \<Rightarrow> full_text_index_config \<Rightarrow> string option \<Rightarrow> ft_error + 'f list" where
  "resolve_match_fields ix c column =
     (if given_column column \<noteq> None then
        res_bind (resolve_text_field ix c column) (\<lambda>f. Inr [f])
      else res_collect (\<lambda>field. resolve_text_field ix c (Some field)) (indexed_text_fields c))"

definition analyze_terms ::
  "('f, 'q) tantivy_index \<Rightarrow> full_text_index_config \<Rightarrow> string \<Rightarrow> ft_error + string list" where
  "analyze_terms ix c terms =
     res_bind (ok_or (InvalidQuery (quoted ''tokenizer '' (tokenizer_name (tokenizer c)) '' is not registered''))
       (ti_tokens ix (tokenizer_name (tokenizer c)))) (\<lambda>analyze. Inr (analyze terms))"

definition auto_fuzziness :: "string \<Rightarrow> u8" where
  "auto_fuzziness token =
     (let n = length (char_groups token) in if n \<le> 2 then 0 else if n \<le> 5 then 1 else 2)"

definition build_token_query ::
  "'f \<Rightarrow> string \<Rightarrow> u8 option \<Rightarrow> usize \<Rightarrow> u32 \<Rightarrow> ft_error + ('f, 'q) tquery" where
  "build_token_query field token fuzziness max_expansions prefix_length =
     (let fuzz = (case fuzziness of Some f \<Rightarrow> f | None \<Rightarrow> auto_fuzziness token) in
      if fuzz = 0 then Inr (TermQuery field token WithFreqs)
      else if 2 < fuzz then invalid_query ''match query fuzziness must be auto/null or a value in [0, 2]''
      else Inr (CappedFuzzyTermQuery field token fuzz
        (concat (take (unat prefix_length) (char_groups token))) max_expansions))"

record field_match_options =
  fm_operator :: match_operator
  fm_boost :: f32
  fm_fuzziness :: "u8 option"
  fm_max_expansions :: usize
  fm_prefix_length :: u32

text \<open>The query of the tokens, before the boost.\<close>

definition build_tokens_query ::
  "'f \<Rightarrow> string list \<Rightarrow> field_match_options \<Rightarrow> ft_error + ('f, 'q) tquery" where
  "build_tokens_query field tokens opts =
     (case tokens of
        [] \<Rightarrow> Inr EmptyQuery
      | [token] \<Rightarrow> build_token_query field token (fm_fuzziness opts) (fm_max_expansions opts) (fm_prefix_length opts)
      | _ \<Rightarrow>
          let occur = (case fm_operator opts of OpOr \<Rightarrow> Should | OpAnd \<Rightarrow> Must) in
          res_bind (res_collect (\<lambda>token.
            res_bind (build_token_query field token (fm_fuzziness opts) (fm_max_expansions opts) (fm_prefix_length opts))
              (\<lambda>q. Inr (occur, q))) tokens)
            (\<lambda>children. Inr (BooleanQuery children)))"

definition build_field_match_query ::
  "('f, 'q) tantivy_index \<Rightarrow> full_text_index_config \<Rightarrow> 'f \<Rightarrow> string \<Rightarrow> field_match_options
     \<Rightarrow> ft_error + ('f, 'q) tquery" where
  "build_field_match_query ix c field terms opts =
     res_bind (validate_boost (fm_boost opts)) (\<lambda>_.
     res_bind (analyze_terms ix c terms) (\<lambda>tokens.
     res_bind (build_tokens_query field tokens opts) (\<lambda>query.
     if f32_lt f32_EPSILON (f32_abs (f32_sub (fm_boost opts) f32_one))
     then Inr (BoostQuery query (fm_boost opts)) else Inr query)))"

section \<open>Phrases\<close>

fun decimal :: "nat \<Rightarrow> string" where
  "decimal n = (if n < 10 then [char_of (48 + n)] else decimal (n div 10) @ [char_of (48 + n mod 10)])"

declare decimal.simps [simp del]

definition escape_phrase :: "string \<Rightarrow> string" where
  "escape_phrase terms = replace_char (CHR 0x22) [CHR 0x5C, CHR 0x22] (replace_char (CHR 0x5C) [CHR 0x5C, CHR 0x5C] terms)"

definition phrase_text :: "string \<Rightarrow> u32 \<Rightarrow> string" where
  "phrase_text terms slop =
     (if slop = 0 then [CHR 0x22] @ escape_phrase terms @ [CHR 0x22]
      else [CHR 0x22] @ escape_phrase terms @ [CHR 0x22] @ ''~'' @ decimal (unat slop))"

section \<open>Building\<close>

fun occur_of :: "boolean_occur \<Rightarrow> occur" where
  "occur_of BShould = Should"
| "occur_of BMust = Must"
| "occur_of BMustNot = MustNot"

fun build_columns ::
  "('f, 'q) tantivy_index \<Rightarrow> full_text_index_config \<Rightarrow> string \<Rightarrow> f32 list \<Rightarrow> match_operator \<Rightarrow> u8 option
     \<Rightarrow> usize \<Rightarrow> u32 \<Rightarrow> nat \<Rightarrow> string list \<Rightarrow> ft_error + (occur \<times> ('f, 'q) tquery) list" where
  "build_columns ix c terms boosts op fuzz me pl idx [] = Inr []"
| "build_columns ix c terms boosts op fuzz me pl idx (column # columns) =
     (let boost = (if idx < length boosts then boosts ! idx else f32_one) in
      res_bind (resolve_text_field ix c (Some column)) (\<lambda>field.
      res_bind (build_field_match_query ix c field terms \<lparr>fm_operator = op, fm_boost = boost,
        fm_fuzziness = fuzz, fm_max_expansions = me, fm_prefix_length = pl\<rparr>) (\<lambda>q.
      res_bind (build_columns ix c terms boosts op fuzz me pl (Suc idx) columns) (\<lambda>rest.
      Inr ((Should, q) # rest)))))"

definition single_or_should :: "('f, 'q) tquery list \<Rightarrow> ('f, 'q) tquery" where
  "single_or_should children =
     (case children of [q] \<Rightarrow> q | _ \<Rightarrow> BooleanQuery (map (Pair Should) children))"

lemma size_query_list: "q \<in> set qs \<Longrightarrow> size q < Suc (size_list size qs)"
  by (induction qs) auto

lemma size_query_pairs: "(b, q) \<in> set qs \<Longrightarrow> size q < Suc (size_list (size_prod (\<lambda>_. 0) size) qs)"
  by (induction qs) auto

function build_query ::
  "('f, 'q) tantivy_index \<Rightarrow> full_text_index_config \<Rightarrow> query_spec \<Rightarrow> ft_error + ('f, 'q) tquery" where
  "build_query ix c (QMatch column terms op boost fuzz me pl) =
     res_bind (validate_match_options fuzz me pl) (\<lambda>_.
     res_bind (resolve_match_fields ix c column) (\<lambda>fields.
     let opts = \<lparr>fm_operator = op, fm_boost = boost, fm_fuzziness = fuzz, fm_max_expansions = me,
                 fm_prefix_length = pl\<rparr> in
     res_bind (res_collect (\<lambda>field. build_field_match_query ix c field terms opts) fields) (\<lambda>children.
     Inr (single_or_should children))))"
| "build_query ix c (QMultiMatch terms columns boosts op fuzz me pl) =
     res_bind (validate_multi_match_options columns boosts fuzz me pl) (\<lambda>_.
     res_bind (build_columns ix c terms boosts op fuzz me pl 0 columns) (\<lambda>children.
     Inr (BooleanQuery children)))"
| "build_query ix c (QMatchPhrase column terms slop) =
     (if \<not> with_position (tokenizer c) then invalid_query ''phrase query requires positions''
      else
        res_bind (resolve_text_field ix c column) (\<lambda>field.
        res_bind (map_err InvalidQuery (ti_parse ix field (phrase_text terms slop))) (\<lambda>q.
        Inr (ParsedQuery q))))"
| "build_query ix c (QBoolean should must must_not queries) =
     (if should = [] \<and> must = [] \<and> must_not = [] \<and> queries = [] then
        invalid_query ''boolean query must contain at least one clause''
      else if \<not> (should \<noteq> [] \<or> must \<noteq> [] \<or> list_ex (\<lambda>(occur, _). occur \<in> {BShould, BMust}) queries) then
        invalid_query ''boolean query must contain at least one should or must clause''
      else
        res_bind (res_collect (\<lambda>child. build_query ix c child) should) (\<lambda>qs1.
        res_bind (res_collect (\<lambda>child. build_query ix c child) must) (\<lambda>qs2.
        res_bind (res_collect (\<lambda>child. build_query ix c child) must_not) (\<lambda>qs3.
        res_bind (res_collect (\<lambda>(occur, child). res_bind (build_query ix c child)
            (\<lambda>q. Inr (occur_of occur, q))) queries) (\<lambda>qs4.
        Inr (BooleanQuery (map (Pair Should) qs1 @ map (Pair Must) qs2 @ map (Pair MustNot) qs3 @ qs4)))))))"
| "build_query ix c (QBoost positive negative negative_boost) =
     res_bind (validate_negative_boost negative_boost) (\<lambda>_.
     res_bind (build_query ix c positive) (\<lambda>p.
     res_bind (build_query ix c negative) (\<lambda>n.
     Inr (DemoteQuery p n negative_boost))))"
  by pat_completeness auto

termination
  by (relation "measure (\<lambda>(_, _, q). size q)")
    (auto dest: size_query_list size_query_pairs simp: less_Suc_eq_le size_list_estimation')

section \<open>Phrase literals\<close>

text \<open>
  How a quoted literal is read: a backslash takes the next character as it is, an unescaped
  quote ends the literal; the result is the content and the rest of the text.
\<close>

fun scan_literal :: "string \<Rightarrow> (string \<times> string) option" where
  "scan_literal [] = None"
| "scan_literal (c # cs) =
     (if c = CHR 0x22 then Some ([], cs)
      else if c = CHR 0x5C then (case cs of [] \<Rightarrow> None
         | d # ds \<Rightarrow> map_option (\<lambda>(s, rest). (d # s, rest)) (scan_literal ds))
      else map_option (\<lambda>(s, rest). (c # s, rest)) (scan_literal cs))"

lemma escape_phrase_simps [simp]:
  "escape_phrase [] = []"
  "escape_phrase (c # cs) = (if c = CHR 0x5C \<or> c = CHR 0x22 then [CHR 0x5C, c] else [c]) @ escape_phrase cs"
  by (simp_all add: escape_phrase_def replace_char_def)

lemma scan_escape: "scan_literal (escape_phrase s @ CHR 0x22 # rest) = Some (s, rest)"
  by (induction s) auto

lemma digit_char: "n < 10 \<Longrightarrow> digit_value (char_of (48 + n)) = Some n"
  by (simp add: digit_value_def)

lemma parse_digits_append:
  "parse_digits acc (xs @ ys) = (case parse_digits acc xs of None \<Rightarrow> None | Some a \<Rightarrow> parse_digits a ys)"
  by (induction xs arbitrary: acc) (auto split: option.splits)

lemma parse_decimal: "n < 2 ^ 64 \<Longrightarrow> parse_digits 0 (decimal n) = Some n"
proof (induction n rule: decimal.induct)
  case (1 n)
  show ?case
  proof (cases "n < 10")
    case True
    then show ?thesis using digit_char [of n] by (simp add: decimal.simps [of n])
  next
    case False
    have "parse_digits 0 (decimal (n div 10)) = Some (n div 10)"
      using 1 False by (simp add: div_le_dividend le_less_trans [OF div_le_dividend])
    then show ?thesis
      using digit_char [of "n mod 10"] False "1.prems"
      by (simp add: decimal.simps [of n] parse_digits_append)
  qed
qed

section \<open>Helper lemmas\<close>

lemma given_column_Some: "given_column column = Some c \<longleftrightarrow> (\<exists>s. column = Some s \<and> trim s = c \<and> c \<noteq> [])"
  by (auto simp: given_column_def split: option.splits)

lemma given_column_None: "given_column column = None \<longleftrightarrow> (\<forall>s. column = Some s \<longrightarrow> trim s = [])"
  by (auto simp: given_column_def split: option.splits)

lemma resolve_text_field_Inr:
  "resolve_text_field ix c column = Inr f \<Longrightarrow> \<exists>n \<in> set (text_fields c). ti_get_field ix n = Some f"
  by (auto simp: resolve_text_field_def res_simps indexed_text_fields_def split: if_splits option.splits)

lemma resolve_match_fields_Inr:
  assumes "resolve_match_fields ix c column = Inr fs" and "text_fields c \<noteq> []"
  shows "fs \<noteq> []" and "f \<in> set fs \<Longrightarrow> \<exists>n \<in> set (text_fields c). ti_get_field ix n = Some f"
proof -
  show "fs \<noteq> []"
    using assms by (auto simp: resolve_match_fields_def res_simps indexed_text_fields_def
        dest: res_collect_length split: if_splits)
  show "f \<in> set fs \<Longrightarrow> \<exists>n \<in> set (text_fields c). ti_get_field ix n = Some f"
    using assms(1) by (auto simp: resolve_match_fields_def res_simps res_collect_Inr list_all2_conv_all_nth
        in_set_conv_nth dest: resolve_text_field_Inr split: if_splits)
qed

fun tree_ok :: "'f set \<Rightarrow> ('f, 'q) tquery \<Rightarrow> bool" where
  "tree_ok F EmptyQuery \<longleftrightarrow> True"
| "tree_ok F (TermQuery f t opt) \<longleftrightarrow> f \<in> F"
| "tree_ok F (CappedFuzzyTermQuery f t fuzz prefix me) \<longleftrightarrow>
     f \<in> F \<and> (fuzz = 1 \<or> fuzz = 2) \<and> me \<noteq> 0 \<and> take (length prefix) t = prefix"
| "tree_ok F (BooleanQuery cs) \<longleftrightarrow>
     (\<forall>x \<in> set cs. tree_ok F (snd x)) \<and> (\<exists>x \<in> set cs. fst x \<noteq> MustNot)"
| "tree_ok F (BoostQuery q b) \<longleftrightarrow> tree_ok F q \<and> (\<exists>s r. b = Finite s r \<and> 0 < f32_signed s r)"
| "tree_ok F (DemoteQuery p n b) \<longleftrightarrow>
     tree_ok F p \<and> tree_ok F n \<and> (\<exists>s r. b = Finite s r \<and> 0 \<le> f32_signed s r \<and> f32_signed s r \<le> 1)"
| "tree_ok F (ParsedQuery q) \<longleftrightarrow> True"

lemma validate_boost_Inr:
  "validate_boost b = Inr u \<longleftrightarrow> (\<exists>s r. b = Finite s r \<and> 0 < f32_signed s r)"
  by (cases b) (auto simp: validate_boost_def f32_zero_def)

lemma validate_negative_boost_Inr:
  "validate_negative_boost b = Inr u \<longleftrightarrow> (\<exists>s r. b = Finite s r \<and> 0 \<le> f32_signed s r \<and> f32_signed s r \<le> 1)"
  by (cases b) (auto simp: validate_negative_boost_def f32_zero_def f32_one_def)

lemma validate_match_options_Inr:
  "validate_match_options fuzz me pl = Inr u \<longleftrightarrow> (\<forall>f. fuzz = Some f \<longrightarrow> f \<le> 2) \<and> me \<noteq> 0"
  by (auto simp: validate_match_options_def not_less split: option.splits)

lemma u8_le_2: "(f :: u8) \<noteq> 0 \<Longrightarrow> f \<le> 2 \<Longrightarrow> f = 1 \<or> f = 2"
  by unat_arith

lemma token_query_ok:
  assumes "build_token_query f t fuzz me pl = Inr q" and "me \<noteq> 0" and "f \<in> F"
  shows "tree_ok F q"
proof -
  have prefix: "take (length (concat (take n (char_groups t)))) t = concat (take n (char_groups t))" for n
    by (metis append_eq_conv_conj append_take_drop_id concat_append concat_char_groups)
  show ?thesis
    using assms u8_le_2 prefix
    by (auto simp: build_token_query_def Let_def not_less split: if_splits option.splits)
qed

definition token_occur :: "field_match_options \<Rightarrow> occur" where
  "token_occur opts = (case fm_operator opts of OpOr \<Rightarrow> Should | OpAnd \<Rightarrow> Must)"

abbreviation token_query_of where
  "token_query_of field opts t \<equiv>
     build_token_query field t (fm_fuzziness opts) (fm_max_expansions opts) (fm_prefix_length opts)"

lemma tokens_query_cases:
  assumes "build_tokens_query field tokens opts = Inr q"
  obtains "tokens = []" and "q = EmptyQuery"
  | t where "tokens = [t]" and "token_query_of field opts t = Inr q"
  | qs where "2 \<le> length tokens" and "res_collect (token_query_of field opts) tokens = Inr qs"
      and "q = BooleanQuery (map (Pair (token_occur opts)) qs)"
proof -
  consider "tokens = []" | t where "tokens = [t]" | a b ts where "tokens = a # b # ts"
    by (metis list.exhaust)
  then show thesis
  proof cases
    case 3
    then obtain children where "res_collect (\<lambda>token. res_bind (token_query_of field opts token)
        (\<lambda>q. Inr (token_occur opts, q))) tokens = Inr children" and q: "q = BooleanQuery children"
      using assms by (auto simp: build_tokens_query_def token_occur_def Let_def res_bind_Inr simp del: res_collect.simps)
    then obtain qs where qs: "res_collect (token_query_of field opts) tokens = Inr qs"
      and children: "children = zip (map (\<lambda>_. token_occur opts) tokens) qs"
      unfolding res_collect_tag by (auto simp: res_bind_Inr)
    have "children = map (Pair (token_occur opts)) qs"
      unfolding children using res_collect_length [OF qs] by (simp add: map_replicate_const zip_replicate1)
    with that(3) [OF _ qs] q 3 show thesis by simp
  qed (use assms that in \<open>auto simp: build_tokens_query_def\<close>)
qed

lemma tokens_query_ok:
  assumes "build_tokens_query f tokens opts = Inr q" and "fm_max_expansions opts \<noteq> 0" and "f \<in> F"
  shows "tree_ok F q"
proof (cases rule: tokens_query_cases [OF assms(1)])
  case (3 qs)
  have "\<forall>x \<in> set qs. tree_ok F x"
    using res_collect_set [OF 3(2)] token_query_ok assms(2,3) by metis
  moreover have "qs \<noteq> []" using 3(1) res_collect_length [OF 3(2)] by auto
  ultimately show ?thesis
    by (cases qs) (auto simp: 3(3) token_occur_def split: match_operator.splits)
qed (use assms token_query_ok in auto)

lemma field_match_Inr:
  assumes "build_field_match_query ix c f terms opts = Inr q"
  obtains tokens core where "validate_boost (fm_boost opts) = Inr ()" and "analyze_terms ix c terms = Inr tokens"
    and "build_tokens_query f tokens opts = Inr core" and "q = core \<or> q = BoostQuery core (fm_boost opts)"
  using assms that by (auto simp: build_field_match_query_def res_simps split: if_splits)

lemma field_match_ok:
  assumes "build_field_match_query ix c f terms opts = Inr q" and "fm_max_expansions opts \<noteq> 0" and "f \<in> F"
  shows "tree_ok F q"
  using assms(1)
proof (rule field_match_Inr)
  fix tokens core
  assume "validate_boost (fm_boost opts) = Inr ()" "build_tokens_query f tokens opts = Inr core"
    "q = core \<or> q = BoostQuery core (fm_boost opts)"
  then show ?thesis using tokens_query_ok [OF _ assms(2,3)] by (auto simp: validate_boost_Inr)
qed

definition configured_fields :: "('f, 'q) tantivy_index \<Rightarrow> full_text_index_config \<Rightarrow> 'f set" where
  "configured_fields ix c = {f. \<exists>n \<in> set (text_fields c). ti_get_field ix n = Some f}"

lemma build_columns_ok:
  assumes "build_columns ix c terms boosts op fuzz me pl idx cols = Inr cs" and "me \<noteq> 0"
  shows "length cs = length cols \<and> (\<forall>x \<in> set cs. fst x = Should \<and> tree_ok (configured_fields ix c) (snd x))"
  using assms
proof (induction cols arbitrary: idx cs)
  case (Cons col cols)
  then obtain f opts q rest where f: "resolve_text_field ix c (Some col) = Inr f"
    and q: "build_field_match_query ix c f terms opts = Inr q" "fm_max_expansions opts = me"
    and rest: "build_columns ix c terms boosts op fuzz me pl (Suc idx) cols = Inr rest"
    and cs: "cs = (Should, q) # rest"
    by (auto simp: res_simps Let_def)
  have "tree_ok (configured_fields ix c) q"
    using field_match_ok [OF q(1)] q(2) Cons.prems(2) resolve_text_field_Inr [OF f]
    by (simp add: configured_fields_def)
  with Cons.IH [OF rest Cons.prems(2)] show ?case by (simp add: cs)
qed simp

lemma match_tree_ok:
  assumes "build_query ix c (QMatch column terms op boost fuzz me pl) = Inr t" and "text_fields c \<noteq> []"
  shows "tree_ok (configured_fields ix c) t"
proof -
  let ?opts = "\<lparr>fm_operator = op, fm_boost = boost, fm_fuzziness = fuzz, fm_max_expansions = me, fm_prefix_length = pl\<rparr>"
  obtain fields children where me: "me \<noteq> 0" and fields: "resolve_match_fields ix c column = Inr fields"
    and ch: "res_collect (\<lambda>field. build_field_match_query ix c field terms ?opts) fields = Inr children"
    and t: "t = single_or_should children"
    using assms(1) by (auto simp: res_simps validate_match_options_Inr Let_def)
  have ok: "tree_ok (configured_fields ix c) x" if x: "x \<in> set children" for x
    using res_collect_set [OF ch x] field_match_ok [where F = "configured_fields ix c"] me
      resolve_match_fields_Inr(2) [OF fields assms(2)] by (fastforce simp: configured_fields_def)
  have "children \<noteq> []"
    using resolve_match_fields_Inr(1) [OF fields assms(2)] res_collect_length [OF ch] by auto
  with ok show ?thesis by (auto simp: t single_or_should_def neq_Nil_conv split: list.splits)
qed

lemma boolean_Inr:
  assumes "build_query ix c (QBoolean should must must_not queries) = Inr t"
  obtains qs1 qs2 qs3 qs4 where "res_collect (build_query ix c) should = Inr qs1"
    and "res_collect (build_query ix c) must = Inr qs2" and "res_collect (build_query ix c) must_not = Inr qs3"
    and "res_collect (\<lambda>(occur, child). res_bind (build_query ix c child) (\<lambda>q. Inr (occur_of occur, q))) queries = Inr qs4"
    and "should \<noteq> [] \<or> must \<noteq> [] \<or> (\<exists>x \<in> set queries. fst x \<noteq> BMustNot)"
    and "t = BooleanQuery (map (Pair Should) qs1 @ map (Pair Must) qs2 @ map (Pair MustNot) qs3 @ qs4)"
proof -
  have "fst x \<noteq> BMustNot \<longleftrightarrow> (case x of (occur, _) \<Rightarrow> occur \<in> {BShould, BMust})"
    for x :: "boolean_occur \<times> query_spec" by (cases x; cases "fst x") auto
  then show thesis using assms that by (auto simp: res_simps list_ex_iff split: if_splits)
qed

lemma boolean_tree_ok:
  assumes t: "build_query ix c (QBoolean should must must_not queries) = Inr t"
    and IH: "\<And>q t. q \<in> set should \<union> set must \<union> set must_not \<union> snd ` set queries \<Longrightarrow>
        build_query ix c q = Inr t \<Longrightarrow> tree_ok F t"
  shows "tree_ok F t"
  using t
proof (rule boolean_Inr)
  fix qs1 qs2 qs3 qs4
  assume qs: "res_collect (build_query ix c) should = Inr qs1" "res_collect (build_query ix c) must = Inr qs2"
      "res_collect (build_query ix c) must_not = Inr qs3"
      "res_collect (\<lambda>(occur, child). res_bind (build_query ix c child) (\<lambda>q. Inr (occur_of occur, q))) queries = Inr qs4"
    and pos: "should \<noteq> [] \<or> must \<noteq> [] \<or> (\<exists>x \<in> set queries. fst x \<noteq> BMustNot)"
    and t: "t = BooleanQuery (map (Pair Should) qs1 @ map (Pair Must) qs2 @ map (Pair MustNot) qs3 @ qs4)"
  have ok: "tree_ok F x" if "x \<in> set qs1 \<union> set qs2 \<union> set qs3" for x
    using that res_collect_set [OF qs(1)] res_collect_set [OF qs(2)] res_collect_set [OF qs(3)] IH by blast
  have ok4: "tree_ok F (snd x)" if "x \<in> set qs4" for x
    using res_collect_set [OF qs(4) that] by (clarsimp simp: res_bind_Inr) (metis IH UnI2 imageI snd_conv)
  have "\<exists>x \<in> set qs1. True" if "should \<noteq> []" using that res_collect_length [OF qs(1)] by (cases qs1) auto
  moreover have "\<exists>x \<in> set qs2. True" if "must \<noteq> []" using that res_collect_length [OF qs(2)] by (cases qs2) auto
  moreover have "\<exists>y \<in> set qs4. fst y \<noteq> MustNot" if x: "x \<in> set queries" "fst x \<noteq> BMustNot" for x
  proof -
    obtain y where "y \<in> set qs4" "fst y = occur_of (fst x)"
      using res_collect_img [OF qs(4) x(1)] by (cases x) (auto simp: res_bind_Inr)
    moreover have "occur_of (fst x) \<noteq> MustNot" using x(2) by (cases "fst x") auto
    ultimately show ?thesis by (intro bexI [of _ y]) auto
  qed
  ultimately have "(\<exists>x \<in> set qs1. True) \<or> (\<exists>x \<in> set qs2. True) \<or> (\<exists>y \<in> set qs4. fst y \<noteq> MustNot)"
    using pos by blast
  then have "\<exists>x \<in> set (map (Pair Should) qs1 @ map (Pair Must) qs2 @ map (Pair MustNot) qs3 @ qs4). fst x \<noteq> MustNot"
    by (auto simp: bex_Un)
  moreover have "\<forall>x \<in> set (map (Pair Should) qs1 @ map (Pair Must) qs2 @ map (Pair MustNot) qs3 @ qs4). tree_ok F (snd x)"
    using ok ok4 by auto
  ultimately show ?thesis unfolding t by (simp only: tree_ok.simps simp_thms)
qed

section \<open>Properties\<close>

text \<open>
  C29. User terms cannot leave their quotes: the text that a phrase query hands to the query
  parser is a quoted literal whose content, read with backslash escapes, is exactly the given
  terms, whatever quotes and backslashes they contain, followed by nothing, or by a tilde and
  the decimal digits of the slop.
\<close>

theorem phrase_text_quotes:
  "\<exists>literal. phrase_text terms slop = CHR 0x22 # literal \<and>
     (if slop = 0 then scan_literal literal = Some (terms, [])
      else \<exists>digits. scan_literal literal = Some (terms, CHR ''~'' # digits)
             \<and> parse_digits 0 digits = Some (unat slop))"
proof (cases "slop = 0")
  case True
  then show ?thesis using scan_escape [of terms "[]"] by (simp add: phrase_text_def)
next
  case False
  have "unat slop < 2 ^ 32" using unsigned_less [of slop] by (simp only: len_of_numeral_defs) simp
  then have "unat slop < 2 ^ 64" by simp
  then have "parse_digits 0 (decimal (unat slop)) = Some (unat slop)" by (rule parse_decimal)
  with False scan_escape [of terms "CHR ''~'' # decimal (unat slop)"] show ?thesis
    by (simp add: phrase_text_def)
qed

text \<open>
  C28. Every query tree that is built is well formed: it refers only to fields of configured
  text columns, fuzzy terms have distance one or two, a positive number of expansions and a
  prefix of their term, boolean queries have a clause that is not negated, boosts are finite
  and positive, and demotion factors lie between zero and one.
\<close>

theorem build_query_tree_ok:
  assumes "build_query ix c q = Inr t" and "text_fields c \<noteq> []"
  shows "tree_ok (configured_fields ix c) t"
  using assms
proof (induction q arbitrary: t)
  case (QMatch column terms op boost fuzz me pl)
  then show ?case by (rule match_tree_ok)
next
  case (QMultiMatch terms columns boosts op fuzz me pl)
  then obtain cs where "me \<noteq> 0" "columns \<noteq> []" and cs: "build_columns ix c terms boosts op fuzz me pl 0 columns = Inr cs"
    and t: "t = BooleanQuery cs"
    by (auto simp: res_simps validate_multi_match_options_def validate_match_options_Inr split: if_splits)
  with build_columns_ok [OF cs] show ?case by (cases cs) (auto simp: t)
next
  case (QMatchPhrase column terms slop)
  then show ?case by (auto simp: res_simps split: if_splits)
next
  case (QBoolean should must must_not queries)
  then show ?case by (intro boolean_tree_ok [OF QBoolean.prems(1)]) fastforce
next
  case (QBoost positive negative negative_boost)
  then show ?case by (auto simp: res_simps validate_negative_boost_Inr)
qed

section \<open>When building succeeds\<close>

definition index_serves :: "('f, 'q) tantivy_index \<Rightarrow> full_text_index_config \<Rightarrow> bool" where
  "index_serves ix c \<longleftrightarrow> text_fields c \<noteq> []
     \<and> (\<forall>n \<in> set (text_fields c). trim n = n \<and> n \<noteq> [] \<and> ti_get_field ix n \<noteq> None)
     \<and> ti_tokens ix (tokenizer_name (tokenizer c)) \<noteq> None"

definition column_ok :: "full_text_index_config \<Rightarrow> string option \<Rightarrow> bool" where
  "column_ok c column \<longleftrightarrow>
     (case given_column column of Some col \<Rightarrow> col \<in> set (text_fields c) | None \<Rightarrow> \<exists>n. set (text_fields c) = {n})"

definition options_ok :: "u8 option \<Rightarrow> usize \<Rightarrow> bool" where
  "options_ok fuzz me \<longleftrightarrow> (\<forall>f. fuzz = Some f \<longrightarrow> f \<le> 2) \<and> me \<noteq> 0"

definition boost_ok :: "f32 \<Rightarrow> bool" where
  "boost_ok b \<longleftrightarrow> (\<exists>s r. b = Finite s r \<and> 0 < f32_signed s r)"

fun spec_ok :: "('f, 'q) tantivy_index \<Rightarrow> full_text_index_config \<Rightarrow> query_spec \<Rightarrow> bool" where
  "spec_ok ix c (QMatch column terms op boost fuzz me pl) \<longleftrightarrow>
     options_ok fuzz me \<and> boost_ok boost \<and> (given_column column = None \<or> column_ok c column)"
| "spec_ok ix c (QMultiMatch terms columns boosts op fuzz me pl) \<longleftrightarrow>
     columns \<noteq> [] \<and> (boosts = [] \<or> length boosts = length columns) \<and> (\<forall>b \<in> set boosts. boost_ok b)
     \<and> options_ok fuzz me \<and> (\<forall>col \<in> set columns. column_ok c (Some col))"
| "spec_ok ix c (QMatchPhrase column terms slop) \<longleftrightarrow>
     with_position (tokenizer c) \<and> column_ok c column
     \<and> (\<forall>f. resolve_text_field ix c column = Inr f \<longrightarrow> (\<exists>q. ti_parse ix f (phrase_text terms slop) = Inr q))"
| "spec_ok ix c (QBoolean should must must_not queries) \<longleftrightarrow>
     (should \<noteq> [] \<or> must \<noteq> [] \<or> (\<exists>x \<in> set queries. fst x \<noteq> BMustNot))
     \<and> (\<forall>q \<in> set should. spec_ok ix c q) \<and> (\<forall>q \<in> set must. spec_ok ix c q)
     \<and> (\<forall>q \<in> set must_not. spec_ok ix c q) \<and> (\<forall>x \<in> set queries. spec_ok ix c (snd x))"
| "spec_ok ix c (QBoost p n b) \<longleftrightarrow>
     spec_ok ix c p \<and> spec_ok ix c n \<and> (\<exists>s r. b = Finite s r \<and> 0 \<le> f32_signed s r \<and> f32_signed s r \<le> 1)"

definition succeeds :: "'e + 'a \<Rightarrow> bool" where
  "succeeds r \<longleftrightarrow> (\<exists>x. r = Inr x)"

lemma succeeds_simps [simp]:
  "succeeds (Inr x)" "\<not> succeeds (Inl e)"
  "succeeds (map_err g r) \<longleftrightarrow> succeeds r" "succeeds (ok_or e x') \<longleftrightarrow> x' \<noteq> None"
  by (auto simp: succeeds_def res_simps)

lemma succeeds_bind: "succeeds (res_bind r f) \<longleftrightarrow> (\<exists>x. r = Inr x \<and> succeeds (f x))"
  by (auto simp: succeeds_def res_simps)

lemma succeeds_collect: "succeeds (res_collect f xs) \<longleftrightarrow> (\<forall>x \<in> set xs. succeeds (f x))"
  by (induction xs) (auto simp: succeeds_def split: sum.splits)

lemma succeeds_bind_const: "(\<And>x y. succeeds (f x) \<longleftrightarrow> succeeds (f y)) \<Longrightarrow>
    succeeds (res_bind r f) \<longleftrightarrow> succeeds r \<and> (\<forall>x. succeeds (f x))"
  by (auto simp: succeeds_def res_simps)

lemma resolve_succeeds:
  assumes "index_serves ix c"
  shows "succeeds (resolve_text_field ix c column) \<longleftrightarrow> column_ok c column"
proof -
  have one: "(\<exists>n. indexed_text_fields c = [n]) \<longleftrightarrow> (\<exists>n. set (text_fields c) = {n})"
  proof
    assume "\<exists>n. set (text_fields c) = {n}"
    then obtain n where n: "set (indexed_text_fields c) = {n}" by (auto simp: indexed_text_fields_def)
    have "distinct (indexed_text_fields c)" by (simp add: indexed_text_fields_def)
    then have "length (indexed_text_fields c) = 1" using n by (metis distinct_card card_1_singleton_iff One_nat_def)
    then show "\<exists>n. indexed_text_fields c = [n]" by (auto simp: length_Suc_conv)
  qed (metis indexed_text_fields_def set_dedup(2) list.set(1) list.set(2))
  show ?thesis
  proof (cases "given_column column")
    case (Some col)
    then show ?thesis
      using assms by (auto simp: resolve_text_field_def column_ok_def indexed_text_fields_def index_serves_def)
  next
    case None
    have "n \<in> set (text_fields c)" if "indexed_text_fields c = [n]" for n
      using that set_dedup(2) [of "text_fields c"] by (auto simp: indexed_text_fields_def)
    with assms None have "succeeds (resolve_text_field ix c column) \<longleftrightarrow> (\<exists>n. indexed_text_fields c = [n])"
      by (auto simp: resolve_text_field_def index_serves_def succeeds_bind split: list.splits)
    then show ?thesis using None one by (simp add: column_ok_def)
  qed
qed

lemma resolve_match_succeeds:
  assumes "index_serves ix c"
  shows "succeeds (resolve_match_fields ix c column) \<longleftrightarrow> given_column column = None \<or> column_ok c column"
proof (cases "given_column column")
  case None
  have "column_ok c (Some f)" if "f \<in> set (text_fields c)" for f
    using assms that by (simp add: column_ok_def index_serves_def given_column_def)
  with None assms show ?thesis
    by (auto simp: resolve_match_fields_def succeeds_collect resolve_succeeds indexed_text_fields_def)
next
  case (Some col)
  then show ?thesis
    by (auto simp: resolve_match_fields_def resolve_succeeds [OF assms, symmetric] succeeds_bind) (auto simp: succeeds_def)
qed

lemma token_query_succeeds:
  "options_ok fuzz me \<Longrightarrow> succeeds (build_token_query f t fuzz me pl)"
  by (auto simp: build_token_query_def options_ok_def auto_fuzziness_def Let_def not_less split: option.splits)

lemma field_match_succeeds:
  assumes "index_serves ix c" and "options_ok (fm_fuzziness opts) (fm_max_expansions opts)"
  shows "succeeds (build_field_match_query ix c f terms opts) \<longleftrightarrow> boost_ok (fm_boost opts)"
proof -
  have tok: "succeeds (token_query_of f opts t)" for t by (rule token_query_succeeds [OF assms(2)])
  have "succeeds (build_tokens_query f tokens opts)" for tokens
    using tok by (auto simp: build_tokens_query_def Let_def succeeds_bind_const succeeds_collect
        simp del: res_collect.simps split: list.splits)
  moreover have "succeeds (analyze_terms ix c terms)"
    using assms(1) by (auto simp: analyze_terms_def index_serves_def)
  moreover have "succeeds (validate_boost (fm_boost opts)) \<longleftrightarrow> boost_ok (fm_boost opts)"
    by (auto simp: succeeds_def validate_boost_Inr boost_ok_def)
  ultimately show ?thesis
    by (auto simp: build_field_match_query_def succeeds_bind)  (auto simp: succeeds_def)
qed

lemma succeeds_validate:
  "succeeds (validate_match_options fuzz me pl) \<longleftrightarrow> options_ok fuzz me"
  "succeeds (validate_boost b) \<longleftrightarrow> boost_ok b"
  "succeeds (validate_negative_boost b) \<longleftrightarrow> (\<exists>s r. b = Finite s r \<and> 0 \<le> f32_signed s r \<and> f32_signed s r \<le> 1)"
  by (auto simp: succeeds_def validate_match_options_Inr options_ok_def validate_boost_Inr boost_ok_def
      validate_negative_boost_Inr)

lemma succeeds_multi:
  "succeeds (validate_multi_match_options columns boosts fuzz me pl) \<longleftrightarrow>
     columns \<noteq> [] \<and> (boosts = [] \<or> length boosts = length columns) \<and> (\<forall>b \<in> set boosts. boost_ok b)
     \<and> options_ok fuzz me"
  by (auto simp: validate_multi_match_options_def succeeds_bind_const succeeds_collect succeeds_validate)

lemma columns_succeed:
  assumes "index_serves ix c" and "options_ok fuzz me" and "\<forall>b \<in> set boosts. boost_ok b"
  shows "succeeds (build_columns ix c terms boosts op fuzz me pl idx cols)
     \<longleftrightarrow> (\<forall>col \<in> set cols. column_ok c (Some col))"
proof (induction cols arbitrary: idx)
  case (Cons col cols)
  let ?boost = "if idx < length boosts then boosts ! idx else f32_one"
  have "boost_ok ?boost" using assms(3) by (auto simp: boost_ok_def f32_one_def)
  then have "succeeds (build_field_match_query ix c f terms \<lparr>fm_operator = op, fm_boost = ?boost,
        fm_fuzziness = fuzz, fm_max_expansions = me, fm_prefix_length = pl\<rparr>)" for f
    using field_match_succeeds [OF assms(1)] assms(2) by simp
  with Cons show ?case
    by (simp add: Let_def succeeds_bind_const resolve_succeeds [OF assms(1)])
qed simp

lemma serves_fields: "index_serves ix c \<Longrightarrow> text_fields c \<noteq> []"
  by (simp add: index_serves_def)

lemma bind_both:
  assumes "\<And>x. r = Inr x \<Longrightarrow> succeeds (f x) \<longleftrightarrow> P"
  shows "succeeds (res_bind r f) \<longleftrightarrow> succeeds r \<and> P"
  using assms by (cases r) simp_all

lemma match_succeeds:
  assumes "index_serves ix c"
  shows "succeeds (build_query ix c (QMatch column terms op boost fuzz me pl)) \<longleftrightarrow>
     spec_ok ix c (QMatch column terms op boost fuzz me pl)"
proof (cases "options_ok fuzz me")
  case True
  let ?opts = "\<lparr>fm_operator = op, fm_boost = boost, fm_fuzziness = fuzz, fm_max_expansions = me, fm_prefix_length = pl\<rparr>"
  have each: "succeeds (res_bind (res_collect (\<lambda>field. build_field_match_query ix c field terms ?opts) fields)
      (\<lambda>children. Inr (single_or_should children))) \<longleftrightarrow> boost_ok boost"
    if "resolve_match_fields ix c column = Inr fields" for fields
  proof -
    have "fields \<noteq> []" by (rule resolve_match_fields_Inr(1) [OF that serves_fields [OF assms]])
    then show ?thesis
      using field_match_succeeds [OF assms, of ?opts] True
      by (simp add: succeeds_bind_const succeeds_collect del: res_collect.simps) (cases fields, auto)
  qed
  have "succeeds (build_query ix c (QMatch column terms op boost fuzz me pl)) \<longleftrightarrow>
      succeeds (resolve_match_fields ix c column) \<and> boost_ok boost"
    using True by (simp add: succeeds_bind_const succeeds_validate Let_def) (rule bind_both [OF each])
  with True resolve_match_succeeds [OF assms] show ?thesis by auto
next
  case False
  then show ?thesis by (simp add: succeeds_bind_const succeeds_validate)
qed

section \<open>What a query matches\<close>

text \<open>
  The documented meaning of tantivy's query objects, relative to the meaning of the leaves: a
  boolean query requires its must clauses, excludes its must-not clauses and, without a must
  clause, needs one of its should clauses.
\<close>

record ('f, 'q, 'd) leaf_semantics =
  sem_term :: "'f \<Rightarrow> string \<Rightarrow> 'd \<Rightarrow> bool"
  sem_fuzzy :: "'f \<Rightarrow> string \<Rightarrow> u8 \<Rightarrow> string \<Rightarrow> usize \<Rightarrow> 'd \<Rightarrow> bool"
  sem_parsed :: "'q \<Rightarrow> 'd \<Rightarrow> bool"

fun tmatches :: "('f, 'q, 'd) leaf_semantics \<Rightarrow> 'd \<Rightarrow> ('f, 'q) tquery \<Rightarrow> bool" where
  "tmatches S d EmptyQuery \<longleftrightarrow> False"
| "tmatches S d (TermQuery f t opt) \<longleftrightarrow> sem_term S f t d"
| "tmatches S d (CappedFuzzyTermQuery f t fuzz prefix me) \<longleftrightarrow> sem_fuzzy S f t fuzz prefix me d"
| "tmatches S d (BooleanQuery cs) \<longleftrightarrow>
     (\<forall>x \<in> set cs. (fst x = Must \<longrightarrow> tmatches S d (snd x)) \<and> (fst x = MustNot \<longrightarrow> \<not> tmatches S d (snd x)))
     \<and> ((\<exists>x \<in> set cs. fst x = Must) \<or> (\<exists>x \<in> set cs. fst x = Should \<and> tmatches S d (snd x)))"
| "tmatches S d (BoostQuery q b) \<longleftrightarrow> tmatches S d q"
| "tmatches S d (DemoteQuery p n b) \<longleftrightarrow> tmatches S d p"
| "tmatches S d (ParsedQuery q) \<longleftrightarrow> sem_parsed S q d"

definition tokens_match :: "('f, 'q, 'd) leaf_semantics \<Rightarrow> match_operator \<Rightarrow> 'f \<Rightarrow> string list \<Rightarrow> 'd \<Rightarrow> bool" where
  "tokens_match S op f tokens d \<longleftrightarrow>
     (case op of OpOr \<Rightarrow> \<exists>t \<in> set tokens. sem_term S f t d
      | OpAnd \<Rightarrow> tokens \<noteq> [] \<and> (\<forall>t \<in> set tokens. sem_term S f t d))"

lemma token_query_exact: "build_token_query f t (Some 0) me pl = Inr (TermQuery f t WithFreqs)"
  by (simp add: build_token_query_def)

lemma tokens_query_matches:
  assumes "build_tokens_query f tokens opts = Inr q" and exact: "fm_fuzziness opts = Some 0"
  shows "tmatches S d q \<longleftrightarrow> tokens_match S (fm_operator opts) f tokens d"
proof (cases rule: tokens_query_cases [OF assms(1)])
  case (3 qs)
  have "Inr qs = (Inr (map (\<lambda>t. TermQuery f t WithFreqs) tokens) :: ft_error + _)"
    unfolding 3(2) [symmetric] by (rule res_collect_Inr_map) (simp add: exact token_query_exact)
  then have "qs = map (\<lambda>t. TermQuery f t WithFreqs) tokens" by simp
  with 3 show ?thesis
    by (cases "fm_operator opts"; cases tokens) (auto simp: tokens_match_def token_occur_def)
qed (use assms in \<open>auto simp: tokens_match_def token_query_exact split: match_operator.splits\<close>)

lemma field_match_matches:
  assumes q: "build_field_match_query ix c f terms opts = Inr q" and exact: "fm_fuzziness opts = Some 0"
    and tokens: "ti_tokens ix (tokenizer_name (tokenizer c)) = Some analyze"
  shows "tmatches S d q \<longleftrightarrow> tokens_match S (fm_operator opts) f (analyze terms) d"
  using q
proof (rule field_match_Inr)
  fix ts core
  assume "analyze_terms ix c terms = Inr ts" "build_tokens_query f ts opts = Inr core"
    "q = core \<or> q = BoostQuery core (fm_boost opts)"
  moreover from this(1) have "ts = analyze terms" using tokens by (simp add: analyze_terms_def)
  ultimately show ?thesis using tokens_query_matches [OF _ exact, of f ts core S d] by auto
qed

lemma single_or_should_matches:
  "qs \<noteq> [] \<Longrightarrow> tmatches S d (single_or_should qs) \<longleftrightarrow> (\<exists>q \<in> set qs. tmatches S d q)"
  by (auto simp: single_or_should_def split: list.splits)

lemma phrase_succeeds:
  assumes "index_serves ix c"
  shows "succeeds (build_query ix c (QMatchPhrase column terms slop)) \<longleftrightarrow> spec_ok ix c (QMatchPhrase column terms slop)"
proof (cases "resolve_text_field ix c column")
  case (Inl e)
  then have "\<not> column_ok c column" using resolve_succeeds [OF assms, of column] by simp
  with Inl show ?thesis by simp
next
  case (Inr f)
  then have "column_ok c column" using resolve_succeeds [OF assms, of column] by simp
  with Inr show ?thesis
    by (simp add: succeeds_bind_const) (simp add: succeeds_def)
qed

lemma boolean_succeeds:
  assumes lists: "\<And>q. q \<in> set should \<union> set must \<union> set must_not \<Longrightarrow> succeeds (build_query ix c q) \<longleftrightarrow> spec_ok ix c q"
    and pairs: "\<And>x. x \<in> set queries \<Longrightarrow> succeeds (build_query ix c (snd x)) \<longleftrightarrow> spec_ok ix c (snd x)"
  shows "succeeds (build_query ix c (QBoolean should must must_not queries))
     \<longleftrightarrow> spec_ok ix c (QBoolean should must must_not queries)"
proof -
  have pos: "list_ex (\<lambda>(occur, _). occur \<in> {BShould, BMust}) queries \<longleftrightarrow> (\<exists>x \<in> set queries. fst x \<noteq> BMustNot)"
  proof -
    have "occur \<in> {BShould, BMust} \<longleftrightarrow> occur \<noteq> BMustNot" for occur by (cases occur) auto
    then show ?thesis by (simp add: list_ex_iff case_prod_beta)
  qed
  have "succeeds (case x of (occur, child) \<Rightarrow> res_bind (build_query ix c child) (\<lambda>q. Inr (occur_of occur, q)))
      \<longleftrightarrow> spec_ok ix c (snd x)" if "x \<in> set queries" for x
    using pairs [OF that] by (cases x) (simp add: succeeds_bind_const)
  with pos lists show ?thesis
    by (simp add: succeeds_bind_const succeeds_collect)
qed

lemma query_builds:
  assumes "index_serves ix c"
  shows "(\<exists>t. build_query ix c q = Inr t) \<longleftrightarrow> spec_ok ix c q"
  unfolding succeeds_def [symmetric]
proof (induction q)
  case (QMatch column terms op boost fuzz me pl)
  then show ?case by (rule match_succeeds [OF assms])
next
  case (QMultiMatch terms columns boosts op fuzz me pl)
  then show ?case
    using columns_succeed [OF assms]
    by (auto simp: succeeds_bind_const succeeds_multi)
next
  case (QMatchPhrase column terms slop)
  then show ?case by (rule phrase_succeeds [OF assms])
next
  case (QBoolean should must must_not queries)
  then show ?case by (intro boolean_succeeds) fastforce+
next
  case (QBoost p n b)
  then show ?case by (simp add: succeeds_bind_const succeeds_validate) blast
qed

section \<open>Properties\<close>

text \<open>
  C7. Building a query succeeds exactly for the specifications that are valid for the index:
  over an index that knows the configured fields and the tokenizer, options in range, known
  columns (or none where that is unambiguous), matching numbers of boosts, positive clauses in
  boolean queries, positions and a text that parses for phrases are sufficient and necessary.
\<close>

theorem build_query_iff:
  assumes "index_serves ix c"
  shows "(\<exists>t. build_query ix c q = Inr t) \<longleftrightarrow> spec_ok ix c q"
  using assms by (rule query_builds)

definition example_index :: "(nat, string) tantivy_index" where
  "example_index = \<lparr>
     ti_get_field = (\<lambda>n. if n = ''title'' then Some 1 else if n = ''body'' then Some 2 else None),
     ti_tokens = (\<lambda>n. if n = ''paimon_custom'' then Some (\<lambda>s. filter (\<lambda>w. w \<noteq> []) (split_on (\<lambda>ch. ch = CHR '' '') s))
                      else None),
     ti_parse = (\<lambda>f s. Inr s)\<rparr>"

lemma boost_ok_one: "boost_ok f32_one"
  by (auto simp: boost_ok_def f32_one_def intro!: exI [of _ False])

lemma example_serves: "index_serves example_index example_config"
proof -
  have "\<forall>n \<in> set (text_fields example_config). trim n = n \<and> n \<noteq> [] \<and> ti_get_field example_index n \<noteq> None"
    by code_simp
  moreover have "tokenizer_name (tokenizer example_config) = ''paimon_custom''" by code_simp
  ultimately show ?thesis by (simp add: index_serves_def example_index_def) (simp add: example_config_def)
qed

theorem build_query_iff_witness:
  "(\<exists>t. build_query example_index example_config
      (QBoolean [QMatch None ''open source'' OpAnd f32_one None 50 0] [] [] []) = Inr t)
   \<and> \<not> (\<exists>t. build_query example_index example_config (QBoolean [] [] [QMatchPhrase None ''x'' 0] []) = Inr t)"
  by (simp only: build_query_iff [OF example_serves]) (simp add: options_ok_def boost_ok_one given_column_def)

text \<open>
  The meaning of an exact match query: over the fields it resolves to, a document matches if
  in one of the fields some token of the terms occurs (operator or), or all of them occur
  and there is at least one (operator and); the boost does not matter.
\<close>

theorem match_query_meaning:
  assumes t: "build_query ix c (QMatch column terms op boost (Some 0) me pl) = Inr t"
    and tokens: "ti_tokens ix (tokenizer_name (tokenizer c)) = Some analyze"
    and fields: "resolve_match_fields ix c column = Inr fs" "text_fields c \<noteq> []"
  shows "tmatches S d t \<longleftrightarrow> (\<exists>f \<in> set fs. tokens_match S op f (analyze terms) d)"
proof -
  let ?opts = "\<lparr>fm_operator = op, fm_boost = boost, fm_fuzziness = Some 0, fm_max_expansions = me, fm_prefix_length = pl\<rparr>"
  obtain qs where qs: "res_collect (\<lambda>field. build_field_match_query ix c field terms ?opts) fs = Inr qs"
    and t: "t = single_or_should qs"
    using t fields(1) by (auto simp: res_simps Let_def)
  have "qs \<noteq> []" using resolve_match_fields_Inr(1) [OF fields] res_collect_length [OF qs] by auto
  then have "tmatches S d t \<longleftrightarrow> (\<exists>q \<in> set qs. tmatches S d q)" unfolding t by (rule single_or_should_matches)
  also have "\<dots> \<longleftrightarrow> (\<exists>f \<in> set fs. tokens_match S op f (analyze terms) d)"
  proof -
    have m: "tmatches S d q \<longleftrightarrow> tokens_match S op f (analyze terms) d"
      if "build_field_match_query ix c f terms ?opts = Inr q" for f q
      using field_match_matches [OF that _ tokens] by simp
    show ?thesis
    proof
      assume "\<exists>q \<in> set qs. tmatches S d q"
      then obtain q where q: "q \<in> set qs" "tmatches S d q" by blast
      from res_collect_set [OF qs q(1)] obtain f where "f \<in> set fs"
        "build_field_match_query ix c f terms ?opts = Inr q" by blast
      with m q(2) show "\<exists>f \<in> set fs. tokens_match S op f (analyze terms) d" by blast
    next
      assume "\<exists>f \<in> set fs. tokens_match S op f (analyze terms) d"
      then obtain f where f: "f \<in> set fs" "tokens_match S op f (analyze terms) d" by blast
      from res_collect_img [OF qs f(1)] m f(2) show "\<exists>q \<in> set qs. tmatches S d q" by blast
    qed
  qed
  finally show ?thesis .
qed

theorem match_query_meaning_witness:
  "\<exists>t. build_query example_index example_config (QMatch (Some '' body '') ''open source'' OpAnd f32_one (Some 0) 50 0) = Inr t
     \<and> tmatches \<lparr>sem_term = (\<lambda>f w d. f = 2 \<and> w \<in> set d), sem_fuzzy = (\<lambda>_ _ _ _ _ _. False),
          sem_parsed = (\<lambda>_ _. False)\<rparr> [''source'', ''is'', ''open''] t"
proof -
  let ?q = "QMatch (Some '' body '') ''open source'' OpAnd f32_one (Some 0) 50 0"
  have body: "trim '' body '' = ''body''" by code_simp
  then have "spec_ok example_index example_config ?q"
    by (simp add: options_ok_def boost_ok_one column_ok_def given_column_def example_config_def)
  then have "succeeds (build_query example_index example_config ?q)"
    by (simp only: match_succeeds [OF example_serves])
  then obtain t where t: "build_query example_index example_config ?q = Inr t"
    unfolding succeeds_def by blast
  have name: "tokenizer_name (tokenizer example_config) = ''paimon_custom''" by code_simp
  have f: "resolve_match_fields example_index example_config (Some '' body '') = Inr [2]"
    using body by (simp add: resolve_match_fields_def resolve_text_field_def given_column_def indexed_text_fields_def
        example_config_def example_index_def)
  have tok: "ti_tokens example_index (tokenizer_name (tokenizer example_config)) =
      Some (\<lambda>s. filter (\<lambda>w. w \<noteq> []) (split_on (\<lambda>ch. ch = CHR '' '') s))"
    by (simp add: name example_index_def)
  have m: "tmatches S d t \<longleftrightarrow> (\<exists>f \<in> set [2]. tokens_match S OpAnd f [''open'', ''source''] d)" for S d
    using match_query_meaning [OF t tok f serves_fields [OF example_serves]] by simp
  show ?thesis using t by (intro exI [of _ t]) (simp add: m tokens_match_def del: build_query.simps)
qed

theorem build_query_tree_ok_witness:
  "\<exists>t. build_query example_index example_config (QMatch None ''open source'' OpAnd f32_one None 50 3) = Inr t
     \<and> tree_ok {1, 2} t"
proof -
  let ?q = "QMatch None ''open source'' OpAnd f32_one None 50 3"
  have "spec_ok example_index example_config ?q"
    by (simp add: options_ok_def boost_ok_one given_column_def)
  then have "succeeds (build_query example_index example_config ?q)"
    by (simp only: match_succeeds [OF example_serves])
  then obtain t where t: "build_query example_index example_config ?q = Inr t"
    unfolding succeeds_def by blast
  have "configured_fields example_index example_config = {1, 2}"
    by (auto simp: configured_fields_def example_config_def example_index_def split: if_splits)
  with build_query_tree_ok [OF t serves_fields [OF example_serves]] t show ?thesis by auto
qed

end
