(* ===== verification/Writer.thy ===== *)
theory Writer
  imports Storage Analyzer
begin

text \<open>
  The index writer of \<^verbatim>\<open>core/src/index.rs\<close> (\<^verbatim>\<open>FullTextIndexWriter\<close>): creation, adding documents,
  and the single-use \<^verbatim>\<open>write\<close>. tantivy's index writer, the temporary directory and the file
  system are operations on a world state \<open>'e\<close>, given as a record of functions. Every
  operation of the writer takes and returns the writer and the world, so effects that precede
  an error are kept.
\<close>

section \<open>The environment\<close>

datatype 'f field_value = U64Value 'f u64 | TextValue 'f string

type_synonym 'f document = "'f field_value list"

record ('e, 'f, 'x, 'w) writer_api =
  wa_temp_dir :: "('e, io_error, string) st_res"
  wa_create_in_dir :: "string \<Rightarrow> field_decl list \<Rightarrow> ('e, tantivy_error, 'x) st_res"
  wa_get_field :: "field_decl list \<Rightarrow> string \<Rightarrow> 'f option"
  wa_writer :: "'x \<Rightarrow> (string \<rightharpoonup> text_analyzer) \<Rightarrow> nat \<Rightarrow> nat \<Rightarrow> ('e, tantivy_error, 'w) st_res"
  wa_add_document :: "'w \<Rightarrow> 'f document \<Rightarrow> ('e, tantivy_error, unit) st_res"
  wa_commit :: "'w \<Rightarrow> ('e, tantivy_error, unit) st_res"
  wa_wait_merging_threads :: "'w \<Rightarrow> ('e, tantivy_error, unit) st_res"
  wa_fs :: "'e \<Rightarrow> file_system"
  wa_open_file :: "'e \<Rightarrow> string \<Rightarrow> io_error + bytes"
  wa_version :: string

definition INDEX_WRITER_MEMORY_BUDGET_BYTES :: nat where
  "INDEX_WRITER_MEMORY_BUDGET_BYTES = 50000000"

record 'w writer_state =
  ws_index_writer :: 'w
  ws_temp_dir :: string

record ('f, 'w) full_text_index_writer =
  fw_config :: full_text_index_config
  fw_state :: "'w writer_state option"
  fw_row_id_field :: 'f
  fw_text_fields :: "string \<rightharpoonup> 'f"
  fw_document_count :: u64

definition finalized_error :: ft_error where
  "finalized_error = InvalidStorage [Lit ''full-text index writer is already finalized'']"

section \<open>Creation\<close>

definition writer_new ::
  "('e, 'f, 'x, 'w) writer_api \<Rightarrow> analyzer_env \<Rightarrow> full_text_index_config
     \<Rightarrow> ('e, ft_error, ('f, 'w) full_text_index_writer) st_res" where
  "writer_new A E c =
     st_bind (st_lift (validate_config c)) (\<lambda>_.
     st_bind (st_map_err Io (wa_temp_dir A)) (\<lambda>temp_dir.
     let schema = build_schema c in
     st_bind (st_map_err Tantivy (wa_create_in_dir A temp_dir schema)) (\<lambda>index.
     st_bind (st_lift (register_tokenizer E Map.empty (tokenizer c))) (\<lambda>registry.
     st_bind (st_lift (ok_or (InvalidStorage [Lit ''missing row_id field''])
        (wa_get_field A schema (row_id_field c)))) (\<lambda>row_id_field.
     st_bind (st_lift (text_field_map (wa_get_field A schema) c)) (\<lambda>text_fields.
     st_bind (st_map_err Tantivy (wa_writer A index registry 1 INDEX_WRITER_MEMORY_BUDGET_BYTES)) (\<lambda>index_writer.
     st_lift (Inr \<lparr>fw_config = c, fw_state = Some \<lparr>ws_index_writer = index_writer, ws_temp_dir = temp_dir\<rparr>,
        fw_row_id_field = row_id_field, fw_text_fields = map_of text_fields, fw_document_count = 0\<rparr>))))))))"

section \<open>Adding documents\<close>

fun add_fields ::
  "('f, 'w) full_text_index_writer \<Rightarrow> (string \<times> string) list \<Rightarrow> 'f document \<Rightarrow> ft_error + 'f document" where
  "add_fields w [] doc = Inr doc"
| "add_fields w ((name, str) # fds) doc =
     res_bind (validate_indexed_field (fw_config w) name) (\<lambda>_.
     res_bind (ok_or (InvalidStorage (quoted ''document field '' name '' is not configured for this index''))
        (fw_text_fields w name)) (\<lambda>text_field.
     add_fields w fds (doc @ [TextValue text_field str])))"

definition add_document_fields ::
  "('e, 'f, 'x, 'w) writer_api \<Rightarrow> i64 \<Rightarrow> (string \<times> string) list
     \<Rightarrow> (('f, 'w) full_text_index_writer \<times> 'e, ft_error, unit) st_res" where
  "add_document_fields A row_id fds = (\<lambda>(w, e).
     if sint row_id < 0 then
       ((w, e), Inl (InvalidStorage [Lit ''row id must be non-negative, got '', ArgInt (sint row_id)]))
     else case fw_state w of
       None \<Rightarrow> ((w, e), Inl finalized_error)
     | Some state \<Rightarrow>
         (case checked_add (fw_document_count w) 1 of
            None \<Rightarrow> ((w, e), Inl (InvalidStorage [Lit ''full-text document count overflow'']))
          | Some next_document_count \<Rightarrow>
              (case add_fields w fds [U64Value (fw_row_id_field w) row_id] of
                 Inl err \<Rightarrow> ((w, e), Inl err)
               | Inr doc \<Rightarrow>
                   if fds = [] then
                     ((w, e), Inl (InvalidStorage [Lit ''document must contain at least one text field'']))
                   else (case wa_add_document A (ws_index_writer state) doc e of
                       (e', Inl err) \<Rightarrow> ((w, e'), Inl (Tantivy err))
                     | (e', Inr _) \<Rightarrow> ((w\<lparr>fw_document_count := next_document_count\<rparr>, e'), Inr ())))))"

definition add_document ::
  "('e, 'f, 'x, 'w) writer_api \<Rightarrow> i64 \<Rightarrow> string
     \<Rightarrow> (('f, 'w) full_text_index_writer \<times> 'e, ft_error, unit) st_res" where
  "add_document A row_id str = (\<lambda>(w, e).
     add_document_fields A row_id [(default_text_field (fw_config w), str)] (w, e))"

section \<open>Writing the archive\<close>

fun archive_entries :: "u64 \<Rightarrow> index_file list \<Rightarrow> ft_error + archive_file_entry list" where
  "archive_entries offset [] = Inr []"
| "archive_entries offset (file # files) =
     res_bind (ok_or (InvalidStorage [Lit ''full-text archive size overflow''])
        (checked_add offset (if_length file))) (\<lambda>offset'.
     res_bind (archive_entries offset' files) (\<lambda>entries.
     Inr (\<lparr>entry_name = if_name file, entry_offset = offset, entry_length = if_length file\<rparr> # entries)))"

definition archive_header :: "string \<Rightarrow> ('f, 'w) full_text_index_writer \<Rightarrow> archive_file_entry list \<Rightarrow> index_header" where
  "archive_header version w entries =
     \<lparr>hdr_metadata = \<lparr>config = fw_config w, document_count = fw_document_count w, tantivy_version = version\<rparr>,
      hdr_files = entries\<rparr>"

text \<open>The part of \<^verbatim>\<open>write\<close> after the writer has been consumed and the documents are committed.\<close>

definition stream_archive ::
  "json_text \<Rightarrow> ('e, 'f, 'x, 'w) writer_api \<Rightarrow> 'o seek_write \<Rightarrow> ('f, 'w) full_text_index_writer \<Rightarrow> string \<Rightarrow> 'e
     \<Rightarrow> ('o, ft_error, unit) st_res" where
  "stream_archive J A W w temp_dir e =
     st_bind (st_lift (collect_index_files (wa_fs A e) temp_dir)) (\<lambda>files.
     st_bind (st_lift (archive_entries 0 files)) (\<lambda>entries.
     write_envelope_from_paths J (wa_open_file A e) W (archive_header (wa_version A) w entries) (map if_path files)))"

definition writer_write ::
  "json_text \<Rightarrow> ('e, 'f, 'x, 'w) writer_api \<Rightarrow> 'o seek_write
     \<Rightarrow> (('f, 'w) full_text_index_writer \<times> 'e \<times> 'o, ft_error, unit) st_res" where
  "writer_write J A W = (\<lambda>(w, e, out).
     case fw_state w of
       None \<Rightarrow> ((w, e, out), Inl finalized_error)
     | Some state \<Rightarrow>
         let w' = w\<lparr>fw_state := None\<rparr> in
         (case st_bind (wa_commit A (ws_index_writer state))
                 (\<lambda>_. wa_wait_merging_threads A (ws_index_writer state)) e of
            (e', Inl err) \<Rightarrow> ((w', e', out), Inl (Tantivy err))
          | (e', Inr _) \<Rightarrow>
              (case stream_archive J A W w' (ws_temp_dir state) e' out of (out', r) \<Rightarrow> ((w', e', out'), r))))"

section \<open>Sequences of operations\<close>

datatype writer_op = OpAdd i64 string | OpAddFields i64 "(string \<times> string) list" | OpWrite

type_synonym ('e, 'f, 'w, 'o) writer_world = "('f, 'w) full_text_index_writer \<times> 'e \<times> 'o"

fun exec_op ::
  "json_text \<Rightarrow> ('e, 'f, 'x, 'w) writer_api \<Rightarrow> 'o seek_write \<Rightarrow> writer_op
     \<Rightarrow> (('e, 'f, 'w, 'o) writer_world, ft_error, unit) st_res" where
  "exec_op J A W (OpAdd row_id str) (w, e, out) =
     (case add_document A row_id str (w, e) of ((w', e'), r) \<Rightarrow> ((w', e', out), r))"
| "exec_op J A W (OpAddFields row_id fds) (w, e, out) =
     (case add_document_fields A row_id fds (w, e) of ((w', e'), r) \<Rightarrow> ((w', e', out), r))"
| "exec_op J A W OpWrite (w, e, out) = writer_write J A W (w, e, out)"

text \<open>A run of the writer: the operations with their results, in order.\<close>

inductive writer_run ::
  "json_text \<Rightarrow> ('e, 'f, 'x, 'w) writer_api \<Rightarrow> 'o seek_write \<Rightarrow> ('e, 'f, 'w, 'o) writer_world
     \<Rightarrow> (writer_op \<times> (ft_error + unit)) list \<Rightarrow> ('e, 'f, 'w, 'o) writer_world \<Rightarrow> bool"
  for J A W where
  run_Nil: "writer_run J A W s [] s"
| run_Cons: "exec_op J A W op s = (s', r) \<Longrightarrow> writer_run J A W s' tr s'' \<Longrightarrow> writer_run J A W s ((op, r) # tr) s''"

inductive_simps writer_run_simps [simp]:
  "writer_run J A W s [] s'"
  "writer_run J A W s (x # tr) s'"

lemma writer_run_append:
  "writer_run J A W s (tr1 @ tr2) s' \<longleftrightarrow> (\<exists>t. writer_run J A W s tr1 t \<and> writer_run J A W t tr2 s')"
  by (induction tr1 arbitrary: s) (simp, simp, blast)

text \<open>The operations on a writer that was finalized, and what they answer.\<close>

fun finalized_answer :: "writer_op \<Rightarrow> ft_error" where
  "finalized_answer (OpAdd row_id str) =
     (if sint row_id < 0 then InvalidStorage [Lit ''row id must be non-negative, got '', ArgInt (sint row_id)]
      else finalized_error)"
| "finalized_answer (OpAddFields row_id fds) =
     (if sint row_id < 0 then InvalidStorage [Lit ''row id must be non-negative, got '', ArgInt (sint row_id)]
      else finalized_error)"
| "finalized_answer OpWrite = finalized_error"

lemma exec_op_finalized:
  assumes "fw_state (fst s) = None"
  shows "exec_op J A W op s = (s, Inl (finalized_answer op))"
  using assms
  by (cases s; cases op) (auto simp: add_document_def add_document_fields_def writer_write_def)

lemma exec_write_finalizes: "exec_op J A W OpWrite s = (s', r) \<Longrightarrow> fw_state (fst s') = None"
  by (cases s) (auto simp: writer_write_def Let_def split: option.splits prod.splits sum.splits)

lemma run_finalized:
  assumes "writer_run J A W s tr s'" and "fw_state (fst s) = None"
  shows "s' = s \<and> (\<forall>(op, r) \<in> set tr. r = Inl (finalized_answer op))"
  using assms by (induction rule: writer_run.induct) (auto simp: exec_op_finalized)

lemma add_fields_Inr:
  "add_fields w fds doc = Inr doc' \<longleftrightarrow>
     (\<forall>(n, _) \<in> set fds. \<not> is_blank n \<and> n \<in> set (text_fields (fw_config w)) \<and> fw_text_fields w n \<noteq> None)
     \<and> doc' = doc @ map (\<lambda>(n, str). TextValue (the (fw_text_fields w n)) str) fds"
  by (induction fds arbitrary: doc) (auto simp: res_simps validate_indexed_field_Inr)

definition writer_wf :: "('f, 'w) full_text_index_writer \<Rightarrow> bool" where
  "writer_wf w \<longleftrightarrow> validate_config (fw_config w) = Inr ()
     \<and> (\<forall>n \<in> set (text_fields (fw_config w)). fw_text_fields w n \<noteq> None)"

lemma add_document_fields_cases:
  assumes run: "add_document_fields A row fds (w, e) = ((w', e'), r)"
  shows "(w' = w \<and> r \<noteq> Inr ())
     \<or> (r = Inr () \<and> (\<exists>n. checked_add (fw_document_count w) 1 = Some n \<and> w' = w\<lparr>fw_document_count := n\<rparr>))"
proof (cases "sint row < 0")
  case True
  then show ?thesis using run by (auto simp: add_document_fields_def)
next
  case nonneg: False
  show ?thesis
  proof (cases "fw_state w")
    case None
    then show ?thesis using run nonneg by (auto simp: add_document_fields_def)
  next
    case (Some st)
    note defs = add_document_fields_def nonneg Some
    show ?thesis
    proof (cases "checked_add (fw_document_count w) 1")
      case None
      then show ?thesis using run by (auto simp: defs)
    next
      case n: (Some n)
      show ?thesis
      proof (cases "add_fields w fds [U64Value (fw_row_id_field w) row]")
        case (Inl err)
        then show ?thesis using run n by (auto simp: defs)
      next
        case (Inr doc)
        then show ?thesis
          using run n by (cases "wa_add_document A (ws_index_writer st) doc e"; cases "snd (wa_add_document A (ws_index_writer st) doc e)")
            (auto simp: defs split: if_splits)
      qed
    qed
  qed
qed

lemma writer_write_writer: "writer_write J A W (w, e, out) = (s', r) \<Longrightarrow> fst s' = w\<lparr>fw_state := None\<rparr>"
  by (cases "fw_state w") (auto simp: writer_write_def Let_def split: prod.splits sum.splits)

lemma exec_op_add:
  assumes "exec_op J A W op (w, e, out) = ((w', e', out'), r)" and "op \<noteq> OpWrite"
  shows "\<exists>row fds. add_document_fields A row fds (w, e) = ((w', e'), r) \<and> out' = out"
proof (cases op)
  case (OpAdd row str)
  obtain w2 e2 r2 where add: "add_document_fields A row [(default_text_field (fw_config w), str)] (w, e) = ((w2, e2), r2)"
    by (metis prod.exhaust)
  then have "w2 = w' \<and> e2 = e' \<and> r2 = r \<and> out' = out" using assms(1) OpAdd by (simp add: add_document_def)
  with add show ?thesis by blast
next
  case (OpAddFields row fds)
  obtain w2 e2 r2 where add: "add_document_fields A row fds (w, e) = ((w2, e2), r2)" by (metis prod.exhaust)
  then have "w2 = w' \<and> e2 = e' \<and> r2 = r \<and> out' = out" using assms(1) OpAddFields by simp
  with add show ?thesis by blast
qed (use assms(2) in simp)

lemma exec_op_frame:
  assumes run: "exec_op J A W op (w, e, out) = ((w', e', out'), r)"
  shows "fw_config w' = fw_config w \<and> fw_text_fields w' = fw_text_fields w
     \<and> unat (fw_document_count w') = unat (fw_document_count w) + (if op \<noteq> OpWrite \<and> r = Inr () then 1 else 0)"
proof (cases "op = OpWrite")
  case True
  then have "w' = w\<lparr>fw_state := None\<rparr>" using run writer_write_writer [of J A W w e out "(w', e', out')" r] by simp
  with True show ?thesis by simp
next
  case False
  from exec_op_add [OF run False] obtain row fds where "add_document_fields A row fds (w, e) = ((w', e'), r)" by blast
  from add_document_fields_cases [OF this] show ?thesis
  proof (elim disjE conjE exE)
    fix n
    assume r: "r = Inr ()" and n: "checked_add (fw_document_count w) 1 = Some n" and w': "w' = w\<lparr>fw_document_count := n\<rparr>"
    have "unat n = unat (fw_document_count w) + unat (1 :: u64)" using n by (simp only: checked_add_Some)
    then show ?thesis using w' r False by simp
  qed (use False in simp)
qed

lemma run_frame:
  assumes "writer_run J A W s tr s'"
  shows "fw_config (fst s') = fw_config (fst s)
     \<and> unat (fw_document_count (fst s')) = unat (fw_document_count (fst s))
         + length (filter (\<lambda>(op, r). op \<noteq> OpWrite \<and> r = Inr ()) tr)
     \<and> writer_wf (fst s') = writer_wf (fst s)"
  using assms
proof (induction rule: writer_run.induct)
  case (run_Cons op s s' r tr s'')
  obtain w e out w' e' out' where "s = (w, e, out)" "s' = (w', e', out')" by (metis prod_cases3)
  with exec_op_frame [of J A W op w e out w' e' out' r] run_Cons show ?case by (auto simp: writer_wf_def)
qed simp

lemma writer_new_Inr:
  assumes "writer_new A E c e = (e', Inr w)"
  shows "fw_config w = c \<and> fw_document_count w = 0 \<and> fw_state w \<noteq> None \<and> writer_wf w
    \<and> wa_get_field A (build_schema c) (row_id_field c) = Some (fw_row_id_field w)"
proof -
  obtain tf where tf: "text_field_map (wa_get_field A (build_schema c)) c = Inr tf"
    and w: "fw_config w = c" "fw_document_count w = 0" "fw_state w \<noteq> None" "fw_text_fields w = map_of tf"
      "wa_get_field A (build_schema c) (row_id_field c) = Some (fw_row_id_field w)"
    and valid: "validate_config c = Inr ()"
    using assms by (auto simp: writer_new_def Let_def res_simps)
  have "map fst tf = indexed_text_fields c"
    using tf unfolding text_field_map_def res_collect_Inr by (induction rule: list_all2_induct) (auto simp: res_simps)
  then have "map_of tf n \<noteq> None" if "n \<in> set (text_fields c)" for n
    using that by (simp add: map_of_eq_None_iff flip: set_map) (simp add: indexed_text_fields_def)
  with w valid show ?thesis by (simp add: writer_wf_def)
qed

lemma archive_entries_Inr:
  "archive_entries off files = Inr es \<Longrightarrow>
     contiguous (unat off) es \<and> map entry_name es = map if_name files \<and> map entry_length es = map if_length files"
proof (induction files arbitrary: off es)
  case (Cons f files)
  obtain off' es' where off': "checked_add off (if_length f) = Some off'" and es': "archive_entries off' files = Inr es'"
    and es: "es = \<lparr>entry_name = if_name f, entry_offset = off, entry_length = if_length f\<rparr> # es'"
    using Cons.prems by (auto simp: res_simps)
  have "unat off' = unat off + unat (if_length f)" using off' by (simp only: checked_add_Some)
  with Cons.IH [OF es'] es show ?case by simp
qed simp

lemma archive_entries_overflow:
  "(\<exists>es. archive_entries off files = Inr es) \<longleftrightarrow> unat off + sum_list (map (unat \<circ> if_length) files) < 2 ^ 64"
proof (induction files arbitrary: off)
  case (Cons f files)
  show ?case
  proof (cases "checked_add off (if_length f)")
    case None
    then have "2 ^ 64 \<le> unat off + unat (if_length f)" by (simp only: checked_add_None)
    with None show ?thesis by simp
  next
    case (Some off')
    then have "unat off' = unat off + unat (if_length f)" by (simp only: checked_add_Some)
    with Cons.IH [of off'] Some show ?thesis by (auto simp: res_simps)
  qed
qed simp

section \<open>Properties of the writer\<close>

text \<open>
  C14. A writer is single-use: whatever happened before, after a call of \<^verbatim>\<open>write\<close>, successful or
  not, every operation fails and none changes the writer, the world or the output any more. Every
  later \<^verbatim>\<open>write\<close> and every later addition with a valid row id answers the already-finalized error.
  An addition with a negative row id is told that the row id is invalid, as on an open writer,
  since the row id is checked first; the comment on \<^verbatim>\<open>write\<close> promises the already-finalized error
  for it as well.
\<close>

theorem writer_single_use:
  assumes "writer_run J A W s (before @ (OpWrite, r) # after) s'"
  shows "\<exists>t. writer_run J A W s (before @ [(OpWrite, r)]) t \<and> s' = t
     \<and> (\<forall>(op, r') \<in> set after. r' = Inl (finalized_answer op))"
proof -
  obtain t where t: "writer_run J A W s (before @ [(OpWrite, r)]) t" and after: "writer_run J A W t after s'"
    using assms writer_run_append [of J A W s "before @ [(OpWrite, r)]" after s'] by auto
  obtain u where "exec_op J A W OpWrite u = (t, r)"
    using t by (auto simp: writer_run_append)
  then have "fw_state (fst t) = None" by (rule exec_write_finalizes)
  with run_finalized [OF after] t show ?thesis by blast
qed

text \<open>
  For every sequence of operations on a new writer, the document count that \<^verbatim>\<open>write\<close> puts into
  the metadata is the number of successful additions, without wrap-around, and the
  configuration stays the one the writer was created with and valid.
\<close>

theorem writer_counts_documents:
  assumes "writer_new A E c e = (e0, Inr w0)" and "writer_run J A W (w0, e0, out) tr (w, e', out')"
  shows "unat (document_count (hdr_metadata (archive_header version w entries)))
           = length (filter (\<lambda>(op, r). op \<noteq> OpWrite \<and> r = Inr ()) tr)
     \<and> config (hdr_metadata (archive_header version w entries)) = c \<and> validate_config c = Inr ()"
  using run_frame [OF assms(2)] writer_new_Inr [OF assms(1)] by (auto simp: archive_header_def writer_wf_def)

text \<open>
  C37. Adding a document to an open writer succeeds exactly when the row id is not negative, the
  count does not overflow, there is a field, every field is configured and tantivy accepts the
  document; then tantivy received the row id followed by the fields in their order, and the
  count grew by one. Otherwise the writer is unchanged.
\<close>

theorem add_document_fields_iff:
  assumes "writer_wf w" and "fw_state w = Some st"
  shows "(snd (add_document_fields A row fds (w, e)) = Inr () \<longleftrightarrow>
      0 \<le> sint row \<and> unat (fw_document_count w) + 1 < 2 ^ 64 \<and> fds \<noteq> []
      \<and> list_all (\<lambda>(n, _). \<not> is_blank n \<and> n \<in> set (text_fields (fw_config w))) fds
      \<and> (\<exists>e'. wa_add_document A (ws_index_writer st)
           (U64Value (fw_row_id_field w) row # map (\<lambda>(n, str). TextValue (the (fw_text_fields w n)) str) fds) e = (e', Inr ())))
   \<and> (fst (fst (add_document_fields A row fds (w, e)))
       = (if snd (add_document_fields A row fds (w, e)) = Inr () then w\<lparr>fw_document_count := fw_document_count w + 1\<rparr> else w))"
proof -
  let ?d = "U64Value (fw_row_id_field w) row # map (\<lambda>(n, str). TextValue (the (fw_text_fields w n)) str) fds"
  let ?ok = "list_all (\<lambda>(n, _). \<not> is_blank n \<and> n \<in> set (text_fields (fw_config w))) fds"
  have doc: "add_fields w fds [U64Value (fw_row_id_field w) row] = Inr doc \<longleftrightarrow> ?ok \<and> doc = ?d" for doc
    using assms(1) by (auto simp: add_fields_Inr list_all_iff writer_wf_def)
  have count: "checked_add (fw_document_count w) 1 = (if unat (fw_document_count w) + 1 < 2 ^ 64 then Some (fw_document_count w + 1) else None)"
    by (simp add: checked_add_def)
  show ?thesis
  proof (cases "0 \<le> sint row \<and> unat (fw_document_count w) + 1 < 2 ^ 64 \<and> ?ok")
    case True
    then have "add_fields w fds [U64Value (fw_row_id_field w) row] = Inr ?d" using doc by blast
    with True assms(2) count show ?thesis
      by (cases "wa_add_document A (ws_index_writer st) ?d e"; cases "snd (wa_add_document A (ws_index_writer st) ?d e)")
        (auto simp: add_document_fields_def)
  next
    case False
    have "\<exists>err. add_document_fields A row fds (w, e) = ((w, e), Inl err)"
    proof (cases "sint row < 0 \<or> \<not> unat (fw_document_count w) + 1 < 2 ^ 64")
      case True
      then show ?thesis using assms(2) count by (auto simp: add_document_fields_def)
    next
      case nonneg: False
      then have "\<not> ?ok" using False by auto
      then obtain err where "add_fields w fds [U64Value (fw_row_id_field w) row] = Inl err"
        using doc by (cases "add_fields w fds [U64Value (fw_row_id_field w) row]") auto
      with nonneg assms(2) count show ?thesis by (auto simp: add_document_fields_def)
    qed
    then show ?thesis using False by auto
  qed
qed

text \<open>
  The entries of an archive lie one after the other from offset zero, with the names and
  lengths of the files in order; the layout fails exactly when the total size does not fit
  64 bits.
\<close>

theorem archive_entries_layout:
  "((\<exists>es. archive_entries 0 files = Inr es) \<longleftrightarrow> sum_list (map (unat \<circ> if_length) files) < 2 ^ 64)
   \<and> (\<forall>es. archive_entries 0 files = Inr es \<longrightarrow>
        contiguous 0 es \<and> map entry_name es = map if_name files \<and> map entry_length es = map if_length files)"
  using archive_entries_overflow [of 0 files] archive_entries_Inr [of 0 files] by simp

section \<open>A concrete writer\<close>

text \<open>
  The world is the list of the documents tantivy received; the index directory holds three
  files, a lock file and a sub-directory. Fields are numbered in the order of the schema.
\<close>

definition example_fs :: file_system where
  "example_fs = \<lparr>
     fs_read_dir = (\<lambda>_. Inr [Inr \<lparr>de_path = ''t/.tantivy.lock'', de_is_file = Inr True\<rparr>,
        Inr \<lparr>de_path = ''t/meta.json'', de_is_file = Inr True\<rparr>, Inr \<lparr>de_path = ''t/old'', de_is_file = Inr False\<rparr>,
        Inr \<lparr>de_path = ''t/seg.fast'', de_is_file = Inr True\<rparr>, Inr \<lparr>de_path = ''t/seg.idx'', de_is_file = Inr True\<rparr>]),
     fs_file_name = (\<lambda>p. Some (drop 2 p)),
     fs_length = (\<lambda>p. map_err id (res_bind (example_disk p) (\<lambda>d. Inr (of_nat (length d))))),
     fs_sort = id\<rparr>"

definition example_api :: "(nat document list, nat, unit, unit) writer_api" where
  "example_api = \<lparr>
     wa_temp_dir = (\<lambda>e. (e, Inr ''t'')),
     wa_create_in_dir = (\<lambda>_ _ e. (e, Inr ())),
     wa_get_field = (\<lambda>schema n. map_of (zip (map decl_name schema) [0..<length schema]) n),
     wa_writer = (\<lambda>_ _ _ _ e. (e, Inr ())),
     wa_add_document = (\<lambda>_ d e. (e @ [d], Inr ())),
     wa_commit = (\<lambda>_ e. (e, Inr ())),
     wa_wait_merging_threads = (\<lambda>_ e. (e, Inr ())),
     wa_fs = (\<lambda>_. example_fs),
     wa_open_file = (\<lambda>_. example_disk),
     wa_version = ''0.26.1''\<rparr>"

definition example_writer :: "u64 \<Rightarrow> bool \<Rightarrow> (nat, unit) full_text_index_writer" where
  "example_writer n is_open = \<lparr>fw_config = default_config,
     fw_state = (if is_open then Some \<lparr>ws_index_writer = (), ws_temp_dir = ''t''\<rparr> else None),
     fw_row_id_field = 0, fw_text_fields = [''text'' \<mapsto> 1], fw_document_count = n\<rparr>"

definition example_docs :: "nat document list" where
  "example_docs = [[U64Value 0 5, TextValue 1 ''ab''], [U64Value 0 9, TextValue 1 ''c'']]"

lemma example_default_analyzer:
  "\<exists>a. build_text_analyzer example_env (tokenizer default_config) = Inr a"
  by (rule exI [of _ "the (case build_text_analyzer example_env (tokenizer default_config) of Inl _ \<Rightarrow> None | Inr a \<Rightarrow> Some a)"])
    code_simp

lemma example_default_valid: "validate_config default_config = Inr ()"
  by code_simp

lemma example_writer_new: "writer_new example_api example_env default_config [] = ([], Inr (example_writer 0 True))"
proof -
  obtain a where a: "build_text_analyzer example_env (tokenizer default_config) = Inr a"
    using example_default_analyzer by blast
  have schema: "map decl_name (build_schema default_config) = [''row_id'', ''text'']"
    unfolding decl_names by (simp add: default_config_def default_row_id_field_def default_text_fields_def
        indexed_text_fields_def dedup_strs_def)
  then have len: "length (build_schema default_config) = 2" by (metis length_map length_Cons list.size(3) numeral_2_eq_2)
  have "[0..<2] = [0, 1 :: nat]" by (simp add: numeral_2_eq_2)
  then show ?thesis
    using a schema len example_default_valid
    by (simp add: writer_new_def Let_def example_api_def register_tokenizer_def example_writer_def
        text_field_map_def indexed_text_fields_def dedup_strs_def default_config_def default_row_id_field_def
        default_text_fields_def st_bind_def st_map_err_def)
qed

definition example_trace :: "(writer_op \<times> (ft_error + unit)) list" where
  "example_trace = [(OpAdd 5 ''ab'', Inr ()),
     (OpAddFields 7 [(''title'', ''x'')], Inl (InvalidStorage (quoted ''document field '' ''title'' '' is not configured for this index''))),
     (OpAddFields 9 [(''text'', ''c'')], Inr ())]"

lemma example_fields:
  "validate_indexed_field default_config ''text'' = Inr ()"
  "validate_indexed_field default_config ''title''
     = Inl (InvalidStorage (quoted ''document field '' ''title'' '' is not configured for this index''))"
  "default_text_field default_config = ''text''"
  by code_simp+

lemma example_writer_run:
  "writer_run J example_api W (example_writer 0 True, [], out) example_trace (example_writer 2 True, example_docs, out)"
  by (simp add: example_trace_def add_document_def add_document_fields_def example_writer_def example_api_def
      example_fields example_docs_def checked_add_def)

lemma example_files:
  "collect_index_files example_fs ''t'' = Inr [
     \<lparr>if_name = ''meta.json'', if_path = ''t/meta.json'', if_length = 3\<rparr>,
     \<lparr>if_name = ''seg.fast'', if_path = ''t/seg.fast'', if_length = 0\<rparr>,
     \<lparr>if_name = ''seg.idx'', if_path = ''t/seg.idx'', if_length = 2\<rparr>]"
  by (simp add: collect_index_files_def example_fs_def example_disk_def ends_with_def)

lemma example_entries:
  "archive_entries 0 [
     \<lparr>if_name = ''meta.json'', if_path = ''t/meta.json'', if_length = 3\<rparr>,
     \<lparr>if_name = ''seg.fast'', if_path = ''t/seg.fast'', if_length = 0\<rparr>,
     \<lparr>if_name = ''seg.idx'', if_path = ''t/seg.idx'', if_length = 2\<rparr>] = Inr (hdr_files example_header)"
  by (simp add: checked_add_def example_header_def)

lemma example_write:
  assumes "write_envelope_from_paths J example_disk W example_header [''t/meta.json'', ''t/seg.fast'', ''t/seg.idx''] out = (out', r)"
  shows "exec_op J example_api W OpWrite (example_writer 2 True, example_docs, out) = ((example_writer 2 False, example_docs, out'), r)"
proof -
  have "archive_header ''0.26.1'' (example_writer 2 False) (hdr_files example_header) = example_header"
    by (simp add: archive_header_def example_header_def example_writer_def)
  then have "stream_archive J example_api W (example_writer 2 False) ''t'' example_docs out = (out', r)"
    using assms by (simp add: stream_archive_def example_api_def example_files example_entries del: archive_entries.simps)
  then show ?thesis
    by (simp add: writer_write_def example_writer_def example_api_def)
qed

theorem writer_single_use_witness:
  "\<exists>r t. writer_run example_text_codec example_api vec_writer (example_writer 0 True, [], [])
        (example_trace @ (OpWrite, r) # [(OpAdd 1 ''d'', Inl finalized_error), (OpWrite, Inl finalized_error),
          (OpAdd (- 1) ''d'', Inl (InvalidStorage [Lit ''row id must be non-negative, got '', ArgInt (- 1)]))]) t
     \<and> (\<forall>(op, r') \<in> set [(OpAdd 1 ''d'', Inl finalized_error), (OpWrite, Inl finalized_error),
          (OpAdd (- 1) ''d'', Inl (InvalidStorage [Lit ''row id must be non-negative, got '', ArgInt (- 1)]) :: ft_error + unit)].
          r' = Inl (finalized_answer op))"
proof -
  obtain out r where out: "write_envelope_from_paths example_text_codec example_disk vec_writer example_header
      [''t/meta.json'', ''t/seg.fast'', ''t/seg.idx''] [] = (out, r)" by fastforce
  let ?s = "(example_writer 2 False, example_docs, out)"
  have fin: "fw_state (fst ?s) = None" by (simp add: example_writer_def)
  have run: "writer_run example_text_codec example_api vec_writer (example_writer 0 True, [], [])
      (example_trace @ (OpWrite, r) # [(OpAdd 1 ''d'', Inl finalized_error), (OpWrite, Inl finalized_error),
          (OpAdd (- 1) ''d'', Inl (InvalidStorage [Lit ''row id must be non-negative, got '', ArgInt (- 1)]))]) ?s"
    unfolding writer_run_append using example_write [OF out]
    by (intro exI [of _ "(example_writer 2 True, example_docs, [])"])
      (simp add: example_writer_run exec_op_finalized [OF fin] del: exec_op.simps)
  from writer_single_use [OF this] run show ?thesis by blast
qed

theorem writer_counts_documents_witness:
  "unat (document_count (hdr_metadata (archive_header ''0.26.1'' (example_writer 2 True) []))) = 2"
  using writer_counts_documents [OF example_writer_new
      example_writer_run [where W = vec_writer and J = example_text_codec and out = "[]"], where version = "''0.26.1''" and entries = "[]"]
  by (simp add: example_trace_def)

theorem add_document_fields_iff_witness:
  "snd (add_document_fields example_api 9 [(''text'', ''c'')] (example_writer 1 True, [])) = Inr ()
   \<and> snd (add_document_fields example_api 9 [] (example_writer 1 True, [])) \<noteq> Inr ()"
proof -
  have wf: "writer_wf (example_writer 1 True)"
    using example_default_valid by (simp add: writer_wf_def example_writer_def default_config_def default_text_fields_def)
  have st: "fw_state (example_writer 1 True) = Some \<lparr>ws_index_writer = (), ws_temp_dir = ''t''\<rparr>"
    by (simp add: example_writer_def)
  have ok: "\<not> is_blank ''text''" by code_simp
  show ?thesis
    using add_document_fields_iff [OF wf st, of example_api 9 "[(''text'', ''c'')]" "[]"]
      add_document_fields_iff [OF wf st, of example_api 9 "[]" "[]"] ok
    by (simp add: example_writer_def example_api_def default_config_def default_text_fields_def)
qed

theorem archive_entries_layout_witness:
  "contiguous 0 (hdr_files example_header)
     \<and> map entry_name (hdr_files example_header) = [''meta.json'', ''seg.fast'', ''seg.idx'']"
  using archive_entries_layout [of "[
     \<lparr>if_name = ''meta.json'', if_path = ''t/meta.json'', if_length = 3\<rparr>,
     \<lparr>if_name = ''seg.fast'', if_path = ''t/seg.fast'', if_length = 0\<rparr>,
     \<lparr>if_name = ''seg.idx'', if_path = ''t/seg.idx'', if_length = 2\<rparr>]"]
  by (simp only: example_entries) simp

end
