(* ===== verification/Reader.thy ===== *)
theory Reader
  imports ArchiveDirectory QueryBuilder Writer
begin

text \<open>
  The index reader of \<^verbatim>\<open>core/src/index.rs\<close> (\<^verbatim>\<open>FullTextIndexReader\<close>): opening an archive, the
  lazily created tantivy reader behind its lock, searching with and without a row-id filter.
  What tantivy does with the directory, its readers, collectors and columns, and the decoding of
  a roaring bitmap are a record of functions over the directory state. A poisoned lock (a panic
  while it was held) is a flag of the reader.
\<close>

section \<open>The environment\<close>

type_synonym doc_address = "u32 \<times> u32"

text \<open>
  \<open>ra_search\<close> is \<^verbatim>\<open>Searcher::search\<close> with the collector of the best documents by score, behind a
  filter on a numeric column when one is given. \<open>ra_column\<close> opens a column of a segment, with
  zero for documents that have no value.
\<close>

record ('i, 'x, 'r, 's, 'f, 'q) reader_api =
  ra_open :: "(read_metrics \<times> 'i) pread \<Rightarrow> file_map \<Rightarrow> ('i dir_state, tantivy_error, 'x) st_res"
  ra_index :: "'x \<Rightarrow> (string \<rightharpoonup> text_analyzer) \<Rightarrow> ('f, 'q) tantivy_index"
  ra_reader :: "'x \<Rightarrow> ('i dir_state, tantivy_error, 'r) st_res"
  ra_searcher :: "'r \<Rightarrow> 's"
  ra_search :: "'s \<Rightarrow> ('f, 'q) tquery \<Rightarrow> (string \<times> (u64 \<Rightarrow> bool)) option \<Rightarrow> usize
     \<Rightarrow> ('i dir_state, tantivy_error, (f32 \<times> doc_address) list) st_res"
  ra_column :: "'s \<Rightarrow> u32 \<Rightarrow> string \<Rightarrow> ('i dir_state, tantivy_error, u32 \<Rightarrow> u64) st_res"
  ra_roaring :: "bytes \<Rightarrow> message + (u64 \<Rightarrow> bool)"
  ra_version :: string

record full_text_search_result =
  sr_row_ids :: "i64 list"
  sr_scores :: "f32 list"

record ('x, 'r) full_text_index_reader =
  rd_index :: 'x
  rd_registry :: "string \<rightharpoonup> text_analyzer"
  rd_reader :: "'r option"
  rd_lock_poisoned :: bool
  rd_metadata :: full_text_index_metadata

type_synonym ('i, 'x, 'r) reader_state = "('x, 'r) full_text_index_reader \<times> 'i dir_state"

section \<open>Opening an archive\<close>

definition validate_tantivy_version :: "string \<Rightarrow> full_text_index_metadata \<Rightarrow> ft_error + unit" where
  "validate_tantivy_version runtime_version metadata =
     (if tantivy_version metadata \<noteq> runtime_version then
        Inl (InvalidStorage [Lit ''unsupported Tantivy index version '', ArgStr (tantivy_version metadata),
          Lit '', runtime uses '', ArgStr runtime_version])
      else Inr ())"

definition reader_open ::
  "json_text \<Rightarrow> ('i, 'x, 'r, 's, 'f, 'q) reader_api \<Rightarrow> analyzer_env \<Rightarrow> 'i pread \<Rightarrow> 'i
     \<Rightarrow> ft_error + ('i, 'x, 'r) reader_state" where
  "reader_open J B E input i =
     (case read_header J (metered_pread input) (default_io i) of
        (io, Inl err) \<Rightarrow> Inl err
      | (io, Inr (header, body_start)) \<Rightarrow>
          res_bind (validate_tantivy_version (ra_version B) (hdr_metadata header)) (\<lambda>_.
          res_bind (new_with_metrics body_start (hdr_files header) io) (\<lambda>(files, d).
          case ra_open B (metered_pread input) files d of
            (d', Inl err) \<Rightarrow> Inl (Tantivy err)
          | (d', Inr index) \<Rightarrow>
              res_bind (register_tokenizer E Map.empty (tokenizer (config (hdr_metadata header)))) (\<lambda>registry.
              Inr (\<lparr>rd_index = index, rd_registry = registry, rd_reader = None, rd_lock_poisoned = False,
                    rd_metadata = hdr_metadata header\<rparr>, d')))))"

definition reader_metadata :: "('x, 'r) full_text_index_reader \<Rightarrow> full_text_index_metadata" where
  "reader_metadata rd = rd_metadata rd"

definition reader_read_metrics :: "('i, 'x, 'r) reader_state \<Rightarrow> full_text_read_metrics" where
  "reader_read_metrics s = snapshot (fst (ac_io (snd s)))"

section \<open>Searching\<close>

definition searcher ::
  "('i, 'x, 'r, 's, 'f, 'q) reader_api \<Rightarrow> (('i, 'x, 'r) reader_state, ft_error, 's) st_res" where
  "searcher B = (\<lambda>(rd, d).
     if rd_lock_poisoned rd then ((rd, d), Inl (InvalidStorage [Lit ''Tantivy reader lock poisoned'']))
     else case rd_reader rd of
       Some r \<Rightarrow> ((rd, d), Inr (ra_searcher B r))
     | None \<Rightarrow>
         (case ra_reader B (rd_index rd) d of
            (d', Inl err) \<Rightarrow> ((rd, d'), Inl (Tantivy err))
          | (d', Inr r) \<Rightarrow> ((rd\<lparr>rd_reader := Some r\<rparr>, d'), Inr (ra_searcher B r))))"

definition prewarm :: "('i, 'x, 'r, 's, 'f, 'q) reader_api \<Rightarrow> (('i, 'x, 'r) reader_state, ft_error, unit) st_res" where
  "prewarm B = st_bind (searcher B) (\<lambda>_. st_lift (Inr ()))"

definition decode_roaring_filter ::
  "('i, 'x, 'r, 's, 'f, 'q) reader_api \<Rightarrow> bytes \<Rightarrow> ft_error + (u64 \<Rightarrow> bool)" where
  "decode_roaring_filter B bs =
     map_err (\<lambda>e. InvalidQuery (Lit ''invalid RoaringTreemap filter: '' # e)) (ra_roaring B bs)"

fun collect_rows ::
  "('i, 'x, 'r, 's, 'f, 'q) reader_api \<Rightarrow> 's \<Rightarrow> string \<Rightarrow> (f32 \<times> doc_address) list
     \<Rightarrow> ('i dir_state, ft_error, (i64 \<times> f32) list) st_res" where
  "collect_rows B sc field [] = st_lift (Inr [])"
| "collect_rows B sc field ((score, segment_ord, doc) # top_docs) =
     st_bind (st_map_err Tantivy (ra_column B sc segment_ord field)) (\<lambda>column.
     st_bind (collect_rows B sc field top_docs) (\<lambda>rows.
     st_lift (Inr ((column doc, score) # rows))))"

text \<open>The part of a search after the query has been built.\<close>

definition collect_result ::
  "('i, 'x, 'r, 's, 'f, 'q) reader_api \<Rightarrow> 's \<Rightarrow> ('f, 'q) tquery \<Rightarrow> string \<Rightarrow> (u64 \<Rightarrow> bool) option \<Rightarrow> usize
     \<Rightarrow> (('i, 'x, 'r) reader_state, ft_error, full_text_search_result) st_res" where
  "collect_result B sc q field filter_opt limit = (\<lambda>(rd, d).
     case st_bind (st_map_err Tantivy (ra_search B sc q (map_option (Pair field) filter_opt) limit))
            (collect_rows B sc field) d of
       (d', Inl err) \<Rightarrow> ((rd, d'), Inl err)
     | (d', Inr rows) \<Rightarrow> ((rd, d'), Inr \<lparr>sr_row_ids = map fst rows, sr_scores = map snd rows\<rparr>))"

definition search_with_filter ::
  "json_text \<Rightarrow> ('i, 'x, 'r, 's, 'f, 'q) reader_api \<Rightarrow> bytes \<Rightarrow> usize \<Rightarrow> (u64 \<Rightarrow> bool) option
     \<Rightarrow> (('i, 'x, 'r) reader_state, ft_error, full_text_search_result) st_res" where
  "search_with_filter J B query limit filter_opt = (\<lambda>(rd, d).
     if limit = 0 then ((rd, d), Inl (InvalidQuery [Lit ''search limit must be positive'']))
     else st_bind (searcher B) (\<lambda>sc.
       st_bind (st_lift (from_json J query)) (\<lambda>spec.
       st_bind (st_lift (build_query (ra_index B (rd_index rd) (rd_registry rd)) (config (rd_metadata rd)) spec)) (\<lambda>q.
       collect_result B sc q (row_id_field (config (rd_metadata rd))) filter_opt limit))) (rd, d))"

definition search ::
  "json_text \<Rightarrow> ('i, 'x, 'r, 's, 'f, 'q) reader_api \<Rightarrow> bytes \<Rightarrow> usize
     \<Rightarrow> (('i, 'x, 'r) reader_state, ft_error, full_text_search_result) st_res" where
  "search J B query limit = search_with_filter J B query limit None"

definition search_with_roaring_filter ::
  "json_text \<Rightarrow> ('i, 'x, 'r, 's, 'f, 'q) reader_api \<Rightarrow> bytes \<Rightarrow> usize \<Rightarrow> bytes
     \<Rightarrow> (('i, 'x, 'r) reader_state, ft_error, full_text_search_result) st_res" where
  "search_with_roaring_filter J B query limit filter_bytes =
     st_bind (st_lift (decode_roaring_filter B filter_bytes)) (\<lambda>f. search_with_filter J B query limit (Some f))"

section \<open>The header is read without touching the cache counters\<close>

lemma metered_total:
  assumes "total_seek_read inner content"
  shows "total_seek_read (metered_pread inner) content"
proof (rule total_seek_read.intro [OF _ total_seek_read_axioms.intro])
  note rd = total_seek_read.axioms(1) [OF assms]
  show "seek_read (metered_pread inner) content"
    by (rule seek_read.intro) (auto simp: metered_pread_Inr dest: seek_read.pread_ok [OF rd])
  show "\<exists>s'. metered_pread inner rs s = (s', Inr (map (request_bytes content) rs))"
    if "list_all (request_within content) rs" for rs s
    using total_seek_read.pread_total [OF assms that] by (cases s) (auto simp: metered_pread_Inr)
qed

definition keeps :: "('s \<Rightarrow> 'v) \<Rightarrow> ('s, 'e, 'a) st_res \<Rightarrow> bool" where
  "keeps f m \<longleftrightarrow> (\<forall>s. f (fst (m s)) = f s)"

lemma keeps_lift: "keeps f (st_lift r)"
  by (simp add: keeps_def)

lemma keeps_bind: "keeps f m \<Longrightarrow> (\<And>x. keeps f (k x)) \<Longrightarrow> keeps f (st_bind m k)"
  by (simp add: keeps_def st_bind_def split: prod.splits sum.splits) (metis fst_conv)

lemma keeps_map_err: "keeps f m \<Longrightarrow> keeps f (st_map_err g m)"
  by (simp add: keeps_def st_map_err_def split: prod.splits) (metis fst_conv)

lemma keeps_pread: "keeps (\<lambda>s. cached_blocks (fst s)) (metered_pread inner rs)"
  by (simp add: keeps_def metered_pread_def record_pread_def split: prod.splits)

lemma keeps_read_header: "keeps (\<lambda>s. cached_blocks (fst s)) (read_header J (metered_pread inner))"
  unfolding read_header_def read_exact_at_def Let_def
  by (auto intro!: keeps_bind keeps_lift keeps_map_err keeps_pread)

section \<open>A written archive opens\<close>

lemma contiguous_fits:
  assumes "contiguous 0 es" and "list_all2 (\<lambda>e d. length d = unat (entry_length e)) es ds"
    and "length front = unat b" and "length front + length (concat ds) < 2 ^ 64"
  shows "archive_fits (front @ concat ds) b es"
    and "map (\<lambda>e. request_bytes (front @ concat ds) (entry_request b e)) es = ds"
proof -
  note reads = contiguous_reads [OF assms(1,2), of front b "[]"]
  from reads assms(3,4) have all: "list_all (entry_reads (front @ concat ds) b) es" by simp
  show "archive_fits (front @ concat ds) b es"
    unfolding archive_fits_def
  proof
    fix e
    assume "e \<in> set es"
    then have "entry_reads (front @ concat ds) b e" using all by (simp add: list_all_iff)
    moreover from this have "unat (b + entry_offset e) = unat b + unat (entry_offset e)"
      by (intro unat_add_u64) (simp only: entry_reads_def)
    ultimately show "unat b + entry_end e \<le> length (front @ concat ds) \<and> unat b + entry_end e < 2 ^ 64"
      by (simp add: entry_reads_def request_within_def entry_request_def)
  qed
  show "map (\<lambda>e. request_bytes (front @ concat ds) (entry_request b e)) es = ds"
    using reads assms(3,4) by simp
qed

text \<open>The directory serves the files with these names and contents.\<close>

definition serves_files ::
  "(read_metrics \<times> 'i) pread \<Rightarrow> file_map \<Rightarrow> 'i dir_state \<Rightarrow> (string \<times> bytes) list \<Rightarrow> bool" where
  "serves_files R files d contents \<longleftrightarrow>
     (\<forall>p. dir_exists files p = Inr (\<exists>(n, _) \<in> set contents. components n = components p))
     \<and> (\<forall>(n, data) \<in> set contents. snd (atomic_read (\<lambda>rb len. rb 0 len) R files n d) = Inr data)"

text \<open>
  A reader as \<^verbatim>\<open>open\<close> leaves it: without a tantivy reader, with the analyzer of its configuration,
  over an index that tantivy opened in a directory serving the files.
\<close>

definition fresh_reader ::
  "('i, 'x, 'r, 's, 'f, 'q) reader_api \<Rightarrow> analyzer_env \<Rightarrow> (read_metrics \<times> 'i) pread \<Rightarrow> (string \<times> bytes) list
     \<Rightarrow> full_text_index_metadata \<Rightarrow> ('x, 'r) full_text_index_reader \<Rightarrow> 'i dir_state \<Rightarrow> bool" where
  "fresh_reader B E R contents metadata rd d \<longleftrightarrow>
     rd_metadata rd = metadata \<and> rd_reader rd = None \<and> \<not> rd_lock_poisoned rd
     \<and> register_tokenizer E Map.empty (tokenizer (config metadata)) = Inr (rd_registry rd)
     \<and> (\<exists>files d0. serves_files R files d0 contents \<and> ra_open B R files d0 = (d, Inr (rd_index rd)))"

lemma opens_envelope:
  assumes total: "total_seek_read inner (envelope_prefix json @ concat ds)"
    and json: "jt_parse J json = Inr (header_to_json h)" "length json \<le> MAX_HEADER_BYTES"
    and valid: "validate_header h = Inr ()" "contiguous 0 (hdr_files h)"
      "distinct (map (components \<circ> entry_name) (hdr_files h))"
    and data: "list_all2 (\<lambda>e d. length d = unat (entry_length e)) (hdr_files h) ds"
      "16 + length json + length (concat ds) < 2 ^ 64"
    and version: "tantivy_version (hdr_metadata h) = ra_version B"
    and analyzer: "\<exists>registry. register_tokenizer E Map.empty (tokenizer (config (hdr_metadata h))) = Inr registry"
    and opens: "\<And>R files d. serves_files R files d (zip (map entry_name (hdr_files h)) ds) \<Longrightarrow>
          \<exists>d' x. ra_open B R files d = (d', Inr x)"
  shows "\<exists>rd d. reader_open J B E inner i = Inr (rd, d)
     \<and> fresh_reader B E (metered_pread inner) (zip (map entry_name (hdr_files h)) ds) (hdr_metadata h) rd d"
proof -
  let ?a = "envelope_prefix json @ concat ds" and ?b = "16 + of_nat (length json) :: u64"
  have b: "unat ?b = 16 + length json"
    using data(2) by (subst unat_add_u64) (simp_all add: unat_of_nat_u64)
  have len: "length (envelope_prefix json) = unat ?b"
    by (simp add: envelope_prefix_def FORMAT_MAGIC_def b)
  have fits: "archive_fits ?a ?b (hdr_files h)"
      "map (\<lambda>e. request_bytes ?a (entry_request ?b e)) (hdr_files h) = ds"
    using contiguous_fits [OF valid(2) data(1) len] data(2) len b by simp_all
  obtain io where io: "read_header J (metered_pread inner) (default_io i) = (io, Inr (h, ?b))"
    using total_seek_read.read_header_total [OF metered_total [OF total] refl json(2,1) de_header_roundtrip valid(1)] by blast
  have "cached_blocks (fst io) = 0"
    using keeps_read_header [of J inner, unfolded keeps_def, THEN spec, of "default_io i"] io
    by (simp add: default_io_def default_metrics_def)
  then obtain files d where dir: "new_with_metrics ?b (hdr_files h) io = Inr (files, d)"
      "\<forall>p. dir_exists files p = Inr (\<exists>f \<in> set (hdr_files h). components (entry_name f) = components p)"
      "\<forall>e \<in> set (hdr_files h). snd (atomic_read (\<lambda>rb len. rb 0 len) (metered_pread inner) files (entry_name e) d)
        = Inr (request_bytes ?a (entry_request ?b e))"
    using fresh_directory_reads [OF total valid(1) fits(1) valid(3)] by blast
  have contents: "zip (map entry_name (hdr_files h)) ds = map (\<lambda>e. (entry_name e, request_bytes ?a (entry_request ?b e))) (hdr_files h)"
    by (subst fits(2) [symmetric]) (simp add: zip_map_map zip_same_conv_map)
  have serves: "serves_files (metered_pread inner) files d (zip (map entry_name (hdr_files h)) ds)"
    unfolding contents using dir(2,3) by (auto simp: serves_files_def)
  then obtain d' x where x: "ra_open B (metered_pread inner) files d = (d', Inr x)" using opens by blast
  obtain registry where reg: "register_tokenizer E Map.empty (tokenizer (config (hdr_metadata h))) = Inr registry"
    using analyzer by blast
  let ?rd = "\<lparr>rd_index = x, rd_registry = registry, rd_reader = None, rd_lock_poisoned = False, rd_metadata = hdr_metadata h\<rparr>"
  have "fresh_reader B E (metered_pread inner) (zip (map entry_name (hdr_files h)) ds) (hdr_metadata h) ?rd d'"
    using serves x reg by (auto simp: fresh_reader_def)
  moreover have "reader_open J B E inner i = Inr (?rd, d')"
    using io dir(1) version x reg by (simp add: reader_open_def validate_tantivy_version_def)
  ultimately show ?thesis by blast
qed

section \<open>The reader behind the lock\<close>

text \<open>What no operation changes: the index, the analyzers, the metadata, a reader once created.\<close>

definition reader_le :: "('x, 'r) full_text_index_reader \<Rightarrow> ('x, 'r) full_text_index_reader \<Rightarrow> bool" where
  "reader_le rd rd' \<longleftrightarrow> rd_index rd' = rd_index rd \<and> rd_registry rd' = rd_registry rd
     \<and> rd_metadata rd' = rd_metadata rd \<and> rd_lock_poisoned rd' = rd_lock_poisoned rd
     \<and> (rd_reader rd \<noteq> None \<longrightarrow> rd_reader rd' = rd_reader rd)"

lemma reader_le_trans: "reader_le a b \<Longrightarrow> reader_le b c \<Longrightarrow> reader_le a c"
  by (auto simp: reader_le_def)

lemma searcher_cases:
  assumes "searcher B (rd, d) = ((rd', d'), r)"
  shows "reader_le rd rd'" and "r = Inr sc \<Longrightarrow> \<exists>x. rd_reader rd' = Some x \<and> sc = ra_searcher B x"
    and "rd_reader rd = Some x \<Longrightarrow> rd' = rd \<and> d' = d"
  using assms
  by (auto simp: searcher_def reader_le_def split: if_splits option.splits prod.splits sum.splits)

lemma searcher_ready:
  "\<not> rd_lock_poisoned rd \<Longrightarrow> rd_reader rd = Some x \<Longrightarrow> searcher B (rd, d) = ((rd, d), Inr (ra_searcher B x))"
  by (simp add: searcher_def)

datatype reader_op = Prewarm | Search bytes usize | SearchRoaring bytes usize bytes

fun exec_reader ::
  "json_text \<Rightarrow> ('i, 'x, 'r, 's, 'f, 'q) reader_api \<Rightarrow> reader_op \<Rightarrow> ('i, 'x, 'r) reader_state \<Rightarrow> ('i, 'x, 'r) reader_state" where
  "exec_reader J B Prewarm s = fst (prewarm B s)"
| "exec_reader J B (Search q n) s = fst (search J B q n s)"
| "exec_reader J B (SearchRoaring q n f) s = fst (search_with_roaring_filter J B q n f s)"

lemma collect_result_cases:
  "collect_result B sc q field f n (rd, d) = ((rd', d'), r) \<Longrightarrow>
     rd' = rd \<and> (\<forall>res. r = Inr res \<longrightarrow> (\<exists>d1 hits rows.
       ra_search B sc q (map_option (Pair field) f) n d = (d1, Inr hits)
       \<and> collect_rows B sc field hits d1 = (d', Inr rows)
       \<and> res = \<lparr>sr_row_ids = map fst rows, sr_scores = map snd rows\<rparr>))"
  by (auto simp: collect_result_def res_simps split: prod.splits sum.splits)

lemma search_reader:
  assumes "search_with_filter J B q n f (rd, d) = ((rd', d'), r)"
  shows "reader_le rd rd'"
proof (cases "n = 0")
  case False
  obtain rd1 d1 sc where s: "searcher B (rd, d) = ((rd1, d1), sc)" by (metis prod.exhaust)
  have "rd' = rd1"
    using assms False s
    by (auto simp: search_with_filter_def st_bind_def dest: collect_result_cases split: sum.splits prod.splits)
  then show ?thesis using searcher_cases(1) [OF s] by simp
qed (use assms in \<open>auto simp: search_with_filter_def reader_le_def\<close>)

lemma exec_reader_le: "reader_le (fst s) (fst (exec_reader J B op s))"
proof (cases op)
  case Prewarm
  obtain rd d rd1 d1 sc where "s = (rd, d)" "searcher B (rd, d) = ((rd1, d1), sc)" by (metis prod.exhaust)
  with Prewarm searcher_cases(1) [of B rd d rd1 d1 sc] show ?thesis
    by (simp add: prewarm_def st_bind_def split: sum.splits)
next
  case (Search q n)
  then show ?thesis using search_reader [of J B q n None "fst s" "snd s"] by (simp add: search_def) (metis prod.collapse)
next
  case (SearchRoaring q n f)
  show ?thesis
  proof (cases "decode_roaring_filter B f")
    case (Inl e)
    with SearchRoaring show ?thesis by (simp add: search_with_roaring_filter_def reader_le_def)
  next
    case (Inr p)
    with SearchRoaring show ?thesis
      using search_reader [of J B q n "Some p" "fst s" "snd s"]
      by (simp add: search_with_roaring_filter_def) (metis prod.collapse)
  qed
qed

lemma exec_readers_le: "reader_le (fst s) (fst (fold (exec_reader J B) ops s))"
proof (induction ops arbitrary: s)
  case (Cons op ops)
  show ?case using reader_le_trans [OF exec_reader_le Cons.IH] by simp
qed (simp add: reader_le_def)

section \<open>The rows of a result\<close>

lemma collect_rows_ok:
  assumes "collect_rows B sc field hits d = (d', Inr rows)"
    and column: "\<And>seg d d' col. ra_column B sc seg field d = (d', Inr col) \<Longrightarrow> col = row_of seg"
  shows "rows = map (\<lambda>(score, seg, doc). (row_of seg doc, score)) hits"
  using assms(1)
proof (induction hits arbitrary: d d' rows)
  case (Cons t hits)
  obtain score seg doc where t: "t = (score, seg, doc)" by (metis prod.exhaust)
  from Cons.prems obtain col d1 rest where col: "ra_column B sc seg field d = (d1, Inr col)"
      and rest: "collect_rows B sc field hits d1 = (d', Inr rest)" "rows = (col doc, score) # rest"
    by (auto simp: t res_simps)
  show ?case using Cons.IH [OF rest(1)] rest(2) column [OF col] t by simp
qed simp

lemma search_Inr:
  assumes "search_with_filter J B q n f (rd, d) = (s', Inr res)"
  shows "\<exists>sc tq d1 d2 d3 hits rows.
     ra_search B sc tq (map_option (Pair (row_id_field (config (rd_metadata rd)))) f) n d1 = (d2, Inr hits)
     \<and> collect_rows B sc (row_id_field (config (rd_metadata rd))) hits d2 = (d3, Inr rows)
     \<and> res = \<lparr>sr_row_ids = map fst rows, sr_scores = map snd rows\<rparr>"
proof -
  have "n \<noteq> 0" using assms by (auto simp: search_with_filter_def)
  with assms obtain u sc tq where run:
    "collect_result B sc tq (row_id_field (config (rd_metadata rd))) f n u = (s', Inr res)"
    by (auto simp: search_with_filter_def res_simps)
  obtain rd1 d1 rd2 d2 where "u = (rd1, d1)" "s' = (rd2, d2)" by (metis prod.exhaust)
  with collect_result_cases [of B sc tq _ f n rd1 d1 rd2 d2] run show ?thesis by blast
qed

section \<open>Properties of the reader\<close>

text \<open>
  C11. The result of a search: row ids and scores have the same length, at most the limit, the
  scores do not increase, and with a filter every row id passes it. This rests on what tantivy
  documents: the collector returns at most the limit of documents in that order, all passing the
  filter on the column, and a column gives the stored values.
\<close>

theorem search_results_filtered:
  assumes "search_with_filter J B query limit f (rd, d) = (s', Inr res)"
    and "\<And>sc q g n d d' hits. ra_search B sc q g n d = (d', Inr hits) \<Longrightarrow>
          length hits \<le> unat n \<and> sorted_wrt (\<lambda>x y. f32_le (fst y) (fst x)) hits
          \<and> (\<forall>field p. g = Some (field, p) \<longrightarrow> list_all (\<lambda>(_, seg, doc). p (row_of sc field seg doc)) hits)"
    and "\<And>sc seg field d d' col. ra_column B sc seg field d = (d', Inr col) \<Longrightarrow> col = row_of sc field seg"
  shows "length (sr_row_ids res) = length (sr_scores res) \<and> length (sr_row_ids res) \<le> unat limit
     \<and> sorted_wrt (\<lambda>x y. f32_le y x) (sr_scores res)
     \<and> (\<forall>p. f = Some p \<longrightarrow> list_all p (sr_row_ids res))"
proof -
  let ?field = "row_id_field (config (rd_metadata rd))"
  obtain sc tq d1 d2 d3 hits rows where hits: "ra_search B sc tq (map_option (Pair ?field) f) limit d1 = (d2, Inr hits)"
    and rows: "collect_rows B sc ?field hits d2 = (d3, Inr rows)"
    and res: "res = \<lparr>sr_row_ids = map fst rows, sr_scores = map snd rows\<rparr>"
    using search_Inr [OF assms(1)] by blast
  have eq: "rows = map (\<lambda>(score, seg, doc). (row_of sc ?field seg doc, score)) hits"
    by (rule collect_rows_ok [OF rows assms(3)])
  have ids: "sr_row_ids res = map (\<lambda>(score, seg, doc). row_of sc ?field seg doc) hits"
      "sr_scores res = map fst hits"
    by (simp_all add: res eq case_prod_beta)
  note hits_ok = assms(2) [OF hits]
  have "list_all p (sr_row_ids res)" if "f = Some p" for p
    using hits_ok that by (auto simp: ids list_all_iff)
  then show ?thesis using hits_ok by (simp add: ids sorted_wrt_map)
qed

text \<open>
  A search that is refused reads nothing: with a limit of zero or an undecodable filter the
  state is unchanged whatever the query is, and once the tantivy reader exists a query that does
  not parse or cannot be built leaves the directory untouched too, with its own error.
\<close>

theorem search_refused_early:
  "search_with_filter J B q 0 f s = (s, Inl (InvalidQuery [Lit ''search limit must be positive'']))
   \<and> (\<forall>e. ra_roaring B bs = Inl e \<longrightarrow>
        search_with_roaring_filter J B q n bs s = (s, Inl (InvalidQuery (Lit ''invalid RoaringTreemap filter: '' # e))))
   \<and> (\<forall>x e. rd_reader (fst s) = Some x \<and> \<not> rd_lock_poisoned (fst s) \<and> n \<noteq> 0
        \<and> res_bind (from_json J q)
            (build_query (ra_index B (rd_index (fst s)) (rd_registry (fst s))) (config (rd_metadata (fst s)))) = Inl e
        \<longrightarrow> search_with_filter J B q n f s = (s, Inl e))"
proof -
  obtain rd d where s: "s = (rd, d)" by fastforce
  have "search_with_filter J B q n f s = (s, Inl e)"
    if "rd_reader rd = Some x" "\<not> rd_lock_poisoned rd" "n \<noteq> 0"
      "res_bind (from_json J q) (build_query (ra_index B (rd_index rd) (rd_registry rd)) (config (rd_metadata rd))) = Inl e"
    for x e
    using that by (auto simp: s search_with_filter_def searcher_ready st_bind_def res_simps)
  then show ?thesis
    by (auto simp: s search_with_filter_def search_with_roaring_filter_def decode_roaring_filter_def)
qed

text \<open>
  C40. The tantivy reader is created once: after a successful prewarm or search, in any state that
  later operations lead to, taking a searcher returns the same reader's searcher and changes
  neither the reader nor the directory; the metadata never changes.
\<close>

theorem reader_created_once:
  assumes "searcher B s = (s1, Inr sc)"
  shows "searcher B (fold (exec_reader J B) ops s1) = (fold (exec_reader J B) ops s1, Inr sc)
     \<and> rd_metadata (fst (fold (exec_reader J B) ops s1)) = rd_metadata (fst s)"
proof -
  obtain rd d rd1 d1 where s: "s = (rd, d)" "s1 = (rd1, d1)" by (metis prod.exhaust)
  from assms have run: "searcher B (rd, d) = ((rd1, d1), Inr sc)" by (simp add: s)
  obtain x where x: "rd_reader rd1 = Some x" "sc = ra_searcher B x" using searcher_cases(2) [OF run refl] by blast
  have le: "reader_le rd rd1" by (rule searcher_cases(1) [OF run])
  have np: "\<not> rd_lock_poisoned rd" using run by (auto simp: searcher_def split: if_splits)
  obtain rd2 d2 where s2: "fold (exec_reader J B) ops s1 = (rd2, d2)" by (metis prod.exhaust)
  have "reader_le rd1 rd2" using exec_readers_le [where s = s1 and J = J and B = B and ops = ops] s2 s(2) by simp
  then show ?thesis
    unfolding s2 using le np x s by (simp add: reader_le_def searcher_ready)
qed

section \<open>A concrete reader\<close>

definition example_row :: "unit \<Rightarrow> string \<Rightarrow> u32 \<Rightarrow> u32 \<Rightarrow> u64" where
  "example_row sc field seg doc = ucast doc + 10"

definition example_hits :: "(f32 \<times> doc_address) list" where
  "example_hits = [(f32_one, 0, 4), (default_negative_boost, 0, 2), (f32_zero, 0, 7)]"

definition example_reader_api :: "('i, unit, unit, unit, nat, string) reader_api" where
  "example_reader_api = \<lparr>
     ra_open = (\<lambda>_ _ d. (d, Inr ())),
     ra_index = (\<lambda>_ _. example_index),
     ra_reader = (\<lambda>_ d. (d, Inr ())),
     ra_searcher = (\<lambda>_. ()),
     ra_search = (\<lambda>sc q g n d. (d, Inr (take (unat n) (filter (\<lambda>(_, seg, doc).
        case g of None \<Rightarrow> True | Some (field, p) \<Rightarrow> p (example_row sc field seg doc)) example_hits)))),
     ra_column = (\<lambda>sc seg field d. (d, Inr (example_row sc field seg))),
     ra_roaring = (\<lambda>bs. if bs = [] then Inl [Lit ''failed to fill whole buffer''] else Inr (\<lambda>r. r \<in> set (map ucast bs))),
     ra_version = ''0.26.1''\<rparr>"

definition example_query_codec :: json_text where
  "example_query_codec = \<lparr>jt_print = (\<lambda>_. Inl []),
     jt_parse = (\<lambda>bs. if bs = [] then Inl [Lit ''EOF while parsing a value'']
        else Inr (JObj [(''match'', JObj [(''query'', JStr ''rust''), (''column'', JStr ''title'')])]))\<rparr>"

definition example_reader :: "(unit, unit) full_text_index_reader" where
  "example_reader = \<lparr>rd_index = (), rd_registry = Map.empty, rd_reader = None, rd_lock_poisoned = False,
     rd_metadata = \<lparr>config = example_config, document_count = 3, tantivy_version = ''0.26.1''\<rparr>\<rparr>"

lemma example_search_contract:
  assumes "ra_search example_reader_api sc q g n d = (d', Inr hits)"
  shows "length hits \<le> unat n \<and> sorted_wrt (\<lambda>x y. f32_le (fst y) (fst x)) hits
     \<and> (\<forall>field p. g = Some (field, p) \<longrightarrow> list_all (\<lambda>(_, seg, doc). p (example_row sc field seg doc)) hits)"
proof -
  have "sorted_wrt (\<lambda>x y. f32_le (fst y) (fst x)) example_hits"
    by (simp add: example_hits_def f32_one_def f32_zero_def default_negative_boost_def)
  then show ?thesis
    using assms
    by (auto simp: example_reader_api_def list_all_iff intro!: sorted_wrt_take sorted_wrt_filter dest: in_set_takeD)
qed

lemma example_column_contract:
  "ra_column example_reader_api sc seg field d = (d', Inr col) \<Longrightarrow> col = example_row sc field seg"
  by (simp add: example_reader_api_def)

lemma example_built:
  "\<exists>t. build_query example_index example_config (QMatch (Some ''title'') ''rust'' OpOr f32_one (Some 0) 50 0) = Inr t"
proof -
  have "trim ''title'' = ''title''" by code_simp
  then have "spec_ok example_index example_config (QMatch (Some ''title'') ''rust'' OpOr f32_one (Some 0) 50 0)"
    by (simp add: options_ok_def boost_ok_one column_ok_def given_column_def example_config_def)
  then show ?thesis using match_succeeds [OF example_serves] unfolding succeeds_def by blast
qed

lemma example_search:
  "\<exists>s' res. search_with_filter example_query_codec example_reader_api [1] 2 (Some (\<lambda>r. r \<noteq> 12)) (example_reader, d) = (s', Inr res)
     \<and> sr_row_ids res = [14, 17]"
proof -
  obtain t where t: "build_query example_index example_config (QMatch (Some ''title'') ''rust'' OpOr f32_one (Some 0) 50 0) = Inr t"
    using example_built by blast
  have json: "from_json example_query_codec [1] = Inr (QMatch (Some ''title'') ''rust'' OpOr f32_one (Some 0) 50 0)"
    by (simp add: from_json_def example_query_codec_def minimal_match)
  show ?thesis
    by (simp add: search_with_filter_def st_bind_def searcher_def example_reader_def example_reader_api_def json t
        collect_result_def st_map_err_def example_hits_def example_row_def del: build_query.simps)
qed

theorem search_results_filtered_witness:
  "\<exists>s' res. search_with_filter example_query_codec example_reader_api [1] 2 (Some (\<lambda>r. r \<noteq> 12)) (example_reader, new_cache (default_io ())) = (s', Inr res)
     \<and> length (sr_row_ids res) \<le> 2 \<and> list_all (\<lambda>r. r \<noteq> 12) (sr_row_ids res)"
proof -
  obtain s' res where run: "search_with_filter example_query_codec example_reader_api [1] 2 (Some (\<lambda>r. r \<noteq> 12))
      (example_reader, new_cache (default_io ())) = (s', Inr res)" using example_search by blast
  have "length (sr_row_ids res) = length (sr_scores res) \<and> length (sr_row_ids res) \<le> unat (2 :: usize)
     \<and> sorted_wrt (\<lambda>x y. f32_le y x) (sr_scores res)
     \<and> (\<forall>p. Some (\<lambda>r. r \<noteq> 12) = Some p \<longrightarrow> list_all p (sr_row_ids res))"
    by (rule search_results_filtered [OF run, of example_row])
      (erule example_search_contract, erule example_column_contract)
  with run show ?thesis by auto
qed

theorem search_refused_early_witness:
  "search_with_roaring_filter example_query_codec example_reader_api [1] 2 [] (example_reader, new_cache (default_io ()))
     = ((example_reader, new_cache (default_io ())),
        Inl (InvalidQuery [Lit ''invalid RoaringTreemap filter: '', Lit ''failed to fill whole buffer'']))
   \<and> search_with_filter example_query_codec example_reader_api [] 2 None (example_reader\<lparr>rd_reader := Some ()\<rparr>, new_cache (default_io ()))
     = ((example_reader\<lparr>rd_reader := Some ()\<rparr>, new_cache (default_io ())), Inl (Json [Lit ''EOF while parsing a value'']))"
proof -
  have r: "ra_roaring (example_reader_api :: (unit, unit, unit, unit, nat, string) reader_api) [] = Inl [Lit ''failed to fill whole buffer'']"
    by (simp add: example_reader_api_def)
  have q: "from_json example_query_codec [] = Inl (Json [Lit ''EOF while parsing a value''])"
    by (simp add: from_json_def example_query_codec_def)
  let ?s = "(example_reader\<lparr>rd_reader := Some ()\<rparr>, new_cache (default_io ()))"
  have ready: "rd_reader (fst ?s) = Some ()" "\<not> rd_lock_poisoned (fst ?s)" by (simp_all add: example_reader_def)
  show ?thesis
    using search_refused_early [of example_query_codec example_reader_api "[1]" None "(example_reader, new_cache (default_io ()))" "[]" 2]
      search_refused_early [of example_query_codec example_reader_api "[]" None ?s "[]" 2] r q ready by simp
qed

theorem reader_created_once_witness:
  "searcher example_reader_api (fold (exec_reader example_query_codec example_reader_api)
      [Search [1] 2, Prewarm, SearchRoaring [1] 0 [3]] (example_reader\<lparr>rd_reader := Some ()\<rparr>, new_cache (default_io ())))
     = (fold (exec_reader example_query_codec example_reader_api)
      [Search [1] 2, Prewarm, SearchRoaring [1] 0 [3]] (example_reader\<lparr>rd_reader := Some ()\<rparr>, new_cache (default_io ())), Inr ())"
proof -
  have "searcher example_reader_api (example_reader, new_cache (default_io ()))
      = ((example_reader\<lparr>rd_reader := Some ()\<rparr>, new_cache (default_io ())), Inr ())"
    by (simp add: searcher_def example_reader_def example_reader_api_def)
  from reader_created_once [OF this, of example_query_codec "[Search [1] 2, Prewarm, SearchRoaring [1] 0 [3]]"]
  show ?thesis by blast
qed

end
