(* ===== verification/HandleStore.thy ===== *)
theory HandleStore
  imports Prelude
begin

text \<open>
  The handles of a foreign interface, independent of the language that calls it. A library keeps
  objects in boxes behind addresses, hands the addresses out when it opens an object, and takes
  them back when the object is freed. The locale \<open>handle_store\<close> states what one call promises;
  what follows for a whole sequence of calls is proved once in it. The C and the Java interface
  interpret it.
\<close>

text \<open>A call returns the new state and an answer, or nothing when its behaviour is undefined.\<close>

fun run_calls :: "('c \<Rightarrow> 's \<Rightarrow> ('s \<times> 'a) option) \<Rightarrow> 'c list \<Rightarrow> 's \<Rightarrow> ('s \<times> 'a list) option" where
  "run_calls exec [] st = Some (st, [])"
| "run_calls exec (c # cs) st =
     Option.bind (exec c st) (\<lambda>(st1, a).
     Option.bind (run_calls exec cs st1) (\<lambda>(st', as). Some (st', a # as)))"

text \<open>
  The caller can keep track of the live handles: \<open>track\<close> says which are live after a call with an
  answer, \<open>opened\<close> which handle an answer hands out.
\<close>

abbreviation tracked :: "('c \<Rightarrow> 'a \<Rightarrow> u64 set \<Rightarrow> u64 set) \<Rightarrow> ('c \<times> 'a) list \<Rightarrow> u64 set \<Rightarrow> u64 set" where
  "tracked track h L \<equiv> fold (\<lambda>(c, a). track c a) h L"

fun fresh_handles ::
  "('c \<Rightarrow> 'a \<Rightarrow> u64 set \<Rightarrow> u64 set) \<Rightarrow> ('a \<Rightarrow> u64 option) \<Rightarrow> ('c \<times> 'a) list \<Rightarrow> u64 set \<Rightarrow> bool" where
  "fresh_handles track opened [] L \<longleftrightarrow> True"
| "fresh_handles track opened ((c, a) # h) L \<longleftrightarrow>
     (\<forall>p. opened a = Some p \<longrightarrow> p = 0 \<or> p \<notin> L) \<and> fresh_handles track opened h (track c a L)"

lemma room_left:
  assumes "card L < 2 ^ 64 - 1"
  shows "insert (0 :: u64) L \<noteq> UNIV"
proof
  assume "insert (0 :: u64) L = UNIV"
  then have "CARD(64 word) \<le> Suc (card L)" by (metis card_insert_le_m1 card_insert_if finite le_refl le_SucI)
  with assms show False by (simp add: card_word)
qed

locale handle_store =
  fixes exec :: "'c \<Rightarrow> 's \<Rightarrow> ('s \<times> 'a) option"
    and live :: "'s \<Rightarrow> u64 set" and inv :: "'s \<Rightarrow> bool"
    and same :: "u64 \<Rightarrow> 's \<Rightarrow> 's \<Rightarrow> bool"
    and handle :: "'c \<Rightarrow> 'a \<Rightarrow> u64" and track :: "'c \<Rightarrow> 'a \<Rightarrow> u64 set \<Rightarrow> u64 set"
    and opened :: "'a \<Rightarrow> u64 option"
    and fresh :: "'s \<Rightarrow> bool"
  assumes step_inv: "exec c st = Some (st', a) \<Longrightarrow> inv st \<Longrightarrow> fresh st \<Longrightarrow> inv st'"
    and step_live: "exec c st = Some (st', a) \<Longrightarrow> inv st \<Longrightarrow> fresh st \<Longrightarrow> live st' = track c a (live st)"
    and step_same: "exec c st = Some (st', a) \<Longrightarrow> inv st \<Longrightarrow> fresh st \<Longrightarrow> q \<noteq> handle c a \<Longrightarrow> same q st st'"
    and step_opened: "exec c st = Some (st', a) \<Longrightarrow> inv st \<Longrightarrow> fresh st \<Longrightarrow> opened a = Some p \<Longrightarrow> p = 0 \<or> p \<notin> live st"
    and same_refl: "same q st st"
    and same_trans: "same q st st1 \<Longrightarrow> same q st1 st2 \<Longrightarrow> same q st st2"
    and track_adds_one: "track c a L \<subseteq> L \<or> (\<exists>p. track c a L = insert p L)"
begin

lemma track_card: "card (track c a L) \<le> Suc (card L)"
  using track_adds_one [of c a L] by (auto simp: card_insert_if intro: le_SucI [OF card_mono])

lemma run_isolated:
  assumes room: "\<And>st. insert 0 (live st) \<noteq> UNIV \<Longrightarrow> fresh st"
  shows "run_calls exec cs st = Some (st', as) \<Longrightarrow> inv st \<Longrightarrow> card (live st) + length cs < 2 ^ 64 \<Longrightarrow>
     length as = length cs \<and> inv st' \<and> live st' = tracked track (zip cs as) (live st)
     \<and> fresh_handles track opened (zip cs as) (live st)
     \<and> (\<forall>q. (\<forall>(c, a) \<in> set (zip cs as). handle c a \<noteq> q) \<longrightarrow> same q st st')"
proof (induction cs arbitrary: st as)
  case Nil
  then show ?case by (simp add: same_refl)
next
  case (Cons c cs)
  obtain st1 a as' where step: "exec c st = Some (st1, a)" and rest: "run_calls exec cs st1 = Some (st', as')"
    and as: "as = a # as'" using Cons.prems(1) by (auto simp: Option.bind_eq_Some_conv)
  have fr: "fresh st" using Cons.prems(3) by (intro room room_left) simp
  have live1: "live st1 = track c a (live st)" by (rule step_live [OF step Cons.prems(2) fr])
  have "card (live st1) + length cs < 2 ^ 64"
    using Cons.prems(3) track_card [of c a "live st"] live1 by simp
  note ih = Cons.IH [OF rest step_inv [OF step Cons.prems(2) fr] this]
  have "same q st st'" if "\<forall>(c, a) \<in> set (zip (c # cs) as). handle c a \<noteq> q" for q
  proof (rule same_trans)
    show "same q st st1" using that as by (intro step_same [OF step Cons.prems(2) fr]) auto
    show "same q st1 st'" using that as ih by auto
  qed
  moreover have "fresh_handles track opened (zip (c # cs) as) (live st)"
    using ih as live1 step_opened [OF step Cons.prems(2) fr] by simp
  ultimately show ?case using ih as live1 by simp
qed

end

end
