(* ===== verification/FfiApi.thy ===== *)
theory FfiApi
  imports Reader HandleStore
begin

text \<open>
  The C interface of \<^verbatim>\<open>ffi/src/lib.rs\<close>: error reporting through a thread-local last error, callbacks
  for output and input, opaque handles, argument checking, and the copy of search results into
  the caller's buffers. A C string is its bytes without the terminator, a pointer that may be
  null is an option, an array behind a pointer is a list. The boxes behind the handles form a
  store from addresses to objects. Undefined behaviour (a handle that is not live, an array
  shorter than its length) is \<open>None\<close>, so a theorem that a call returns also says that it is
  defined. A panic that unwinds out of the body is a value of its own; the bodies modelled here
  do not panic themselves.
\<close>

section \<open>Errors\<close>

datatype panic_payload = PanicString string | PanicStr string | PanicOther

datatype ('e, 'a) unwound = Returned "'e + 'a" | Unwound panic_payload

definition replace_nul :: "string \<Rightarrow> string" where
  "replace_nul s = concat (map (\<lambda>c. if c = CHR 0x00 then [CHR 0x5C, CHR ''0''] else [c]) s)"

definition cstring_new :: "string \<Rightarrow> string option" where
  "cstring_new s = (if CHR 0x00 \<in> set s then None else Some s)"

definition panic_message :: "panic_payload \<Rightarrow> message" where
  "panic_message p = (case p of
     PanicString s \<Rightarrow> [Lit ''native panic: '', ArgStr s]
   | PanicStr s \<Rightarrow> [Lit ''native panic: '', ArgStr s]
   | PanicOther \<Rightarrow> [Lit ''native panic: unknown''])"

text \<open>The text of an error as \<^verbatim>\<open>Display\<close> prints it; the parts are rendered
  elsewhere, and the text of a tantivy error is given.\<close>

definition io_message :: "io_error \<Rightarrow> message" where
  "io_message e = (case e of IoError _ m \<Rightarrow> m)"

definition error_message :: "(tantivy_error \<Rightarrow> message) \<Rightarrow> ft_error \<Rightarrow> message" where
  "error_message tantivy_message e = (case e of
     InvalidOption key m \<Rightarrow> [Lit ''invalid option '', ArgStr key, Lit '': ''] @ m
   | InvalidQuery m \<Rightarrow> Lit ''invalid query: '' # m
   | InvalidStorage m \<Rightarrow> Lit ''invalid storage format: '' # m
   | Io e' \<Rightarrow> Lit ''io error: '' # io_message e'
   | Json m \<Rightarrow> Lit ''json error: '' # m
   | Tantivy e' \<Rightarrow> Lit ''tantivy error: '' # tantivy_message e')"

section \<open>Callbacks\<close>

text \<open>
  A callback has the caller's context as its state and returns a status; a read callback also
  leaves bytes in the buffer, which has the requested length.
\<close>

record 'o output_file =
  of_write_fn :: "(bytes \<Rightarrow> 'o \<Rightarrow> 'o \<times> i32) option"
  of_flush_fn :: "('o \<Rightarrow> 'o \<times> i32) option"

type_synonym 'i input_file = "(u64 \<Rightarrow> usize \<Rightarrow> 'i \<Rightarrow> 'i \<times> i32 \<times> bytes) option"

abbreviation other_io :: "string \<Rightarrow> io_error" where
  "other_io s \<equiv> IoError OtherKind [Lit s]"

definition ffi_write_all :: "'o output_file \<Rightarrow> bytes \<Rightarrow> ('o, io_error, unit) st_res" where
  "ffi_write_all raw buf ctx =
     (case of_write_fn raw of
        None \<Rightarrow> (ctx, Inl (other_io ''write_fn is null''))
      | Some write_fn \<Rightarrow>
          (case write_fn buf ctx of (ctx', status) \<Rightarrow>
            if status = 0 then (ctx', Inr ()) else (ctx', Inl (other_io ''write callback failed''))))"

definition ffi_flush :: "'o output_file \<Rightarrow> ('o, io_error, unit) st_res" where
  "ffi_flush raw ctx =
     (case of_flush_fn raw of
        None \<Rightarrow> (ctx, Inr ())
      | Some flush_fn \<Rightarrow>
          (case flush_fn ctx of (ctx', status) \<Rightarrow>
            if status \<noteq> 0 then (ctx', Inl (other_io ''flush callback failed'')) else (ctx', Inr ())))"

definition ffi_output :: "'o output_file \<Rightarrow> 'o seek_write" where
  "ffi_output raw = \<lparr>write_all = ffi_write_all raw, flush = ffi_flush raw\<rparr>"

fun ffi_pread_loop ::
  "(u64 \<Rightarrow> usize \<Rightarrow> 'i \<Rightarrow> 'i \<times> i32 \<times> bytes) \<Rightarrow> read_request list \<Rightarrow> ('i, io_error, bytes list) st_res" where
  "ffi_pread_loop pread_fn [] ctx = (ctx, Inr [])"
| "ffi_pread_loop pread_fn (rq # rqs) ctx =
     (case pread_fn (req_pos rq) (req_len rq) ctx of (ctx', status, buf) \<Rightarrow>
        if status \<noteq> 0 then
          (ctx', Inl (IoError OtherKind [Lit ''pread callback failed at offset '', ArgNat (unat (req_pos rq)),
             Lit '' length '', ArgNat (unat (req_len rq))]))
        else st_bind (ffi_pread_loop pread_fn rqs) (\<lambda>bufs. st_lift (Inr (buf # bufs))) ctx')"

definition ffi_pread :: "'i input_file \<Rightarrow> 'i pread" where
  "ffi_pread raw rqs ctx =
     (case raw of
        None \<Rightarrow> (ctx, Inl (other_io ''pread_fn is null''))
      | Some pread_fn \<Rightarrow> ffi_pread_loop pread_fn rqs ctx)"

section \<open>Arguments\<close>

text \<open>
  A byte sequence is valid UTF-8 by the table of the Unicode standard (no overlong forms, no
  surrogates, nothing above U+10FFFF).
\<close>

definition cont :: "u8 \<Rightarrow> bool" where
  "cont b \<longleftrightarrow> 128 \<le> b \<and> b \<le> 191"

fun valid_utf8 :: "bytes \<Rightarrow> bool" where
  "valid_utf8 [] = True"
| "valid_utf8 (a # bs) =
     (if a \<le> 127 then valid_utf8 bs
      else if 194 \<le> a \<and> a \<le> 223 then
        (case bs of b # cs \<Rightarrow> cont b \<and> valid_utf8 cs | _ \<Rightarrow> False)
      else if 224 \<le> a \<and> a \<le> 239 then
        (case bs of b # c # cs \<Rightarrow>
           (if a = 224 then 160 \<le> b \<and> b \<le> 191 else if a = 237 then 128 \<le> b \<and> b \<le> 159 else cont b)
           \<and> cont c \<and> valid_utf8 cs
         | _ \<Rightarrow> False)
      else if 240 \<le> a \<and> a \<le> 244 then
        (case bs of b # c # d # cs \<Rightarrow>
           (if a = 240 then 144 \<le> b \<and> b \<le> 191 else if a = 244 then 128 \<le> b \<and> b \<le> 143 else cont b)
           \<and> cont c \<and> cont d \<and> valid_utf8 cs
         | _ \<Rightarrow> False)
      else False)"

type_synonym c_str = "bytes option"

definition str_of_bytes :: "bytes \<Rightarrow> string" where
  "str_of_bytes bs = map (\<lambda>b. char_of (unat b)) bs"

text \<open>What the functions get from outside: the libraries below, the renderer, the allocator.\<close>

record ('e, 'f, 'x, 'w, 'i, 'y, 'r, 's, 'q) ffi_env =
  fe_json :: json_text
  fe_lower :: "string \<Rightarrow> string"
  fe_analyzers :: analyzer_env
  fe_writer_api :: "('e, 'f, 'x, 'w) writer_api"
  fe_reader_api :: "('i, 'y, 'r, 's, 'f, 'q) reader_api"
  fe_render :: "message \<Rightarrow> string"
  fe_tantivy_message :: "tantivy_error \<Rightarrow> message"
  fe_utf8_error :: "bytes \<Rightarrow> message"
  fe_hash_order :: "options \<Rightarrow> options"
  fe_alloc :: "u64 set \<Rightarrow> u64"

definition cstr_to_string :: "(bytes \<Rightarrow> message) \<Rightarrow> c_str \<Rightarrow> string \<Rightarrow> message + string" where
  "cstr_to_string utf8_error p name =
     (case p of
        None \<Rightarrow> Inl [ArgStr name, Lit '' is null'']
      | Some bs \<Rightarrow>
          if valid_utf8 bs then Inr (str_of_bytes bs)
          else Inl ([ArgStr name, Lit '' is not valid UTF-8: ''] @ utf8_error bs))"

definition const_slice :: "'a list option \<Rightarrow> usize \<Rightarrow> string \<Rightarrow> (message + 'a list) option" where
  "const_slice p len name =
     (if len = 0 then Some (Inr [])
      else case p of
        None \<Rightarrow> Some (Inl [ArgStr name, Lit '' is null''])
      | Some xs \<Rightarrow> if length xs < unat len then None else Some (Inr (take (unat len) xs)))"

definition read_pairs ::
  "(bytes \<Rightarrow> message) \<Rightarrow> string \<Rightarrow> string \<Rightarrow> c_str list \<Rightarrow> c_str list \<Rightarrow> message + (string \<times> string) list" where
  "read_pairs utf8_error key_name value_name ks vs =
     res_collect (\<lambda>(k, v).
       res_bind (cstr_to_string utf8_error k key_name) (\<lambda>key.
       res_bind (cstr_to_string utf8_error v value_name) (\<lambda>val. Inr (key, val)))) (zip ks vs)"

definition raw_arrays ::
  "string \<Rightarrow> string \<Rightarrow> c_str list option \<Rightarrow> c_str list option \<Rightarrow> usize \<Rightarrow> (message + c_str list \<times> c_str list) option" where
  "raw_arrays first second ks vs len =
     (case ks of
        None \<Rightarrow> Some (Inl [Lit (first @ '' is null'')])
      | Some ks' \<Rightarrow>
          (case vs of
             None \<Rightarrow> Some (Inl [Lit (second @ '' is null'')])
           | Some vs' \<Rightarrow>
               if length ks' < unat len \<or> length vs' < unat len then None
               else Some (Inr (take (unat len) ks', take (unat len) vs'))))"

definition options_from_raw ::
  "(bytes \<Rightarrow> message) \<Rightarrow> c_str list option \<Rightarrow> c_str list option \<Rightarrow> usize \<Rightarrow> (message + options) option" where
  "options_from_raw utf8_error ks vs len =
     (if len = 0 then Some (Inr [])
      else map_option (\<lambda>arrays. res_bind arrays (\<lambda>(ks', vs').
        res_bind (read_pairs utf8_error ''option key'' ''option value'' ks' vs') (\<lambda>pairs.
        Inr (fold (\<lambda>(k, v) opts. AList.update k v opts) pairs []))))
        (raw_arrays ''keys'' ''values'' ks vs len))"

definition fields_from_raw ::
  "(bytes \<Rightarrow> message) \<Rightarrow> c_str list option \<Rightarrow> c_str list option \<Rightarrow> usize \<Rightarrow> (message + (string \<times> string) list) option" where
  "fields_from_raw utf8_error names texts len =
     (if len = 0 then Some (Inl [Lit ''document fields must not be empty''])
      else map_option (\<lambda>arrays. res_bind arrays (\<lambda>(ns, ts).
        read_pairs utf8_error ''field name'' ''field text'' ns ts))
        (raw_arrays ''field_names'' ''texts'' names texts len))"

section \<open>The state of the library\<close>

text \<open>
  The last error of the calling thread, the live boxes of both kinds, and the world of the
  writers. The input callbacks of a reader are part of the tantivy index in its box.
\<close>

record ('e, 'f, 'w, 'i, 'y, 'r) ffi_state =
  ff_last_error :: "string option"
  ff_writers :: "u64 \<rightharpoonup> ('f, 'w) full_text_index_writer"
  ff_readers :: "u64 \<rightharpoonup> ('i, 'y, 'r) reader_state"
  ff_world :: 'e

definition live :: "('e, 'f, 'w, 'i, 'y, 'r) ffi_state \<Rightarrow> u64 set" where
  "live st = dom (ff_writers st) \<union> dom (ff_readers st)"

definition set_error :: "string \<Rightarrow> ('e, 'f, 'w, 'i, 'y, 'r) ffi_state \<Rightarrow> ('e, 'f, 'w, 'i, 'y, 'r) ffi_state" where
  "set_error msg st = st\<lparr>ff_last_error := cstring_new (replace_nul msg)\<rparr>"

definition paimon_ftindex_last_error :: "('e, 'f, 'w, 'i, 'y, 'r) ffi_state \<Rightarrow> string option" where
  "paimon_ftindex_last_error st = ff_last_error st"

text \<open>A body returns the state and how it ended; \<open>ffi_status\<close> and \<open>ffi_ptr\<close> turn that into a result.\<close>

definition ffi_status ::
  "(message \<Rightarrow> string) \<Rightarrow> ('e, 'f, 'w, 'i, 'y, 'r) ffi_state \<times> (message, unit) unwound
     \<Rightarrow> ('e, 'f, 'w, 'i, 'y, 'r) ffi_state \<times> i32" where
  "ffi_status render body =
     (case body of (st, Returned (Inr _)) \<Rightarrow> (st, 0)
      | (st, Returned (Inl e)) \<Rightarrow> (set_error (render e) st, -1)
      | (st, Unwound p) \<Rightarrow> (set_error (render (panic_message p)) st, -1))"

definition ffi_ptr ::
  "(message \<Rightarrow> string) \<Rightarrow> ('e, 'f, 'w, 'i, 'y, 'r) ffi_state \<times> (message, u64) unwound
     \<Rightarrow> ('e, 'f, 'w, 'i, 'y, 'r) ffi_state \<times> u64" where
  "ffi_ptr render body =
     (case body of (st, Returned (Inr p)) \<Rightarrow> (st, p)
      | (st, Returned (Inl e)) \<Rightarrow> (set_error (render e) st, 0)
      | (st, Unwound p) \<Rightarrow> (set_error (render (panic_message p)) st, 0))"

text \<open>\<^verbatim>\<open>require_mut\<close> and \<^verbatim>\<open>require_ref\<close>: an error for null, undefined for an address that is not live.\<close>

definition require_box :: "(u64 \<rightharpoonup> 'a) \<Rightarrow> u64 \<Rightarrow> string \<Rightarrow> (message + 'a) option" where
  "require_box boxes p name =
     (if p = 0 then Some (Inl [ArgStr name, Lit '' is null'']) else map_option Inr (boxes p))"

section \<open>Writers\<close>

definition paimon_ftindex_writer_open ::
  "('e, 'f, 'x, 'w, 'i, 'y, 'r, 's, 'q) ffi_env \<Rightarrow> c_str list option \<Rightarrow> c_str list option \<Rightarrow> usize
     \<Rightarrow> ('e, 'f, 'w, 'i, 'y, 'r) ffi_state \<Rightarrow> (('e, 'f, 'w, 'i, 'y, 'r) ffi_state \<times> u64) option" where
  "paimon_ftindex_writer_open V ks vs len st =
     map_option (\<lambda>opts. ffi_ptr (fe_render V)
       (case res_bind opts (\<lambda>options. map_err (error_message (fe_tantivy_message V))
               (config_from_options (fe_lower V) (fe_hash_order V options))) of
          Inl e \<Rightarrow> (st, Returned (Inl e))
        | Inr c \<Rightarrow>
            (case writer_new (fe_writer_api V) (fe_analyzers V) c (ff_world st) of
               (e', Inl err) \<Rightarrow> (st\<lparr>ff_world := e'\<rparr>, Returned (Inl (error_message (fe_tantivy_message V) err)))
             | (e', Inr w) \<Rightarrow>
                 let p = fe_alloc V (live st) in
                 (st\<lparr>ff_world := e', ff_writers := (ff_writers st)(p \<mapsto> w)\<rparr>, Returned (Inr p)))))
       (options_from_raw (fe_utf8_error V) ks vs len)"

text \<open>A writer operation on the box behind a handle.\<close>

definition on_writer ::
  "('e, 'f, 'x, 'w, 'i, 'y, 'r, 's, 'q) ffi_env \<Rightarrow> u64 \<Rightarrow> (message + 'a) option
     \<Rightarrow> ('a \<Rightarrow> (('f, 'w) full_text_index_writer \<times> 'e, ft_error, unit) st_res)
     \<Rightarrow> ('e, 'f, 'w, 'i, 'y, 'r) ffi_state \<Rightarrow> (('e, 'f, 'w, 'i, 'y, 'r) ffi_state \<times> i32) option" where
  "on_writer V writer args op st =
     Option.bind (require_box (ff_writers st) writer ''writer'') (\<lambda>box.
       case box of
         Inl e \<Rightarrow> Some (ffi_status (fe_render V) (st, Returned (Inl e)))
       | Inr w \<Rightarrow> Option.bind args (\<lambda>a.
           case a of
             Inl e \<Rightarrow> Some (ffi_status (fe_render V) (st, Returned (Inl e)))
           | Inr x \<Rightarrow>
               (case op x (w, ff_world st) of ((w', e'), r) \<Rightarrow>
                  Some (ffi_status (fe_render V)
                    (st\<lparr>ff_world := e', ff_writers := (ff_writers st)(writer \<mapsto> w')\<rparr>,
                     Returned (map_err (error_message (fe_tantivy_message V)) r))))))"

definition paimon_ftindex_writer_add_document ::
  "('e, 'f, 'x, 'w, 'i, 'y, 'r, 's, 'q) ffi_env \<Rightarrow> u64 \<Rightarrow> i64 \<Rightarrow> c_str
     \<Rightarrow> ('e, 'f, 'w, 'i, 'y, 'r) ffi_state \<Rightarrow> (('e, 'f, 'w, 'i, 'y, 'r) ffi_state \<times> i32) option" where
  "paimon_ftindex_writer_add_document V writer row_id str =
     on_writer V writer (Some (cstr_to_string (fe_utf8_error V) str ''text''))
       (\<lambda>s. add_document (fe_writer_api V) row_id s)"

definition paimon_ftindex_writer_add_document_fields ::
  "('e, 'f, 'x, 'w, 'i, 'y, 'r, 's, 'q) ffi_env \<Rightarrow> u64 \<Rightarrow> i64 \<Rightarrow> c_str list option \<Rightarrow> c_str list option \<Rightarrow> usize
     \<Rightarrow> ('e, 'f, 'w, 'i, 'y, 'r) ffi_state \<Rightarrow> (('e, 'f, 'w, 'i, 'y, 'r) ffi_state \<times> i32) option" where
  "paimon_ftindex_writer_add_document_fields V writer row_id names texts len =
     on_writer V writer (fields_from_raw (fe_utf8_error V) names texts len)
       (\<lambda>fds. add_document_fields (fe_writer_api V) row_id fds)"

text \<open>Writing also changes the context of the output callbacks.\<close>

definition paimon_ftindex_writer_write_index ::
  "('e, 'f, 'x, 'w, 'i, 'y, 'r, 's, 'q) ffi_env \<Rightarrow> u64 \<Rightarrow> 'o output_file
     \<Rightarrow> ('e, 'f, 'w, 'i, 'y, 'r) ffi_state \<times> 'o \<Rightarrow> ((('e, 'f, 'w, 'i, 'y, 'r) ffi_state \<times> 'o) \<times> i32) option" where
  "paimon_ftindex_writer_write_index V writer output = (\<lambda>(st, out).
     map_option (\<lambda>box.
       case box of
         Inl e \<Rightarrow> (case ffi_status (fe_render V) (st, Returned (Inl e)) of (st', status) \<Rightarrow> ((st', out), status))
       | Inr w \<Rightarrow>
           (case writer_write (fe_json V) (fe_writer_api V) (ffi_output output) (w, ff_world st, out) of
              ((w', e', out'), r) \<Rightarrow>
                (case ffi_status (fe_render V)
                   (st\<lparr>ff_world := e', ff_writers := (ff_writers st)(writer \<mapsto> w')\<rparr>,
                    Returned (map_err (error_message (fe_tantivy_message V)) r)) of
                   (st', status) \<Rightarrow> ((st', out'), status))))
       (require_box (ff_writers st) writer ''writer''))"

definition paimon_ftindex_writer_free ::
  "u64 \<Rightarrow> ('e, 'f, 'w, 'i, 'y, 'r) ffi_state \<Rightarrow> ('e, 'f, 'w, 'i, 'y, 'r) ffi_state option" where
  "paimon_ftindex_writer_free writer st =
     (if writer = 0 then Some st
      else if ff_writers st writer = None then None
      else Some (st\<lparr>ff_writers := (ff_writers st)(writer := None)\<rparr>))"

section \<open>Readers\<close>

definition paimon_ftindex_reader_open ::
  "('e, 'f, 'x, 'w, 'i, 'y, 'r, 's, 'q) ffi_env \<Rightarrow> 'i input_file \<Rightarrow> 'i
     \<Rightarrow> ('e, 'f, 'w, 'i, 'y, 'r) ffi_state \<Rightarrow> ('e, 'f, 'w, 'i, 'y, 'r) ffi_state \<times> u64" where
  "paimon_ftindex_reader_open V input ctx st = ffi_ptr (fe_render V)
     (case reader_open (fe_json V) (fe_reader_api V) (fe_analyzers V) (ffi_pread input) ctx of
        Inl err \<Rightarrow> (st, Returned (Inl (error_message (fe_tantivy_message V) err)))
      | Inr rs \<Rightarrow>
          let p = fe_alloc V (live st) in (st\<lparr>ff_readers := (ff_readers st)(p \<mapsto> rs)\<rparr>, Returned (Inr p)))"

text \<open>The caller's memory for a result: two arrays and the cell for the length, each behind a pointer.\<close>

record search_buffers =
  sb_row_ids :: "i64 list option"
  sb_scores :: "f32 list option"
  sb_result_len :: "usize option"

record search_request =
  sq_query :: c_str
  sq_limit :: usize
  sq_roaring_filter :: "bytes option"
  sq_capacity :: usize

definition copy_into :: "'a list \<Rightarrow> 'a list \<Rightarrow> 'a list option" where
  "copy_into src dst = (if length dst < length src then None else Some (src @ drop (length src) dst))"

definition copy_results ::
  "full_text_search_result \<Rightarrow> search_buffers \<Rightarrow> (search_buffers \<times> (message + unit)) option" where
  "copy_results res b =
     (if sr_row_ids res = [] then Some (b, Inr ())
      else case sb_row_ids b of
        None \<Rightarrow> Some (b, Inl [Lit ''row_ids is null''])
      | Some ids \<Rightarrow>
          (case sb_scores b of
             None \<Rightarrow> Some (b, Inl [Lit ''scores is null''])
           | Some scs \<Rightarrow>
               Option.bind (copy_into (sr_row_ids res) ids) (\<lambda>ids'.
               Option.bind (copy_into (sr_scores res) scs) (\<lambda>scs'.
               Some (b\<lparr>sb_row_ids := Some ids', sb_scores := Some scs'\<rparr>, Inr ())))))"

definition search_impl ::
  "('e, 'f, 'x, 'w, 'i, 'y, 'r, 's, 'q) ffi_env \<Rightarrow> search_request \<Rightarrow> ('i, 'y, 'r) reader_state \<Rightarrow> search_buffers
     \<Rightarrow> (('i, 'y, 'r) reader_state \<times> search_buffers \<times> (message + unit)) option" where
  "search_impl V req rs b =
     (if sb_result_len b = None then Some (rs, b, Inl [Lit ''result_len is null''])
      else case cstr_to_string (fe_utf8_error V) (sq_query req) ''query'' of
        Inl e \<Rightarrow> Some (rs, b, Inl e)
      | Inr query \<Rightarrow>
          (case (case sq_roaring_filter req of
                   Some f \<Rightarrow> search_with_roaring_filter (fe_json V) (fe_reader_api V) (map of_char query) (sq_limit req) f
                 | None \<Rightarrow> search (fe_json V) (fe_reader_api V) (map of_char query) (sq_limit req)) rs of
             (rs', Inl err) \<Rightarrow> Some (rs', b, Inl (error_message (fe_tantivy_message V) err))
           | (rs', Inr res) \<Rightarrow>
               let n = length (sr_row_ids res); b' = b\<lparr>sb_result_len := Some (of_nat n)\<rparr> in
               if unat (sq_capacity req) < n then
                 Some (rs', b', Inl [Lit ''result capacity '', ArgNat (unat (sq_capacity req)),
                   Lit '' is smaller than result length '', ArgNat n])
               else map_option (\<lambda>(b'', r). (rs', b'', r)) (copy_results res b')))"

text \<open>A body on the box behind a reader handle; \<open>m\<close> is the memory of the caller it may write.\<close>

definition on_reader ::
  "('e, 'f, 'x, 'w, 'i, 'y, 'r, 's, 'q) ffi_env \<Rightarrow> u64
     \<Rightarrow> (('i, 'y, 'r) reader_state \<Rightarrow> 'm \<Rightarrow> (('i, 'y, 'r) reader_state \<times> 'm \<times> (message + unit)) option)
     \<Rightarrow> ('e, 'f, 'w, 'i, 'y, 'r) ffi_state \<times> 'm \<Rightarrow> ((('e, 'f, 'w, 'i, 'y, 'r) ffi_state \<times> 'm) \<times> i32) option" where
  "on_reader V reader body = (\<lambda>(st, m).
     Option.bind (require_box (ff_readers st) reader ''reader'') (\<lambda>box.
       case box of
         Inl e \<Rightarrow> (case ffi_status (fe_render V) (st, Returned (Inl e)) of (st', status) \<Rightarrow> Some ((st', m), status))
       | Inr rs \<Rightarrow> Option.bind (body rs m) (\<lambda>(rs', m', r).
           case ffi_status (fe_render V) (st\<lparr>ff_readers := (ff_readers st)(reader \<mapsto> rs')\<rparr>, Returned r) of
             (st', status) \<Rightarrow> Some ((st', m'), status))))"

definition paimon_ftindex_reader_search ::
  "('e, 'f, 'x, 'w, 'i, 'y, 'r, 's, 'q) ffi_env \<Rightarrow> u64 \<Rightarrow> c_str \<Rightarrow> usize \<Rightarrow> usize
     \<Rightarrow> ('e, 'f, 'w, 'i, 'y, 'r) ffi_state \<times> search_buffers \<Rightarrow> ((('e, 'f, 'w, 'i, 'y, 'r) ffi_state \<times> search_buffers) \<times> i32) option" where
  "paimon_ftindex_reader_search V reader query limit capacity =
     on_reader V reader (search_impl V \<lparr>sq_query = query, sq_limit = limit, sq_roaring_filter = None, sq_capacity = capacity\<rparr>)"

definition paimon_ftindex_reader_search_with_roaring_filter ::
  "('e, 'f, 'x, 'w, 'i, 'y, 'r, 's, 'q) ffi_env \<Rightarrow> u64 \<Rightarrow> c_str \<Rightarrow> usize \<Rightarrow> bytes option \<Rightarrow> usize \<Rightarrow> usize
     \<Rightarrow> ('e, 'f, 'w, 'i, 'y, 'r) ffi_state \<times> search_buffers \<Rightarrow> ((('e, 'f, 'w, 'i, 'y, 'r) ffi_state \<times> search_buffers) \<times> i32) option" where
  "paimon_ftindex_reader_search_with_roaring_filter V reader query limit flt flt_len capacity =
     on_reader V reader (\<lambda>rs b. Option.bind (const_slice flt flt_len ''roaring_filter'') (\<lambda>sl.
       case sl of
         Inl e \<Rightarrow> Some (rs, b, Inl e)
       | Inr f \<Rightarrow> search_impl V \<lparr>sq_query = query, sq_limit = limit, sq_roaring_filter = Some f, sq_capacity = capacity\<rparr> rs b))"

definition paimon_ftindex_reader_prewarm ::
  "('e, 'f, 'x, 'w, 'i, 'y, 'r, 's, 'q) ffi_env \<Rightarrow> u64
     \<Rightarrow> ('e, 'f, 'w, 'i, 'y, 'r) ffi_state \<times> unit \<Rightarrow> ((('e, 'f, 'w, 'i, 'y, 'r) ffi_state \<times> unit) \<times> i32) option" where
  "paimon_ftindex_reader_prewarm V reader =
     on_reader V reader (\<lambda>rs m. case prewarm (fe_reader_api V) rs of (rs', r) \<Rightarrow>
       Some (rs', m, map_err (error_message (fe_tantivy_message V)) r))"

record ffi_read_metrics =
  fm_pread_calls :: u64
  fm_pread_ranges :: u64
  fm_pread_bytes :: u64
  fm_cache_hits :: u64
  fm_cache_misses :: u64
  fm_cache_evictions :: u64
  fm_cached_blocks :: u64

definition ffi_metrics_from :: "full_text_read_metrics \<Rightarrow> ffi_read_metrics" where
  "ffi_metrics_from m = \<lparr>fm_pread_calls = m_pread_calls m, fm_pread_ranges = m_pread_ranges m,
     fm_pread_bytes = m_pread_bytes m, fm_cache_hits = m_cache_hits m, fm_cache_misses = m_cache_misses m,
     fm_cache_evictions = m_cache_evictions m, fm_cached_blocks = m_cached_blocks m\<rparr>"

definition paimon_ftindex_reader_read_metrics ::
  "('e, 'f, 'x, 'w, 'i, 'y, 'r, 's, 'q) ffi_env \<Rightarrow> u64
     \<Rightarrow> ('e, 'f, 'w, 'i, 'y, 'r) ffi_state \<times> ffi_read_metrics option
     \<Rightarrow> ((('e, 'f, 'w, 'i, 'y, 'r) ffi_state \<times> ffi_read_metrics option) \<times> i32) option" where
  "paimon_ftindex_reader_read_metrics V reader =
     on_reader V reader (\<lambda>rs m. Some (case m of
         None \<Rightarrow> (rs, None, Inl [ArgStr ''metrics'', Lit '' is null''])
       | Some _ \<Rightarrow> (rs, Some (ffi_metrics_from (reader_read_metrics rs)), Inr ())))"

definition paimon_ftindex_reader_free ::
  "u64 \<Rightarrow> ('e, 'f, 'w, 'i, 'y, 'r) ffi_state \<Rightarrow> ('e, 'f, 'w, 'i, 'y, 'r) ffi_state option" where
  "paimon_ftindex_reader_free reader st =
     (if reader = 0 then Some st
      else if ff_readers st reader = None then None
      else Some (st\<lparr>ff_readers := (ff_readers st)(reader := None)\<rparr>))"

section \<open>Callbacks that keep their promise\<close>

text \<open>
  What the caller of the C interface promises about its callbacks; the wrappers then fulfil the
  contracts of \<^verbatim>\<open>SeekWrite\<close> and \<^verbatim>\<open>SeekRead\<close> that the rest of the library relies on.
\<close>

locale c_output =
  fixes raw :: "'o output_file" and written :: "'o \<Rightarrow> bytes"
  assumes write_done: "of_write_fn raw = Some f \<Longrightarrow> f buf ctx = (ctx', 0) \<Longrightarrow> written ctx' = written ctx @ buf"
    and write_failed: "of_write_fn raw = Some f \<Longrightarrow> f buf ctx = (ctx', status) \<Longrightarrow>
          \<exists>n. written ctx' = written ctx @ take n buf"
    and flush_quiet: "of_flush_fn raw = Some g \<Longrightarrow> g ctx = (ctx', status) \<Longrightarrow> written ctx' = written ctx"

sublocale c_output \<subseteq> seek_writer "ffi_output raw" written
proof
  fix buf w w'
  show "written w' = written w @ buf" if "write_all (ffi_output raw) buf w = (w', Inr ())"
    using that write_done by (auto simp: ffi_output_def ffi_write_all_def split: option.splits prod.splits if_splits)
  show "\<exists>n. written w' = written w @ take n buf" if "write_all (ffi_output raw) buf w = (w', Inl e)" for e
    using that write_failed
    by (auto simp: ffi_output_def ffi_write_all_def intro: exI [of _ 0] split: option.splits prod.splits if_splits)
  show "written w' = written w" if "flush (ffi_output raw) w = (w', r)" for r
    using that flush_quiet by (auto simp: ffi_output_def ffi_flush_def split: option.splits prod.splits if_splits)
qed

locale c_input =
  fixes raw :: "'i input_file" and content :: bytes
  assumes read_done: "raw = Some f \<Longrightarrow> f pos len ctx = (ctx', 0, buf) \<Longrightarrow>
      request_within content (read_req pos len) \<and> buf = request_bytes content (read_req pos len)"
begin

lemma loop_reads:
  "raw = Some f \<Longrightarrow> ffi_pread_loop f rqs ctx = (ctx', Inr bufs) \<Longrightarrow>
     list_all (request_within content) rqs \<and> bufs = map (request_bytes content) rqs"
proof (induction rqs arbitrary: ctx bufs)
  case (Cons rq rqs)
  obtain ctx1 status buf where call: "f (req_pos rq) (req_len rq) ctx = (ctx1, status, buf)" by (metis prod_cases3)
  with Cons.prems obtain rest where "status = 0" "ffi_pread_loop f rqs ctx1 = (ctx', Inr rest)" "bufs = buf # rest"
    by (auto simp: res_simps split: if_splits)
  moreover from this have "request_within content rq \<and> buf = request_bytes content rq"
    using read_done [OF Cons.prems(1), of "req_pos rq" "req_len rq" ctx ctx1 buf] call
    by (simp add: request_within_def request_bytes_def)
  ultimately show ?case using Cons.IH [OF Cons.prems(1), of ctx1 rest] by simp
qed simp

end

sublocale c_input \<subseteq> seek_read "ffi_pread raw" content
  by unfold_locales (auto simp: ffi_pread_def dest: loop_reads split: option.splits)

section \<open>Calls\<close>

datatype ('o, 'i) ffi_call =
    WriterOpen "c_str list option" "c_str list option" usize
  | AddDocument u64 i64 c_str
  | AddDocumentFields u64 i64 "c_str list option" "c_str list option" usize
  | WriteIndex u64 "'o output_file" 'o
  | WriterFree u64
  | ReaderOpen "'i input_file" 'i
  | ReaderSearch u64 c_str usize usize search_buffers
  | ReaderSearchRoaring u64 c_str usize "bytes option" usize usize search_buffers
  | ReaderPrewarm u64
  | ReaderMetrics u64 "ffi_read_metrics option"
  | ReaderFree u64

datatype ffi_answer = Status i32 | Handle u64 | Nothing

fun exec_call ::
  "('e, 'f, 'x, 'w, 'i, 'y, 'r, 's, 'q) ffi_env \<Rightarrow> ('o, 'i) ffi_call \<Rightarrow> ('e, 'f, 'w, 'i, 'y, 'r) ffi_state
     \<Rightarrow> (('e, 'f, 'w, 'i, 'y, 'r) ffi_state \<times> ffi_answer) option" where
  "exec_call V (WriterOpen ks vs len) st = map_option (map_prod id Handle) (paimon_ftindex_writer_open V ks vs len st)"
| "exec_call V (AddDocument p row str) st = map_option (map_prod id Status) (paimon_ftindex_writer_add_document V p row str st)"
| "exec_call V (AddDocumentFields p row ns ts len) st =
     map_option (map_prod id Status) (paimon_ftindex_writer_add_document_fields V p row ns ts len st)"
| "exec_call V (WriteIndex p out ctx) st =
     map_option (map_prod fst Status) (paimon_ftindex_writer_write_index V p out (st, ctx))"
| "exec_call V (WriterFree p) st = map_option (\<lambda>st'. (st', Nothing)) (paimon_ftindex_writer_free p st)"
| "exec_call V (ReaderOpen inp ctx) st = Some (map_prod id Handle (paimon_ftindex_reader_open V inp ctx st))"
| "exec_call V (ReaderSearch p q limit cap b) st =
     map_option (map_prod fst Status) (paimon_ftindex_reader_search V p q limit cap (st, b))"
| "exec_call V (ReaderSearchRoaring p q limit f fl cap b) st =
     map_option (map_prod fst Status) (paimon_ftindex_reader_search_with_roaring_filter V p q limit f fl cap (st, b))"
| "exec_call V (ReaderPrewarm p) st = map_option (map_prod fst Status) (paimon_ftindex_reader_prewarm V p (st, ()))"
| "exec_call V (ReaderMetrics p m) st = map_option (map_prod fst Status) (paimon_ftindex_reader_read_metrics V p (st, m))"
| "exec_call V (ReaderFree p) st = map_option (\<lambda>st'. (st', Nothing)) (paimon_ftindex_reader_free p st)"

fun failed :: "ffi_answer \<Rightarrow> bool" where
  "failed (Status s) \<longleftrightarrow> s \<noteq> 0"
| "failed (Handle p) \<longleftrightarrow> p = 0"
| "failed Nothing \<longleftrightarrow> False"

lemma replace_nul_no_nul: "CHR 0x00 \<notin> set (replace_nul s)"
  by (auto simp: replace_nul_def)

lemma set_error_some: "ff_last_error (set_error m st) = Some (replace_nul m)"
  by (simp add: set_error_def cstring_new_def replace_nul_no_nul)

text \<open>How a call reports: a failure leaves a message without a zero byte, a success leaves the last error.\<close>

definition reported :: "('e, 'f, 'w, 'i, 'y, 'r) ffi_state \<Rightarrow> ('e, 'f, 'w, 'i, 'y, 'r) ffi_state \<Rightarrow> bool \<Rightarrow> bool" where
  "reported st st' bad \<longleftrightarrow> (if bad then \<exists>m. ff_last_error st' = Some m \<and> CHR 0x00 \<notin> set m
     else ff_last_error st' = ff_last_error st)"

lemma ffi_status_reported:
  assumes "ffi_status render (st1, r) = (st', status)" and "ff_last_error st1 = ff_last_error st"
  shows "reported st st' (status \<noteq> 0) \<and> (status = 0 \<or> status = -1)
     \<and> ff_writers st' = ff_writers st1 \<and> ff_readers st' = ff_readers st1"
  using assms
  by (auto simp: ffi_status_def reported_def replace_nul_no_nul set_error_def cstring_new_def
      split: unwound.splits sum.splits)

text \<open>
  What a call on one handle leaves alone: the other kind of boxes, the boxes behind other
  handles, and which handles are live.
\<close>

definition touches_writer :: "u64 \<Rightarrow> ('e, 'f, 'w, 'i, 'y, 'r) ffi_state \<Rightarrow> ('e, 'f, 'w, 'i, 'y, 'r) ffi_state \<Rightarrow> bool" where
  "touches_writer p st st' \<longleftrightarrow> ff_readers st' = ff_readers st \<and> dom (ff_writers st') = dom (ff_writers st)
     \<and> (\<forall>q. q \<noteq> p \<longrightarrow> ff_writers st' q = ff_writers st q)"

definition touches_reader :: "u64 \<Rightarrow> ('e, 'f, 'w, 'i, 'y, 'r) ffi_state \<Rightarrow> ('e, 'f, 'w, 'i, 'y, 'r) ffi_state \<Rightarrow> bool" where
  "touches_reader p st st' \<longleftrightarrow> ff_writers st' = ff_writers st \<and> dom (ff_readers st') = dom (ff_readers st)
     \<and> (\<forall>q. q \<noteq> p \<longrightarrow> ff_readers st' q = ff_readers st q)"

definition status_ok :: "('e, 'f, 'w, 'i, 'y, 'r) ffi_state \<Rightarrow> ('e, 'f, 'w, 'i, 'y, 'r) ffi_state \<Rightarrow> i32 \<Rightarrow> bool" where
  "status_ok st st' status \<longleftrightarrow> reported st st' (status \<noteq> 0) \<and> (status = 0 \<or> status = -1)"

lemma ffi_status_ok:
  assumes "ffi_status render (st1, r) = (st', status)" and "ff_last_error st1 = ff_last_error st"
  shows "status_ok st st' status" and "ff_writers st' = ff_writers st1" and "ff_readers st' = ff_readers st1"
  using ffi_status_reported [OF assms] by (simp_all add: status_ok_def)

lemma require_box_cases:
  assumes "require_box boxes p name = Some b"
  shows "(\<exists>e. b = Inl e) \<or> (\<exists>x. b = Inr x \<and> boxes p = Some x)"
  using assms by (auto simp: require_box_def split: if_splits)

lemma on_writer_frame:
  assumes "on_writer V p args op st = Some (st', status)"
  shows "status_ok st st' status \<and> touches_writer p st st'"
proof -
  obtain b where b: "require_box (ff_writers st) p ''writer'' = Some b"
    using assms by (auto simp: on_writer_def Option.bind_eq_Some_conv)
  have fail: ?thesis if "ffi_status (fe_render V) (st, Returned (Inl e)) = (st', status)" for e
    using ffi_status_ok [OF that refl] by (simp add: touches_writer_def)
  from require_box_cases [OF b] show ?thesis
  proof (elim disjE exE conjE)
    fix e
    assume "b = Inl e"
    then show ?thesis using assms b fail by (simp add: on_writer_def)
  next
    fix w
    assume w: "b = Inr w" "ff_writers st p = Some w"
    then obtain a where a: "args = Some a" using assms b by (auto simp: on_writer_def Option.bind_eq_Some_conv)
    show ?thesis
    proof (cases a)
      case (Inl e)
      then show ?thesis using assms b w a fail by (simp add: on_writer_def)
    next
      case (Inr x)
      obtain w' e' r where op: "op x (w, ff_world st) = ((w', e'), r)" by (metis prod.exhaust)
      let ?st1 = "st\<lparr>ff_world := e', ff_writers := (ff_writers st)(p \<mapsto> w')\<rparr>"
      have st: "ffi_status (fe_render V) (?st1, Returned (map_err (error_message (fe_tantivy_message V)) r)) = (st', status)"
        using assms b w a Inr op by (simp add: on_writer_def)
      have "ff_last_error ?st1 = ff_last_error st" by simp
      from ffi_status_ok [OF st this] w(2) show ?thesis by (auto simp: touches_writer_def)
    qed
  qed
qed

lemma write_index_frame:
  assumes "paimon_ftindex_writer_write_index V p output (st, out) = Some ((st', out'), status)"
  shows "status_ok st st' status \<and> touches_writer p st st'"
proof -
  obtain b where b: "require_box (ff_writers st) p ''writer'' = Some b"
    using assms by (auto simp: paimon_ftindex_writer_write_index_def)
  from require_box_cases [OF b] show ?thesis
  proof (elim disjE exE conjE)
    fix e
    assume "b = Inl e"
    then have "ffi_status (fe_render V) (st, Returned (Inl e)) = (st', status)"
      using assms b by (auto simp: paimon_ftindex_writer_write_index_def split: prod.splits)
    from ffi_status_ok [OF this refl] show ?thesis by (simp add: touches_writer_def)
  next
    fix w
    assume w: "b = Inr w" "ff_writers st p = Some w"
    obtain w' e' o' r where op: "writer_write (fe_json V) (fe_writer_api V) (ffi_output output) (w, ff_world st, out) = ((w', e', o'), r)"
      by (metis prod.exhaust)
    let ?st1 = "st\<lparr>ff_world := e', ff_writers := (ff_writers st)(p \<mapsto> w')\<rparr>"
    have st: "ffi_status (fe_render V) (?st1, Returned (map_err (error_message (fe_tantivy_message V)) r)) = (st', status)"
      using assms b w op by (auto simp: paimon_ftindex_writer_write_index_def split: prod.splits)
    have "ff_last_error ?st1 = ff_last_error st" by simp
    from ffi_status_ok [OF st this] w(2) show ?thesis by (auto simp: touches_writer_def)
  qed
qed

lemma on_reader_frame:
  assumes "on_reader V p body (st, m) = Some ((st', m'), status)"
  shows "status_ok st st' status \<and> touches_reader p st st'"
proof -
  obtain b where b: "require_box (ff_readers st) p ''reader'' = Some b"
    using assms by (auto simp: on_reader_def Option.bind_eq_Some_conv)
  from require_box_cases [OF b] show ?thesis
  proof (elim disjE exE conjE)
    fix e
    assume "b = Inl e"
    then have "ffi_status (fe_render V) (st, Returned (Inl e)) = (st', status)"
      using assms b by (auto simp: on_reader_def split: prod.splits)
    from ffi_status_ok [OF this refl] show ?thesis by (simp add: touches_reader_def)
  next
    fix rs
    assume rs: "b = Inr rs" "ff_readers st p = Some rs"
    then obtain z where "body rs m = Some z"
      using assms b by (auto simp: on_reader_def Option.bind_eq_Some_conv)
    moreover obtain rs' m2 r where "z = (rs', m2, r)" by (metis prod_cases3)
    ultimately have body: "body rs m = Some (rs', m2, r)" by simp
    obtain st2 status2 where st2: "ffi_status (fe_render V) (st\<lparr>ff_readers := (ff_readers st)(p \<mapsto> rs')\<rparr>, Returned r) = (st2, status2)"
      by fastforce
    with assms b rs body have "st2 = st'" "status2 = status" by (simp_all add: on_reader_def)
    with st2 have st: "ffi_status (fe_render V) (st\<lparr>ff_readers := (ff_readers st)(p \<mapsto> rs')\<rparr>, Returned r) = (st', status)"
      by simp
    have "ff_last_error (st\<lparr>ff_readers := (ff_readers st)(p \<mapsto> rs')\<rparr>) = ff_last_error st" by simp
    from ffi_status_ok [OF st this] rs(2) show ?thesis by (auto simp: touches_reader_def)
  qed
qed

text \<open>Opening: nothing but an error message, or one fresh box.\<close>

definition opens :: "('e, 'f, 'w, 'i, 'y, 'r) ffi_state \<Rightarrow> ('e, 'f, 'w, 'i, 'y, 'r) ffi_state \<Rightarrow> u64 \<Rightarrow> bool" where
  "opens st st' p \<longleftrightarrow> reported st st' (p = 0)
     \<and> (if p = 0 then ff_writers st' = ff_writers st \<and> ff_readers st' = ff_readers st
        else p \<notin> live st \<and> live st' = insert p (live st) \<and> (ff_writers st' p = None \<or> ff_readers st' p = None)
          \<and> (\<forall>q. q \<noteq> p \<longrightarrow> ff_writers st' q = ff_writers st q \<and> ff_readers st' q = ff_readers st q))"

lemma ffi_ptr_error:
  assumes "ffi_ptr render (st1, Returned (Inl e)) = (st', p)" and "ff_last_error st1 = ff_last_error st"
    and "ff_writers st1 = ff_writers st" and "ff_readers st1 = ff_readers st"
  shows "opens st st' p"
  using assms by (auto simp: ffi_ptr_def opens_def reported_def set_error_def cstring_new_def replace_nul_no_nul)

lemma writer_open_frame:
  assumes "paimon_ftindex_writer_open V ks vs len st = Some (st', p)"
    and "fe_alloc V (live st) \<notin> insert 0 (live st)"
  shows "opens st st' p"
proof -
  obtain opts where opts: "options_from_raw (fe_utf8_error V) ks vs len = Some opts"
    using assms(1) by (auto simp: paimon_ftindex_writer_open_def)
  let ?c = "res_bind opts (\<lambda>options. map_err (error_message (fe_tantivy_message V))
               (config_from_options (fe_lower V) (fe_hash_order V options)))"
  show ?thesis
  proof (cases ?c)
    case (Inl e)
    then have "ffi_ptr (fe_render V) (st, Returned (Inl e)) = (st', p)"
      using assms(1) opts by (simp add: paimon_ftindex_writer_open_def)
    then show ?thesis by (rule ffi_ptr_error) simp_all
  next
    case (Inr c)
    obtain e' r where new: "writer_new (fe_writer_api V) (fe_analyzers V) c (ff_world st) = (e', r)" by fastforce
    show ?thesis
    proof (cases r)
      case err: (Inl err)
      then have "ffi_ptr (fe_render V) (st\<lparr>ff_world := e'\<rparr>, Returned (Inl (error_message (fe_tantivy_message V) err))) = (st', p)"
        using assms(1) opts Inr new by (simp add: paimon_ftindex_writer_open_def)
      then show ?thesis by (rule ffi_ptr_error) simp_all
    next
      case ok: (Inr w)
      have "p = fe_alloc V (live st)" "st' = st\<lparr>ff_world := e', ff_writers := (ff_writers st)(fe_alloc V (live st) \<mapsto> w)\<rparr>"
        using assms(1) opts Inr new ok by (auto simp: paimon_ftindex_writer_open_def ffi_ptr_def Let_def)
      with assms(2) show ?thesis by (auto simp: opens_def reported_def live_def)
    qed
  qed
qed

lemma reader_open_frame:
  assumes "paimon_ftindex_reader_open V inp ctx st = (st', p)"
    and "fe_alloc V (live st) \<notin> insert 0 (live st)"
  shows "opens st st' p"
proof (cases "reader_open (fe_json V) (fe_reader_api V) (fe_analyzers V) (ffi_pread inp) ctx")
  case (Inl e)
  then have "ffi_ptr (fe_render V) (st, Returned (Inl (error_message (fe_tantivy_message V) e))) = (st', p)"
    using assms(1) by (simp add: paimon_ftindex_reader_open_def)
  then show ?thesis by (rule ffi_ptr_error) simp_all
next
  case (Inr rs)
  have "p = fe_alloc V (live st)" "st' = st\<lparr>ff_readers := (ff_readers st)(fe_alloc V (live st) \<mapsto> rs)\<rparr>"
    using assms(1) Inr by (auto simp: paimon_ftindex_reader_open_def ffi_ptr_def Let_def)
  with assms(2) show ?thesis by (auto simp: opens_def reported_def live_def)
qed

text \<open>The effect of every call, by its kind.\<close>

fun call_effect ::
  "('o, 'i) ffi_call \<Rightarrow> ffi_answer \<Rightarrow> ('e, 'f, 'w, 'i, 'y, 'r) ffi_state \<Rightarrow> ('e, 'f, 'w, 'i, 'y, 'r) ffi_state \<Rightarrow> bool" where
  "call_effect (WriterOpen _ _ _) (Handle p) st st' \<longleftrightarrow> opens st st' p"
| "call_effect (ReaderOpen _ _) (Handle p) st st' \<longleftrightarrow> opens st st' p"
| "call_effect (AddDocument p _ _) (Status s) st st' \<longleftrightarrow> status_ok st st' s \<and> touches_writer p st st'"
| "call_effect (AddDocumentFields p _ _ _ _) (Status s) st st' \<longleftrightarrow> status_ok st st' s \<and> touches_writer p st st'"
| "call_effect (WriteIndex p _ _) (Status s) st st' \<longleftrightarrow> status_ok st st' s \<and> touches_writer p st st'"
| "call_effect (ReaderSearch p _ _ _ _) (Status s) st st' \<longleftrightarrow> status_ok st st' s \<and> touches_reader p st st'"
| "call_effect (ReaderSearchRoaring p _ _ _ _ _ _) (Status s) st st' \<longleftrightarrow> status_ok st st' s \<and> touches_reader p st st'"
| "call_effect (ReaderPrewarm p) (Status s) st st' \<longleftrightarrow> status_ok st st' s \<and> touches_reader p st st'"
| "call_effect (ReaderMetrics p _) (Status s) st st' \<longleftrightarrow> status_ok st st' s \<and> touches_reader p st st'"
| "call_effect (WriterFree p) Nothing st st' \<longleftrightarrow>
     (p = 0 \<and> st' = st) \<or> (ff_writers st p \<noteq> None \<and> st' = st\<lparr>ff_writers := (ff_writers st)(p := None)\<rparr>)"
| "call_effect (ReaderFree p) Nothing st st' \<longleftrightarrow>
     (p = 0 \<and> st' = st) \<or> (ff_readers st p \<noteq> None \<and> st' = st\<lparr>ff_readers := (ff_readers st)(p := None)\<rparr>)"
| "call_effect _ _ st st' \<longleftrightarrow> False"

lemma exec_call_effect:
  assumes "exec_call V c st = Some (st', a)" and alloc: "fe_alloc V (live st) \<notin> insert 0 (live st)"
  shows "call_effect c a st st'"
proof (cases c)
  case (WriterOpen ks vs len)
  then show ?thesis using assms(1) writer_open_frame [OF _ alloc] by auto
next
  case (ReaderOpen inp ctx)
  then show ?thesis using assms(1) reader_open_frame [OF _ alloc, of inp ctx]
    by (cases "paimon_ftindex_reader_open V inp ctx st") auto
next
  case (AddDocument p row str)
  then show ?thesis using assms(1) by (auto simp: paimon_ftindex_writer_add_document_def dest: on_writer_frame)
next
  case (AddDocumentFields p row ns ts len)
  then show ?thesis using assms(1) by (auto simp: paimon_ftindex_writer_add_document_fields_def dest: on_writer_frame)
next
  case (WriteIndex p out ctx)
  then show ?thesis using assms(1) by (auto dest: write_index_frame)
next
  case (ReaderSearch p q limit cap b)
  then show ?thesis using assms(1) by (auto simp: paimon_ftindex_reader_search_def dest: on_reader_frame)
next
  case (ReaderSearchRoaring p q limit f fl cap b)
  then show ?thesis using assms(1) by (auto simp: paimon_ftindex_reader_search_with_roaring_filter_def dest: on_reader_frame)
next
  case (ReaderPrewarm p)
  then show ?thesis using assms(1) by (auto simp: paimon_ftindex_reader_prewarm_def dest: on_reader_frame)
next
  case (ReaderMetrics p m)
  then show ?thesis using assms(1) by (auto simp: paimon_ftindex_reader_read_metrics_def dest: on_reader_frame)
next
  case (WriterFree p)
  then show ?thesis using assms(1) by (auto simp: paimon_ftindex_writer_free_def split: if_splits)
next
  case (ReaderFree p)
  then show ?thesis using assms(1) by (auto simp: paimon_ftindex_reader_free_def split: if_splits)
qed

section \<open>Handles and buffers\<close>

definition handles_inv :: "('e, 'f, 'w, 'i, 'y, 'r) ffi_state \<Rightarrow> bool" where
  "handles_inv st \<longleftrightarrow> 0 \<notin> live st \<and> dom (ff_writers st) \<inter> dom (ff_readers st) = {}"

fun call_handle :: "('o, 'i) ffi_call \<Rightarrow> ffi_answer \<Rightarrow> u64" where
  "call_handle (AddDocument p _ _) a = p"
| "call_handle (AddDocumentFields p _ _ _ _) a = p"
| "call_handle (WriteIndex p _ _) a = p"
| "call_handle (WriterFree p) a = p"
| "call_handle (ReaderSearch p _ _ _ _) a = p"
| "call_handle (ReaderSearchRoaring p _ _ _ _ _ _) a = p"
| "call_handle (ReaderPrewarm p) a = p"
| "call_handle (ReaderMetrics p _) a = p"
| "call_handle (ReaderFree p) a = p"
| "call_handle _ (Handle p) = p"
| "call_handle _ _ = 0"

lemma handles_inv_alt:
  "handles_inv st \<longleftrightarrow> ff_writers st 0 = None \<and> ff_readers st 0 = None
     \<and> (\<forall>q. ff_writers st q = None \<or> ff_readers st q = None)"
  by (simp only: handles_inv_def live_def disjoint_iff domIff Un_iff de_Morgan_disj not_not imp_conv_disj conj_assoc)

lemma opens_inv:
  assumes "opens st st' p" and inv: "handles_inv st"
  shows "handles_inv st'"
proof (cases "p = 0")
  case True
  with assms show ?thesis by (simp add: opens_def handles_inv_alt)
next
  case False
  have one: "ff_writers st' q = None \<or> ff_readers st' q = None" for q
    using assms False by (cases "q = p") (simp_all add: opens_def handles_inv_alt)
  with assms False show ?thesis by (simp add: opens_def handles_inv_alt)
qed

lemma search_lengths:
  assumes "search_with_filter J B q n f rs = (rs', Inr res)"
  shows "length (sr_scores res) = length (sr_row_ids res)"
proof -
  obtain rd d where "rs = (rd, d)" by fastforce
  with assms search_Inr [of J B q n f rd d rs' res] show ?thesis by auto
qed

definition request_search ::
  "('e, 'f, 'x, 'w, 'i, 'y, 'r, 's, 'q) ffi_env \<Rightarrow> search_request \<Rightarrow> string
     \<Rightarrow> (('i, 'y, 'r) reader_state, ft_error, full_text_search_result) st_res" where
  "request_search V req query =
     (case sq_roaring_filter req of
        Some f \<Rightarrow> search_with_roaring_filter (fe_json V) (fe_reader_api V) (map of_char query) (sq_limit req) f
      | None \<Rightarrow> search (fe_json V) (fe_reader_api V) (map of_char query) (sq_limit req))"

lemma request_lengths:
  assumes "request_search V req query rs = (rs', Inr res)"
  shows "length (sr_scores res) = length (sr_row_ids res)"
  using assms
  by (auto simp: request_search_def search_def search_with_roaring_filter_def res_simps
      split: option.splits dest: search_lengths)

definition roomy :: "usize \<Rightarrow> search_buffers \<Rightarrow> bool" where
  "roomy cap b \<longleftrightarrow> (\<forall>ids. sb_row_ids b = Some ids \<longrightarrow> unat cap \<le> length ids)
     \<and> (\<forall>scs. sb_scores b = Some scs \<longrightarrow> unat cap \<le> length scs)"

text \<open>Nothing of a buffer beyond the first \<open>n\<close> elements changes.\<close>

definition kept_beyond :: "nat \<Rightarrow> 'a list option \<Rightarrow> 'a list option \<Rightarrow> bool" where
  "kept_beyond n old new \<longleftrightarrow> map_option length new = map_option length old \<and> map_option (drop n) new = map_option (drop n) old"

lemma kept_refl [simp]: "kept_beyond n x x"
  by (simp add: kept_beyond_def)

lemma copy_into_ok:
  "length src \<le> length dst \<Longrightarrow>
     \<exists>dst'. copy_into src dst = Some dst' \<and> take (length src) dst' = src \<and> kept_beyond (length src) (Some dst) (Some dst')"
  by (simp add: copy_into_def kept_beyond_def)

lemma kept_weaken: "kept_beyond m x y \<Longrightarrow> m \<le> n \<Longrightarrow> kept_beyond n x y"
proof (cases x; cases y)
  fix xs ys
  assume "kept_beyond m x y" "m \<le> n" "x = Some xs" "y = Some ys"
  then have "length ys = length xs" "drop m ys = drop m xs" by (simp_all add: kept_beyond_def)
  with \<open>m \<le> n\<close> have "drop n ys = drop n xs" by (metis drop_drop le_add_diff_inverse2)
  with \<open>length ys = length xs\<close> \<open>x = Some xs\<close> \<open>y = Some ys\<close> show ?thesis by (simp add: kept_beyond_def)
qed (auto simp: kept_beyond_def)

text \<open>What a search leaves in the caller's memory.\<close>

definition buffers_after :: "usize \<Rightarrow> search_buffers \<Rightarrow> search_buffers \<Rightarrow> message + unit \<Rightarrow> bool" where
  "buffers_after cap b b' r \<longleftrightarrow>
     kept_beyond (unat cap) (sb_row_ids b) (sb_row_ids b') \<and> kept_beyond (unat cap) (sb_scores b) (sb_scores b')
     \<and> (\<forall>e. r = Inl e \<longrightarrow> sb_row_ids b' = sb_row_ids b \<and> sb_scores b' = sb_scores b)"

text \<open>The result lies at the beginning of the buffers, and its length in its cell.\<close>

definition delivers :: "full_text_search_result \<Rightarrow> search_buffers \<Rightarrow> bool" where
  "delivers res b \<longleftrightarrow> (let n = length (sr_row_ids res) in
     sb_result_len b = Some (of_nat n)
     \<and> (n \<noteq> 0 \<longrightarrow> map_option (take n) (sb_row_ids b) = Some (sr_row_ids res)
          \<and> map_option (take n) (sb_scores b) = Some (sr_scores res)))"

lemma copy_results_ok:
  assumes "length (sr_scores res) = length (sr_row_ids res)" and "length (sr_row_ids res) \<le> unat cap" and "roomy cap b"
  shows "\<exists>b' r. copy_results res b = Some (b', r) \<and> buffers_after cap b b' r \<and> sb_result_len b' = sb_result_len b
     \<and> (r = Inr () \<and> sr_row_ids res \<noteq> [] \<longrightarrow> (\<exists>ids scs. sb_row_ids b' = Some ids \<and> sb_scores b' = Some scs
          \<and> take (length (sr_row_ids res)) ids = sr_row_ids res \<and> take (length (sr_row_ids res)) scs = sr_scores res))"
proof (cases "sr_row_ids res = [] \<or> sb_row_ids b = None \<or> sb_scores b = None")
  case True
  then show ?thesis by (auto simp: copy_results_def buffers_after_def split: option.splits)
next
  case False
  then obtain ids scs where b: "sb_row_ids b = Some ids" "sb_scores b = Some scs" by auto
  have len: "length (sr_row_ids res) \<le> length ids" "length (sr_scores res) \<le> length scs"
    using assms b by (auto simp: roomy_def)
  obtain ids' scs' where c: "copy_into (sr_row_ids res) ids = Some ids'" "take (length (sr_row_ids res)) ids' = sr_row_ids res"
      "kept_beyond (length (sr_row_ids res)) (Some ids) (Some ids')"
      "copy_into (sr_scores res) scs = Some scs'" "take (length (sr_scores res)) scs' = sr_scores res"
      "kept_beyond (length (sr_scores res)) (Some scs) (Some scs')"
    using copy_into_ok [OF len(1)] copy_into_ok [OF len(2)] by blast
  have "buffers_after cap b (b\<lparr>sb_row_ids := Some ids', sb_scores := Some scs'\<rparr>) (Inr ())"
    using c(3,6) b assms(1,2) by (auto simp: buffers_after_def intro: kept_weaken)
  then show ?thesis
    using False b c assms(1) by (simp add: copy_results_def)
qed

lemma impl_defined:
  assumes "roomy (sq_capacity req) b"
  shows "\<exists>rs' b' r. search_impl V req rs b = Some (rs', b', r) \<and> buffers_after (sq_capacity req) b b' r
     \<and> (r = Inr () \<longrightarrow> (\<exists>query res. cstr_to_string (fe_utf8_error V) (sq_query req) ''query'' = Inr query
          \<and> request_search V req query rs = (rs', Inr res) \<and> delivers res b'))
     \<and> (\<forall>query res. sb_result_len b \<noteq> None \<longrightarrow> cstr_to_string (fe_utf8_error V) (sq_query req) ''query'' = Inr query
          \<longrightarrow> snd (request_search V req query rs) = Inr res \<longrightarrow> sb_result_len b' = Some (of_nat (length (sr_row_ids res))))"
proof (cases "sb_result_len b = None")
  case True
  then show ?thesis by (simp add: search_impl_def buffers_after_def)
next
  case len: False
  show ?thesis
  proof (cases "cstr_to_string (fe_utf8_error V) (sq_query req) ''query''")
    case (Inl e)
    with len show ?thesis by (simp add: search_impl_def buffers_after_def)
  next
    case query: (Inr query)
    obtain rs' r where run: "request_search V req query rs = (rs', r)" by fastforce
    show ?thesis
    proof (cases r)
      case (Inl e)
      with len query run show ?thesis by (simp add: search_impl_def buffers_after_def flip: request_search_def)
    next
      case (Inr res)
      let ?b = "b\<lparr>sb_result_len := Some (of_nat (length (sr_row_ids res)))\<rparr>"
      note lens = request_lengths [OF run [unfolded Inr]]
      show ?thesis
      proof (cases "unat (sq_capacity req) < length (sr_row_ids res)")
        case True
        with len query run Inr show ?thesis
          by (simp add: search_impl_def buffers_after_def Let_def flip: request_search_def)
      next
        case False
        have "roomy (sq_capacity req) ?b" using assms by (simp add: roomy_def)
        from copy_results_ok [OF lens _ this] False obtain b' r' where
          copy: "copy_results res ?b = Some (b', r')" "buffers_after (sq_capacity req) ?b b' r'"
            "sb_result_len b' = sb_result_len ?b"
            "r' = Inr () \<and> sr_row_ids res \<noteq> [] \<longrightarrow> (\<exists>ids scs. sb_row_ids b' = Some ids \<and> sb_scores b' = Some scs
               \<and> take (length (sr_row_ids res)) ids = sr_row_ids res \<and> take (length (sr_row_ids res)) scs = sr_scores res)"
          by auto
        have "buffers_after (sq_capacity req) b b' r'" using copy(2) by (simp add: buffers_after_def)
        moreover have "delivers res b'" if "r' = Inr ()" using copy(3,4) that by (auto simp: delivers_def)
        moreover have "search_impl V req rs b = Some (rs', b', r')"
          using len query run Inr False copy(1) by (auto simp: search_impl_def Let_def simp flip: request_search_def)
        ultimately show ?thesis using query run Inr copy(3) by auto
      qed
    qed
  qed
qed

section \<open>Sequences of calls\<close>

text \<open>The handles that are live after a call that gave the answer, as the caller can keep track of them.\<close>

fun track :: "('o, 'i) ffi_call \<Rightarrow> ffi_answer \<Rightarrow> u64 set \<Rightarrow> u64 set" where
  "track (WriterOpen _ _ _) (Handle p) L = (if p = 0 then L else insert p L)"
| "track (ReaderOpen _ _) (Handle p) L = (if p = 0 then L else insert p L)"
| "track (WriterFree p) _ L = L - {p}"
| "track (ReaderFree p) _ L = L - {p}"
| "track _ _ L = L"

fun opened_handle :: "ffi_answer \<Rightarrow> u64 option" where
  "opened_handle (Handle p) = Some p"
| "opened_handle _ = None"

definition same_box :: "u64 \<Rightarrow> ('e, 'f, 'w, 'i, 'y, 'r) ffi_state \<Rightarrow> ('e, 'f, 'w, 'i, 'y, 'r) ffi_state \<Rightarrow> bool" where
  "same_box q st st' \<longleftrightarrow> ff_writers st' q = ff_writers st q \<and> ff_readers st' q = ff_readers st q"

text \<open>A step on the box at \<open>h\<close> after which the handles of \<open>L\<close> are live.\<close>

definition frames :: "u64 \<Rightarrow> u64 set \<Rightarrow> ('e, 'f, 'w, 'i, 'y, 'r) ffi_state \<Rightarrow> ('e, 'f, 'w, 'i, 'y, 'r) ffi_state \<Rightarrow> bool" where
  "frames h L st st' \<longleftrightarrow> handles_inv st' \<and> live st' = L \<and> (\<forall>q. q \<noteq> h \<longrightarrow> same_box q st st')"

lemma frames_refl: "handles_inv st \<Longrightarrow> frames h (live st) st st"
  by (simp add: frames_def same_box_def)

lemma frames_opens:
  assumes "opens st st' p" and "handles_inv st"
  shows "frames p (if p = 0 then live st else insert p (live st)) st st'"
proof (cases "p = 0")
  case True
  then show ?thesis using assms opens_inv [OF assms] by (simp add: frames_def opens_def same_box_def live_def)
next
  case False
  then show ?thesis using assms opens_inv [OF assms] by (simp add: frames_def opens_def same_box_def)
qed

lemma frames_touches_writer: "touches_writer p st st' \<Longrightarrow> handles_inv st \<Longrightarrow> frames p (live st) st st'"
  by (simp add: touches_writer_def live_def handles_inv_def same_box_def frames_def)

lemma frames_touches_reader: "touches_reader p st st' \<Longrightarrow> handles_inv st \<Longrightarrow> frames p (live st) st st'"
  by (simp add: touches_reader_def live_def handles_inv_def same_box_def frames_def)

lemma frames_freed_writer:
  assumes "handles_inv st" and "ff_writers st p = Some w"
  shows "frames p (live st - {p}) st (st\<lparr>ff_writers := (ff_writers st)(p := None)\<rparr>)"
  using assms by (auto simp: handles_inv_def live_def same_box_def frames_def)

lemma frames_freed_reader:
  assumes "handles_inv st" and "ff_readers st p = Some rs"
  shows "frames p (live st - {p}) st (st\<lparr>ff_readers := (ff_readers st)(p := None)\<rparr>)"
  using assms by (auto simp: handles_inv_def live_def same_box_def frames_def)

lemma effect_frames:
  assumes "call_effect c a st st'" and inv: "handles_inv st"
  shows "frames (call_handle c a) (track c a (live st)) st st'"
proof -
  have null: "live st - {0} = live st" using inv by (simp add: handles_inv_def)
  have freed: "frames p (live st - {p}) st (st\<lparr>ff_writers := (ff_writers st)(p := None)\<rparr>)" if "ff_writers st p \<noteq> None" for p
    using frames_freed_writer [OF inv] that by blast
  have freed': "frames p (live st - {p}) st (st\<lparr>ff_readers := (ff_readers st)(p := None)\<rparr>)" if "ff_readers st p \<noteq> None" for p
    using frames_freed_reader [OF inv] that by (meson not_None_eq)
  show ?thesis
    using assms(1) inv frames_refl [OF inv] null
    by (cases "(c, a, st, st')" rule: call_effect.cases)
      (simp_all only: prod.inject call_effect.simps call_handle.simps track.simps frames_opens frames_touches_writer
        frames_touches_reader, (metis freed freed')+)
qed

lemma opens_fresh: "opens st st' p \<Longrightarrow> p = 0 \<or> p \<notin> live st"
  unfolding opens_def by (cases "p = 0") simp_all

lemma effect_fresh:
  assumes "call_effect c (Handle p) st st'"
  shows "p = 0 \<or> p \<notin> live st"
  using assms by (cases "(c, Handle p, st, st')" rule: call_effect.cases) (simp_all add: opens_fresh)

interpretation ffi_store: handle_store "exec_call V" live handles_inv same_box call_handle track opened_handle
    "\<lambda>st. fe_alloc V (live st) \<notin> insert 0 (live st)" for V
proof
  fix c st st' a q
  assume step: "exec_call V c st = Some (st', a)" "handles_inv st" "fe_alloc V (live st) \<notin> insert 0 (live st)"
  note fr = effect_frames [OF exec_call_effect [OF step(1,3)] step(2), unfolded frames_def]
  show "handles_inv st'" "live st' = track c a (live st)" "q \<noteq> call_handle c a \<Longrightarrow> same_box q st st'" using fr by simp_all
next
  fix c st st' a p
  assume "exec_call V c st = Some (st', a)" "handles_inv st" "fe_alloc V (live st) \<notin> insert 0 (live st)" "opened_handle a = Some p"
  then show "p = 0 \<or> p \<notin> live st"
    by (cases a) (auto dest: exec_call_effect effect_fresh)
next
  fix c a L
  show "track c a L \<subseteq> L \<or> (\<exists>p. track c a L = insert p L)"
    by (cases "(c, a, L)" rule: track.cases) auto
qed (simp_all add: same_box_def)

section \<open>The vector callbacks\<close>

text \<open>
  Callbacks over a vector, in the manner of the crate's tests: the output context is the vector
  written so far; the reading callback refuses a range that is not in its vector.
\<close>

definition write_vec :: "bytes output_file" where
  "write_vec = \<lparr>of_write_fn = Some (\<lambda>buf out. (out @ buf, 0)), of_flush_fn = None\<rparr>"

definition read_vec :: "bytes \<Rightarrow> unit input_file" where
  "read_vec input = Some (\<lambda>pos len ctx.
     if length input < unat pos + unat len \<or> 2 ^ 64 \<le> unat pos + unat len then (ctx, -1, []) else (ctx, 0, take (unat len) (drop (unat pos) input)))"

interpretation wv: c_output write_vec "\<lambda>out. out"
  by unfold_locales (auto simp: write_vec_def intro: take_all [symmetric, OF order_refl])

interpretation rv: c_input "read_vec input" input for input
  by unfold_locales (auto simp: read_vec_def request_within_def request_bytes_def subslice_def split: if_splits)

text \<open>These callbacks never fail on what is asked of them.\<close>

lemma write_vec_total: "total_seek_writer (ffi_output write_vec) (\<lambda>out. out)"
  by unfold_locales (auto simp: write_vec_def ffi_output_def ffi_write_all_def ffi_flush_def)

lemma read_vec_loop:
  "list_all (request_within input) rqs \<Longrightarrow>
     \<exists>ctx'. ffi_pread_loop (the (read_vec input)) rqs ctx = (ctx', Inr (map (request_bytes input) rqs))"
  by (induction rqs arbitrary: ctx)
    (auto simp: read_vec_def request_within_def request_bytes_def subslice_def st_bind_def st_lift_def)

lemma read_vec_total: "total_seek_read (ffi_pread (read_vec input)) input"
proof (intro total_seek_read.intro total_seek_read_axioms.intro)
  show "seek_read (ffi_pread (read_vec input)) input" by (rule rv.seek_read_axioms)
  show "\<exists>s'. ffi_pread (read_vec input) rs s = (s', Inr (map (request_bytes input) rs))"
    if "list_all (request_within input) rs" for rs s
    using read_vec_loop [OF that, of s] by (simp add: ffi_pread_def read_vec_def)
qed

text \<open>
  C17. A search through the C interface on a live handle, with buffers as long as the caller says
  they are: the call returns, nothing in the two buffers at or after the stated capacity changes,
  and on a failure nothing in them changes at all. With status 0 the buffers begin with exactly
  the row ids and scores the reader found and the length cell holds their number. Whenever the
  reader found a result and the cell is there, it holds the number, also when the capacity was too
  small, so that the caller can try again with more room.
\<close>

theorem ffi_search_buffers:
  assumes "ff_readers st p = Some rs" and "p \<noteq> 0" and "roomy cap b"
    and req: "req = \<lparr>sq_query = q, sq_limit = limit, sq_roaring_filter = None, sq_capacity = cap\<rparr>"
  shows "\<exists>st' b' status. paimon_ftindex_reader_search V p q limit cap (st, b) = Some ((st', b'), status)
     \<and> kept_beyond (unat cap) (sb_row_ids b) (sb_row_ids b') \<and> kept_beyond (unat cap) (sb_scores b) (sb_scores b')
     \<and> (status \<noteq> 0 \<longrightarrow> sb_row_ids b' = sb_row_ids b \<and> sb_scores b' = sb_scores b)
     \<and> (status = 0 \<longrightarrow> (\<exists>query res. cstr_to_string (fe_utf8_error V) q ''query'' = Inr query
          \<and> snd (request_search V req query rs) = Inr res \<and> length (sr_row_ids res) \<le> unat cap \<and> delivers res b'))
     \<and> (\<forall>query res. sb_result_len b \<noteq> None \<longrightarrow> cstr_to_string (fe_utf8_error V) q ''query'' = Inr query
          \<longrightarrow> snd (request_search V req query rs) = Inr res \<longrightarrow> sb_result_len b' = Some (of_nat (length (sr_row_ids res))))"
proof -
  obtain rs' b' r where impl: "search_impl V req rs b = Some (rs', b', r)" "buffers_after cap b b' r"
      "r = Inr () \<longrightarrow> (\<exists>query res. cstr_to_string (fe_utf8_error V) q ''query'' = Inr query
          \<and> request_search V req query rs = (rs', Inr res) \<and> delivers res b')"
      "\<forall>query res. sb_result_len b \<noteq> None \<longrightarrow> cstr_to_string (fe_utf8_error V) q ''query'' = Inr query
          \<longrightarrow> snd (request_search V req query rs) = Inr res \<longrightarrow> sb_result_len b' = Some (of_nat (length (sr_row_ids res)))"
    using impl_defined [of req b V rs] assms(3) req by auto
  obtain st' status where st': "ffi_status (fe_render V) (st\<lparr>ff_readers := (ff_readers st)(p \<mapsto> rs')\<rparr>, Returned r) = (st', status)"
    by fastforce
  then have status: "status = 0 \<longleftrightarrow> r = Inr ()" by (auto simp: ffi_status_def split: sum.splits)
  have run: "paimon_ftindex_reader_search V p q limit cap (st, b) = Some ((st', b'), status)"
    using assms(1,2) impl(1) st' by (simp add: paimon_ftindex_reader_search_def on_reader_def require_box_def flip: req)
  have fit: "length (sr_row_ids res) \<le> unat cap"
    if "r = Inr ()" "cstr_to_string (fe_utf8_error V) q ''query'' = Inr query" "request_search V req query rs = (rs', Inr res)" for query res
    using impl(1) that req by (auto simp: search_impl_def Let_def request_search_def split: if_splits)
  have kept: "kept_beyond (unat cap) (sb_row_ids b) (sb_row_ids b')" "kept_beyond (unat cap) (sb_scores b) (sb_scores b')"
    using impl(2) by (simp_all add: buffers_after_def)
  have bad: "status \<noteq> 0 \<longrightarrow> sb_row_ids b' = sb_row_ids b \<and> sb_scores b' = sb_scores b"
    using impl(2) status by (cases r) (simp_all add: buffers_after_def)
  have good: "status = 0 \<longrightarrow> (\<exists>query res. cstr_to_string (fe_utf8_error V) q ''query'' = Inr query
      \<and> snd (request_search V req query rs) = Inr res \<and> length (sr_row_ids res) \<le> unat cap \<and> delivers res b')"
    using impl(3) status fit by fastforce
  show ?thesis using run kept bad good impl(4) by blast
qed

text \<open>
  C31. The handles of the C interface, over any sequence of calls that is defined (every handle
  used is live, every array is as long as stated) and is not longer than the address space, with
  an allocator that gives fresh addresses. The live handles are exactly those the caller has
  opened and not freed, null is never one of them, no address is both a writer and a reader, every
  handle an open call returns was not live at that moment, and the object behind a handle that no
  call named is the same at the end as at the beginning.
\<close>

theorem ffi_handles_isolated:
  assumes "\<And>L. insert 0 L \<noteq> UNIV \<Longrightarrow> fe_alloc V L \<notin> insert 0 L"
    and "run_calls (exec_call V) cs st = Some (st', as)" and "handles_inv st" and "card (live st) + length cs < 2 ^ 64"
  shows "handles_inv st' \<and> live st' = tracked track (zip cs as) (live st)
     \<and> fresh_handles track opened_handle (zip cs as) (live st)
     \<and> (\<forall>q. (\<forall>(c, a) \<in> set (zip cs as). call_handle c a \<noteq> q) \<longrightarrow> same_box q st st')"
  using ffi_store.run_isolated [OF assms(1) assms(2-4)] by blast

text \<open>
  C32. Error reporting of the C interface: a call that fails leaves a last error, which is a proper C string (it
  has no zero byte), a call that succeeds leaves the last error as it was, and every status is 0 or -1.
\<close>

theorem ffi_reports_errors:
  assumes "fe_alloc V (live st) \<notin> insert 0 (live st)" and "exec_call V c st = Some (st', a)"
  shows "(failed a \<longrightarrow> (\<exists>m. paimon_ftindex_last_error st' = Some m \<and> CHR 0x00 \<notin> set m))
     \<and> (\<not> failed a \<longrightarrow> paimon_ftindex_last_error st' = paimon_ftindex_last_error st)
     \<and> (\<forall>s. a = Status s \<longrightarrow> s = 0 \<or> s = -1)"
proof -
  have "call_effect c a st st'" by (rule exec_call_effect [OF assms(2,1)])
  then have "reported st st' (failed a) \<and> (\<forall>s. a = Status s \<longrightarrow> s = 0 \<or> s = -1)"
    by (cases "(c, a, st, st')" rule: call_effect.cases) (auto simp: opens_def status_ok_def reported_def)
  then show ?thesis by (auto simp: reported_def paimon_ftindex_last_error_def split: if_splits)
qed

section \<open>A concrete library\<close>

fun show_part :: "msg_part \<Rightarrow> string" where
  "show_part (Lit s) = s"
| "show_part (ArgStr s) = s"
| "show_part _ = ''?''"

definition next_free :: "u64 set \<Rightarrow> u64" where
  "next_free L = Min (UNIV - insert 0 L)"

definition example_ffi :: "(nat document list, nat, unit, unit, 'i, unit, unit, unit, string) ffi_env" where
  "example_ffi = \<lparr>fe_json = example_query_codec, fe_lower = id, fe_analyzers = example_env, fe_writer_api = example_api,
     fe_reader_api = example_reader_api, fe_render = (\<lambda>m. concat (map show_part m)), fe_tantivy_message = (\<lambda>_. []),
     fe_utf8_error = (\<lambda>_. []), fe_hash_order = id, fe_alloc = next_free\<rparr>"

definition example_ffi_state :: "(nat document list, nat, unit, unit, unit, unit) ffi_state" where
  "example_ffi_state = \<lparr>ff_last_error = None, ff_writers = [9 \<mapsto> example_writer 0 True],
     ff_readers = [7 \<mapsto> (example_reader, new_cache (default_io ()))], ff_world = []\<rparr>"

lemma next_free_fresh: "insert 0 L \<noteq> UNIV \<Longrightarrow> next_free L \<notin> insert 0 L"
proof -
  assume "insert 0 L \<noteq> UNIV"
  then have "Min (UNIV - insert 0 L) \<in> UNIV - insert 0 L" by (intro Min_in) auto
  then show ?thesis by (simp add: next_free_def)
qed

lemma example_allocator [simp]: "fe_alloc example_ffi = next_free"
  by (simp add: example_ffi_def)

lemma example_alloc: "insert 0 L \<noteq> UNIV \<Longrightarrow> fe_alloc example_ffi L \<notin> insert 0 L"
  using next_free_fresh by simp

lemma example_no_options: "config_from_options id [] = Inr default_config"
  by code_simp

lemma example_writer_open:
  "exec_call example_ffi (WriterOpen None None 0) example_ffi_state
     = Some (example_ffi_state\<lparr>ff_writers := (ff_writers example_ffi_state)(next_free (live example_ffi_state) \<mapsto> example_writer 0 True)\<rparr>,
         Handle (next_free (live example_ffi_state)))"
  by (simp add: paimon_ftindex_writer_open_def options_from_raw_def ffi_ptr_def Let_def example_ffi_def example_ffi_state_def
      example_no_options example_writer_new)

lemma example_null_writer:
  "exec_call example_ffi (AddDocument 0 5 None) st = Some (set_error ''writer is null'' st, Status (-1))"
  by (simp add: paimon_ftindex_writer_add_document_def on_writer_def require_box_def ffi_status_def example_ffi_def)

lemma example_live: "live example_ffi_state = {7, 9}" "handles_inv example_ffi_state"
  by (auto simp: live_def example_ffi_state_def handles_inv_def)

theorem ffi_handles_isolated_witness:
  "\<exists>st' p. run_calls (exec_call example_ffi) [WriterOpen None None 0, AddDocument 0 5 None, WriterFree p] example_ffi_state
       = Some (st', [Handle p, Status (-1), Nothing])
     \<and> p \<notin> {0, 7, 9} \<and> live st' = {7, 9} \<and> same_box 7 example_ffi_state st'"
proof -
  let ?p = "next_free (live example_ffi_state)"
  have "insert 0 (live example_ffi_state) \<noteq> UNIV" by (rule room_left) (simp add: example_live)
  then have p: "?p \<notin> {0, 7, 9}" using next_free_fresh [of "live example_ffi_state"] example_live(1) by auto
  then obtain st' where run: "run_calls (exec_call example_ffi) [WriterOpen None None 0, AddDocument 0 5 None, WriterFree ?p] example_ffi_state
      = Some (st', [Handle ?p, Status (-1), Nothing])"
    by (simp add: example_writer_open example_null_writer paimon_ftindex_writer_free_def set_error_def del: exec_call.simps(1,2))
  have "card (live example_ffi_state) + length [WriterOpen None None 0, AddDocument 0 5 None, WriterFree ?p] < 2 ^ 64"
    by (simp add: example_live)
  from ffi_handles_isolated [OF example_alloc run example_live(2) this] p run show ?thesis
    by (intro exI [of _ st'] exI [of _ ?p]) (auto simp: example_live(1))
qed

theorem ffi_reports_errors_witness:
  "\<exists>st' m. exec_call example_ffi (AddDocument 0 5 None) example_ffi_state = Some (st', Status (-1))
     \<and> paimon_ftindex_last_error st' = Some m \<and> CHR 0x00 \<notin> set m"
proof -
  have "fe_alloc example_ffi (live example_ffi_state) \<notin> insert 0 (live example_ffi_state)"
    unfolding example_allocator
    by (rule next_free_fresh, rule room_left) (simp add: example_live)
  from ffi_reports_errors [OF this example_null_writer] show ?thesis by (auto simp: example_null_writer simp del: exec_call.simps)
qed

definition example_buffers :: search_buffers where
  "example_buffers = \<lparr>sb_row_ids = Some [0, 0, 6], sb_scores = Some [f32_zero, f32_zero, f32_one], sb_result_len = Some 0\<rparr>"

lemma example_request:
  "\<exists>res. snd (request_search example_ffi \<lparr>sq_query = q, sq_limit = 2, sq_roaring_filter = None, sq_capacity = 2\<rparr>
       [CHR 0x01] (example_reader, d)) = Inr res \<and> sr_row_ids res = [14, 12]"
proof -
  obtain t where t: "build_query example_index example_config (QMatch (Some ''title'') ''rust'' OpOr f32_one (Some 0) 50 0) = Inr t"
    using example_built by blast
  have json: "from_json example_query_codec [1] = Inr (QMatch (Some ''title'') ''rust'' OpOr f32_one (Some 0) 50 0)"
    by (simp add: from_json_def example_query_codec_def minimal_match)
  show ?thesis
    by (simp add: request_search_def search_def example_ffi_def search_with_filter_def st_bind_def searcher_def
        example_reader_def example_reader_api_def json t
        collect_result_def st_map_err_def example_hits_def example_row_def del: build_query.simps)
qed

theorem ffi_search_buffers_witness:
  "\<exists>st' b' status ids. paimon_ftindex_reader_search example_ffi 7 (Some [1]) 2 2 (example_ffi_state, example_buffers)
       = Some ((st', b'), status)
     \<and> sb_result_len b' = Some 2 \<and> sb_row_ids b' = Some ids \<and> drop 2 ids = [6]"
proof -
  let ?req = "\<lparr>sq_query = Some [1], sq_limit = 2, sq_roaring_filter = None, sq_capacity = 2\<rparr>"
  have rs: "ff_readers example_ffi_state 7 = Some (example_reader, new_cache (default_io ()))" by (simp add: example_ffi_state_def)
  have query: "cstr_to_string (fe_utf8_error example_ffi) (Some [1]) ''query'' = Inr [CHR 0x01]"
    by (simp add: cstr_to_string_def) code_simp
  have room: "roomy 2 example_buffers" by (simp add: roomy_def example_buffers_def)
  obtain res where res: "snd (request_search example_ffi ?req [CHR 0x01] (example_reader, new_cache (default_io ()))) = Inr res"
    "sr_row_ids res = [14, 12]" using example_request by blast
  obtain st' b' status where run: "paimon_ftindex_reader_search example_ffi 7 (Some [1]) 2 2 (example_ffi_state, example_buffers)
       = Some ((st', b'), status)" "kept_beyond 2 (sb_row_ids example_buffers) (sb_row_ids b')"
    "sb_result_len b' = Some (of_nat (length (sr_row_ids res)))"
    using ffi_search_buffers [OF rs _ room refl, of example_ffi "Some [1]" 2] query res
    by (auto simp: example_buffers_def)
  from run(2) obtain ids where "sb_row_ids b' = Some ids" "drop 2 ids = [6]"
    by (auto simp: kept_beyond_def example_buffers_def)
  with run(1,3) res(2) show ?thesis by auto
qed

end
