(* ===== verification/JniApi.thy ===== *)
theory JniApi
  imports FfiApi
begin

text \<open>
  The Java interface of \<^verbatim>\<open>jni/src/lib.rs\<close>: streams implemented by Java objects, the conversion
  of Java arrays and strings, handles passed as \<^verbatim>\<open>long\<close>, and errors thrown as exceptions. The
  Java virtual machine, reached through the \<^verbatim>\<open>jni\<close> crate, is a parameter: a record of the
  operations the code calls, over a state of the machine, each of which may fail with a text.
  Undefined behaviour (a handle that is not live) is \<open>None\<close>. Java's bytes are signed and Rust's
  unsigned; both are words of 8 bits here and the casts between them keep the bits, and so do the
  casts between \<^verbatim>\<open>u64\<close> and \<^verbatim>\<open>jlong\<close>.
\<close>

section \<open>Streams\<close>

text \<open>The operations on byte arrays and on one Java stream object; arrays are named by references.\<close>

record ('s, 'o) java_io =
  ji_attach :: "('s, message, unit) st_res"
  ji_new_byte_array :: "i32 \<Rightarrow> ('s, message, 'o) st_res"
  ji_set_region :: "'o \<Rightarrow> i32 \<Rightarrow> bytes \<Rightarrow> ('s, message, unit) st_res"
  ji_get_length :: "'o \<Rightarrow> ('s, message, i32) st_res"
  ji_get_region :: "'o \<Rightarrow> i32 \<Rightarrow> nat \<Rightarrow> ('s, message, bytes) st_res"
  ji_call_write :: "'o \<Rightarrow> i32 \<Rightarrow> i32 \<Rightarrow> ('s, message, unit) st_res"
  ji_call_flush :: "('s, message, unit) st_res"
  ji_call_pread :: "i64 \<Rightarrow> 'o \<Rightarrow> i32 \<Rightarrow> i32 \<Rightarrow> ('s, message, unit) st_res"

definition io_other :: "string \<Rightarrow> ('s, message, 'a) st_res \<Rightarrow> ('s, io_error, 'a) st_res" where
  "io_other what = st_map_err (\<lambda>e. IoError OtherKind (Lit what # e))"

definition java_write_all :: "('s, 'o) java_io \<Rightarrow> bytes \<Rightarrow> ('s, io_error, unit) st_res" where
  "java_write_all V buf =
     st_bind (io_other ''JNI attach failed: '' (ji_attach V)) (\<lambda>_.
     st_bind (io_other ''new_byte_array failed: '' (ji_new_byte_array V (of_nat (length buf)))) (\<lambda>array.
     st_bind (io_other ''set_byte_array_region failed: '' (ji_set_region V array 0 buf)) (\<lambda>_.
     io_other ''Java output write failed: '' (ji_call_write V array 0 (of_nat (length buf))))))"

definition java_flush :: "('s, 'o) java_io \<Rightarrow> ('s, io_error, unit) st_res" where
  "java_flush V =
     st_bind (io_other ''JNI attach failed: '' (ji_attach V)) (\<lambda>_.
     io_other ''Java output flush failed: '' (ji_call_flush V))"

definition java_output :: "('s, 'o) java_io \<Rightarrow> 's seek_write" where
  "java_output V = \<lparr>write_all = java_write_all V, flush = java_flush V\<rparr>"

text \<open>\<open>n\<close> is the length of the destination.\<close>

definition copy_java_buffer :: "('s, 'o) java_io \<Rightarrow> 'o \<Rightarrow> usize \<Rightarrow> ('s, io_error, bytes) st_res" where
  "copy_java_buffer V buffer n =
     st_bind (io_other ''get_array_length failed: '' (ji_get_length V buffer)) (\<lambda>len.
     let length = (scast len :: usize) in
     if length \<noteq> n then
       st_lift (Inl (IoError InvalidData [Lit ''Java pread returned buffer length '', ArgNat (unat length),
         Lit '' != '', ArgNat (unat n)]))
     else if 0 < length then io_other ''get_byte_array_region failed: '' (ji_get_region V buffer 0 (unat n))
     else st_lift (Inr []))"

definition java_pread_one :: "('s, 'o) java_io \<Rightarrow> read_request \<Rightarrow> ('s, io_error, bytes) st_res" where
  "java_pread_one V rq =
     st_bind (st_lift (if unat (req_pos rq) < 2 ^ 63 then Inr (req_pos rq :: i64)
                       else Inl (IoError InvalidInput [Lit ''offset overflow'']))) (\<lambda>position.
     st_bind (st_lift (if unat (req_len rq) < 2 ^ 31 then Inr (ucast (req_len rq) :: i32)
                       else Inl (IoError InvalidInput [Lit ''range too large'']))) (\<lambda>length.
     st_bind (io_other ''new_byte_array failed: '' (ji_new_byte_array V length)) (\<lambda>buffer.
     st_bind (io_other ''Java input pread failed: '' (ji_call_pread V position buffer 0 length)) (\<lambda>_.
     copy_java_buffer V buffer (req_len rq)))))"

fun java_pread_loop :: "('s, 'o) java_io \<Rightarrow> read_request list \<Rightarrow> ('s, io_error, bytes list) st_res" where
  "java_pread_loop V [] = st_lift (Inr [])"
| "java_pread_loop V (rq # rqs) =
     st_bind (java_pread_one V rq) (\<lambda>buf.
     st_bind (java_pread_loop V rqs) (\<lambda>bufs. st_lift (Inr (buf # bufs))))"

definition java_pread :: "('s, 'o) java_io \<Rightarrow> 's pread" where
  "java_pread V rqs = st_bind (io_other ''JNI attach failed: '' (ji_attach V)) (\<lambda>_. java_pread_loop V rqs)"

section \<open>The environment of a native method\<close>

record ('j, 'o) jni_env =
  je_array_length :: "'o \<Rightarrow> ('j, message, i32) st_res"
  je_element :: "'o \<Rightarrow> i32 \<Rightarrow> ('j, message, 'o) st_res"
  je_string :: "'o \<Rightarrow> ('j, message, string) st_res"
  je_is_null :: "'o \<Rightarrow> bool"
  je_convert_bytes :: "'o \<Rightarrow> ('j, message, bytes) st_res"
  je_java_vm :: "('j, message, unit) st_res"
  je_global_ref :: "'o \<Rightarrow> ('j, message, 'o) st_res"
  je_new_longs :: "i32 \<Rightarrow> ('j, message, 'o) st_res"
  je_set_longs :: "'o \<Rightarrow> i32 \<Rightarrow> i64 list \<Rightarrow> ('j, message, unit) st_res"
  je_new_floats :: "i32 \<Rightarrow> ('j, message, 'o) st_res"
  je_set_floats :: "'o \<Rightarrow> i32 \<Rightarrow> f32 list \<Rightarrow> ('j, message, unit) st_res"
  je_new_result :: "'o \<Rightarrow> 'o \<Rightarrow> ('j, message, 'o) st_res"
  je_new_metrics :: "i64 list \<Rightarrow> ('j, message, 'o) st_res"
  je_throw :: "string \<Rightarrow> 'j \<Rightarrow> 'j"
  je_output :: "'o \<Rightarrow> ('j, 'o) java_io"

text \<open>
  The native library and what it is linked with. As for the C interface, the state of an input
  object lives in the reader that holds it.
\<close>

record ('e, 'f, 'x, 'w, 'i, 'y, 'r, 's, 'q, 'j, 'o) jni_lib =
  jl_ffi :: "('e, 'f, 'x, 'w, 'i, 'y, 'r, 's, 'q) ffi_env"
  jl_env :: "('j, 'o) jni_env"
  jl_input :: "'o \<Rightarrow> ('i, 'o) java_io"
  jl_input_state :: "'o \<Rightarrow> 'i"

record ('e, 'f, 'w, 'i, 'y, 'r, 'j) jni_state =
  jn_writers :: "i64 \<rightharpoonup> ('f, 'w) full_text_index_writer"
  jn_readers :: "i64 \<rightharpoonup> ('i, 'y, 'r) reader_state"
  jn_world :: 'e
  jn_vm :: 'j

type_synonym ('e, 'f, 'w, 'i, 'y, 'r, 'j, 'a) jni_res = "(('e, 'f, 'w, 'i, 'y, 'r, 'j) jni_state, message, 'a) st_res"

definition jn_live :: "('e, 'f, 'w, 'i, 'y, 'r, 'j) jni_state \<Rightarrow> i64 set" where
  "jn_live st = dom (jn_writers st) \<union> dom (jn_readers st)"

text \<open>An operation of the environment, of a writer's world, and of a reader, as steps on the whole state.\<close>

definition in_env :: "('j, message, 'a) st_res \<Rightarrow> ('e, 'f, 'w, 'i, 'y, 'r, 'j, 'a) jni_res" where
  "in_env f st = (case f (jn_vm st) of (j, r) \<Rightarrow> (st\<lparr>jn_vm := j\<rparr>, r))"

definition to_text ::
  "('e, 'f, 'x, 'w, 'i, 'y, 'r, 's, 'q, 'j, 'o) jni_lib \<Rightarrow> ft_error + 'a \<Rightarrow> message + 'a" where
  "to_text L = map_err (error_message (fe_tantivy_message (jl_ffi L)))"

definition on_box_writer ::
  "('e, 'f, 'x, 'w, 'i, 'y, 'r, 's, 'q, 'j, 'o) jni_lib \<Rightarrow> i64 \<Rightarrow> ('f, 'w) full_text_index_writer
     \<Rightarrow> (('f, 'w) full_text_index_writer \<times> 'e, ft_error, unit) st_res \<Rightarrow> ('e, 'f, 'w, 'i, 'y, 'r, 'j, unit) jni_res" where
  "on_box_writer L p w f st =
     (case f (w, jn_world st) of ((w', e'), r) \<Rightarrow>
        (st\<lparr>jn_world := e', jn_writers := (jn_writers st)(p \<mapsto> w')\<rparr>, to_text L r))"

definition on_box_reader ::
  "('e, 'f, 'x, 'w, 'i, 'y, 'r, 's, 'q, 'j, 'o) jni_lib \<Rightarrow> i64 \<Rightarrow> ('i, 'y, 'r) reader_state
     \<Rightarrow> (('i, 'y, 'r) reader_state, ft_error, 'a) st_res \<Rightarrow> ('e, 'f, 'w, 'i, 'y, 'r, 'j, 'a) jni_res" where
  "on_box_reader L p rs f st =
     (case f rs of (rs', r) \<Rightarrow> (st\<lparr>jn_readers := (jn_readers st)(p \<mapsto> rs')\<rparr>, to_text L r))"

text \<open>\<^verbatim>\<open>handle_mut\<close> and \<^verbatim>\<open>handle_ref\<close>, followed by the rest of the method.\<close>

definition with_handle ::
  "(i64 \<rightharpoonup> 'b) \<Rightarrow> i64 \<Rightarrow> string \<Rightarrow> ('b \<Rightarrow> ('s, message, 'a) st_res) \<Rightarrow> 's \<Rightarrow> ('s \<times> (message + 'a)) option" where
  "with_handle boxes p name body st =
     (if p = 0 then Some (st, Inl [ArgStr name, Lit '' is closed''])
      else map_option (\<lambda>b. body b st) (boxes p))"

section \<open>Arguments\<close>

definition array_indices :: "i32 \<Rightarrow> i32 list" where
  "array_indices n = map of_nat [0..<nat (sint n)]"

fun read_string_pairs ::
  "('j, 'o) jni_env \<Rightarrow> 'o \<Rightarrow> 'o \<Rightarrow> i32 list \<Rightarrow> ('j, message, (string \<times> string) list) st_res" where
  "read_string_pairs V ks vs [] = st_lift (Inr [])"
| "read_string_pairs V ks vs (i # is) =
     st_bind (je_element V ks i) (\<lambda>k.
     st_bind (je_element V vs i) (\<lambda>v.
     st_bind (je_string V k) (\<lambda>key.
     st_bind (je_string V v) (\<lambda>val.
     st_bind (read_string_pairs V ks vs is) (\<lambda>rest. st_lift (Inr ((key, val) # rest)))))))"

definition length_mismatch :: "string \<Rightarrow> i32 \<Rightarrow> string \<Rightarrow> i32 \<Rightarrow> message" where
  "length_mismatch a n b m = [Lit (a @ '' length ''), ArgInt (sint n),
     Lit ('' does not match '' @ b @ '' length ''), ArgInt (sint m)]"

definition options_from_arrays :: "('j, 'o) jni_env \<Rightarrow> 'o \<Rightarrow> 'o \<Rightarrow> ('j, message, options) st_res" where
  "options_from_arrays V ks vs =
     st_bind (je_array_length V ks) (\<lambda>key_len.
     st_bind (je_array_length V vs) (\<lambda>value_len.
     if key_len \<noteq> value_len then st_lift (Inl (length_mismatch ''keys'' key_len ''values'' value_len))
     else st_bind (read_string_pairs V ks vs (array_indices key_len)) (\<lambda>pairs.
       st_lift (Inr (fold (\<lambda>(k, v) opts. AList.update k v opts) pairs [])))))"

definition string_pair_arrays :: "('j, 'o) jni_env \<Rightarrow> 'o \<Rightarrow> 'o \<Rightarrow> ('j, message, (string \<times> string) list) st_res" where
  "string_pair_arrays V ks vs =
     st_bind (je_array_length V ks) (\<lambda>key_len.
     st_bind (je_array_length V vs) (\<lambda>value_len.
     if key_len \<noteq> value_len then st_lift (Inl (length_mismatch ''fieldNames'' key_len ''texts'' value_len))
     else if key_len = 0 then st_lift (Inl [Lit ''document fields must not be empty''])
     else read_string_pairs V ks vs (array_indices key_len)))"

definition read_byte_array :: "('j, 'o) jni_env \<Rightarrow> 'o \<Rightarrow> ('j, message, bytes) st_res" where
  "read_byte_array V array =
     (if je_is_null V array then st_lift (Inl [Lit ''roaringFilter is null''])
      else st_map_err (\<lambda>e. Lit ''failed to read roaringFilter: '' # e) (je_convert_bytes V array))"

definition validate_search_limit :: "i32 \<Rightarrow> message + usize" where
  "validate_search_limit lmt =
     (if sint lmt \<le> 0 then Inl [Lit ''search limit must be positive''] else Inr (scast lmt))"

section \<open>Methods\<close>

definition jni_create_writer ::
  "('e, 'f, 'x, 'w, 'i, 'y, 'r, 's, 'q, 'j, 'o) jni_lib \<Rightarrow> 'o \<Rightarrow> 'o \<Rightarrow> ('e, 'f, 'w, 'i, 'y, 'r, 'j, i64) jni_res" where
  "jni_create_writer L ks vs =
     st_bind (in_env (options_from_arrays (jl_env L) ks vs)) (\<lambda>options.
     st_bind (st_lift (to_text L (config_from_options (fe_lower (jl_ffi L)) (fe_hash_order (jl_ffi L) options)))) (\<lambda>c st.
     case writer_new (fe_writer_api (jl_ffi L)) (fe_analyzers (jl_ffi L)) c (jn_world st) of
       (e', Inl err) \<Rightarrow> (st\<lparr>jn_world := e'\<rparr>, to_text L (Inl err))
     | (e', Inr w) \<Rightarrow>
         let p = fe_alloc (jl_ffi L) (jn_live st) in
         (st\<lparr>jn_world := e', jn_writers := (jn_writers st)(p \<mapsto> w)\<rparr>, Inr p)))"

definition jni_add_document ::
  "('e, 'f, 'x, 'w, 'i, 'y, 'r, 's, 'q, 'j, 'o) jni_lib \<Rightarrow> i64 \<Rightarrow> i64 \<Rightarrow> 'o
     \<Rightarrow> ('e, 'f, 'w, 'i, 'y, 'r, 'j) jni_state \<Rightarrow> (('e, 'f, 'w, 'i, 'y, 'r, 'j) jni_state \<times> (message + unit)) option" where
  "jni_add_document L writer_ptr row_id str st =
     with_handle (jn_writers st) writer_ptr ''writer'' (\<lambda>w.
       st_bind (in_env (st_map_err (\<lambda>e. Lit ''failed to read text: '' # e) (je_string (jl_env L) str))) (\<lambda>s.
       on_box_writer L writer_ptr w (add_document (fe_writer_api (jl_ffi L)) row_id s))) st"

definition jni_add_document_fields ::
  "('e, 'f, 'x, 'w, 'i, 'y, 'r, 's, 'q, 'j, 'o) jni_lib \<Rightarrow> i64 \<Rightarrow> i64 \<Rightarrow> 'o \<Rightarrow> 'o
     \<Rightarrow> ('e, 'f, 'w, 'i, 'y, 'r, 'j) jni_state \<Rightarrow> (('e, 'f, 'w, 'i, 'y, 'r, 'j) jni_state \<times> (message + unit)) option" where
  "jni_add_document_fields L writer_ptr row_id names texts st =
     with_handle (jn_writers st) writer_ptr ''writer'' (\<lambda>w.
       st_bind (in_env (string_pair_arrays (jl_env L) names texts)) (\<lambda>fds.
       on_box_writer L writer_ptr w (add_document_fields (fe_writer_api (jl_ffi L)) row_id fds))) st"

definition jni_write_index ::
  "('e, 'f, 'x, 'w, 'i, 'y, 'r, 's, 'q, 'j, 'o) jni_lib \<Rightarrow> i64 \<Rightarrow> 'o
     \<Rightarrow> ('e, 'f, 'w, 'i, 'y, 'r, 'j) jni_state \<Rightarrow> (('e, 'f, 'w, 'i, 'y, 'r, 'j) jni_state \<times> (message + unit)) option" where
  "jni_write_index L writer_ptr output st =
     with_handle (jn_writers st) writer_ptr ''writer'' (\<lambda>w.
       st_bind (in_env (je_java_vm (jl_env L))) (\<lambda>_.
       st_bind (in_env (je_global_ref (jl_env L) output)) (\<lambda>out st1.
       case writer_write (fe_json (jl_ffi L)) (fe_writer_api (jl_ffi L)) (java_output (je_output (jl_env L) out))
              (w, jn_world st1, jn_vm st1) of
         ((w', e', j'), r) \<Rightarrow>
           (st1\<lparr>jn_world := e', jn_writers := (jn_writers st1)(writer_ptr \<mapsto> w'), jn_vm := j'\<rparr>, to_text L r)))) st"

definition jni_open_reader ::
  "('e, 'f, 'x, 'w, 'i, 'y, 'r, 's, 'q, 'j, 'o) jni_lib \<Rightarrow> 'o \<Rightarrow> ('e, 'f, 'w, 'i, 'y, 'r, 'j, i64) jni_res" where
  "jni_open_reader L input =
     st_bind (in_env (je_java_vm (jl_env L))) (\<lambda>_.
     st_bind (in_env (je_global_ref (jl_env L) input)) (\<lambda>inp st.
     case reader_open (fe_json (jl_ffi L)) (fe_reader_api (jl_ffi L)) (fe_analyzers (jl_ffi L))
            (java_pread (jl_input L inp)) (jl_input_state L inp) of
       Inl err \<Rightarrow> (st, to_text L (Inl err))
     | Inr rs \<Rightarrow>
         let p = fe_alloc (jl_ffi L) (jn_live st) in (st\<lparr>jn_readers := (jn_readers st)(p \<mapsto> rs)\<rparr>, Inr p)))"

definition new_search_result :: "('j, 'o) jni_env \<Rightarrow> full_text_search_result \<Rightarrow> ('j, message, 'o) st_res" where
  "new_search_result V result =
     st_bind (je_new_longs V (of_nat (length (sr_row_ids result)))) (\<lambda>row_ids.
     st_bind (je_set_longs V row_ids 0 (sr_row_ids result)) (\<lambda>_.
     st_bind (je_new_floats V (of_nat (length (sr_scores result)))) (\<lambda>scores.
     st_bind (je_set_floats V scores 0 (sr_scores result)) (\<lambda>_.
     je_new_result V row_ids scores))))"

definition jni_search ::
  "('e, 'f, 'x, 'w, 'i, 'y, 'r, 's, 'q, 'j, 'o) jni_lib \<Rightarrow> i64 \<Rightarrow> 'o \<Rightarrow> i32 \<Rightarrow> 'o option
     \<Rightarrow> ('e, 'f, 'w, 'i, 'y, 'r, 'j) jni_state \<Rightarrow> (('e, 'f, 'w, 'i, 'y, 'r, 'j) jni_state \<times> (message + 'o)) option" where
  "jni_search L reader_ptr query lmt roaring_filter st =
     with_handle (jn_readers st) reader_ptr ''reader'' (\<lambda>rs.
       st_bind (in_env (st_map_err (\<lambda>e. Lit ''failed to read query: '' # e) (je_string (jl_env L) query))) (\<lambda>q.
       st_bind (st_lift (validate_search_limit lmt)) (\<lambda>n.
       st_bind
         (case roaring_filter of
            Some a \<Rightarrow> st_bind (in_env (read_byte_array (jl_env L) a)) (\<lambda>f.
              on_box_reader L reader_ptr rs
                (search_with_roaring_filter (fe_json (jl_ffi L)) (fe_reader_api (jl_ffi L)) (map of_char q) n f))
          | None \<Rightarrow> on_box_reader L reader_ptr rs (search (fe_json (jl_ffi L)) (fe_reader_api (jl_ffi L)) (map of_char q) n))
         (\<lambda>result. in_env (new_search_result (jl_env L) result))))) st"

definition jni_prewarm ::
  "('e, 'f, 'x, 'w, 'i, 'y, 'r, 's, 'q, 'j, 'o) jni_lib \<Rightarrow> i64
     \<Rightarrow> ('e, 'f, 'w, 'i, 'y, 'r, 'j) jni_state \<Rightarrow> (('e, 'f, 'w, 'i, 'y, 'r, 'j) jni_state \<times> (message + unit)) option" where
  "jni_prewarm L reader_ptr st =
     with_handle (jn_readers st) reader_ptr ''reader'' (\<lambda>rs. on_box_reader L reader_ptr rs (prewarm (fe_reader_api (jl_ffi L)))) st"

definition metrics_longs :: "full_text_read_metrics \<Rightarrow> i64 list" where
  "metrics_longs m = [m_pread_calls m, m_pread_ranges m, m_pread_bytes m, m_cache_hits m, m_cache_misses m,
     m_cache_evictions m, m_cached_blocks m]"

definition jni_read_metrics ::
  "('e, 'f, 'x, 'w, 'i, 'y, 'r, 's, 'q, 'j, 'o) jni_lib \<Rightarrow> i64
     \<Rightarrow> ('e, 'f, 'w, 'i, 'y, 'r, 'j) jni_state \<Rightarrow> (('e, 'f, 'w, 'i, 'y, 'r, 'j) jni_state \<times> (message + 'o)) option" where
  "jni_read_metrics L reader_ptr st =
     with_handle (jn_readers st) reader_ptr ''reader'' (\<lambda>rs.
       in_env (je_new_metrics (jl_env L) (metrics_longs (reader_read_metrics rs)))) st"

section \<open>Native entry points\<close>

text \<open>A failed method throws and returns a default value: zero, or null as \<open>None\<close>.\<close>

definition throw ::
  "('e, 'f, 'x, 'w, 'i, 'y, 'r, 's, 'q, 'j, 'o) jni_lib \<Rightarrow> message
     \<Rightarrow> ('e, 'f, 'w, 'i, 'y, 'r, 'j) jni_state \<Rightarrow> ('e, 'f, 'w, 'i, 'y, 'r, 'j) jni_state" where
  "throw L m st = st\<lparr>jn_vm := je_throw (jl_env L) (fe_render (jl_ffi L) m) (jn_vm st)\<rparr>"

definition throw_and_return ::
  "('e, 'f, 'x, 'w, 'i, 'y, 'r, 's, 'q, 'j, 'o) jni_lib \<Rightarrow> 'a
     \<Rightarrow> ('e, 'f, 'w, 'i, 'y, 'r, 'j) jni_state \<times> (message + 'a) \<Rightarrow> ('e, 'f, 'w, 'i, 'y, 'r, 'j) jni_state \<times> 'a" where
  "throw_and_return L dflt result =
     (case result of (st, Inr x) \<Rightarrow> (st, x) | (st, Inl m) \<Rightarrow> (throw L m st, dflt))"

datatype 'o native_call =
    CreateWriter 'o 'o
  | NativeAddDocument i64 i64 'o
  | NativeAddDocumentFields i64 i64 'o 'o
  | NativeWriteIndex i64 'o
  | FreeWriter i64
  | OpenReader 'o
  | NativeSearch i64 'o i32
  | NativeSearchRoaring i64 'o i32 'o
  | NativePrewarm i64
  | NativeReadMetrics i64
  | FreeReader i64

datatype 'o native_answer = JLong i64 | JObject "'o option" | JVoid

fun native_method ::
  "('e, 'f, 'x, 'w, 'i, 'y, 'r, 's, 'q, 'j, 'o) jni_lib \<Rightarrow> 'o native_call
     \<Rightarrow> ('e, 'f, 'w, 'i, 'y, 'r, 'j) jni_state \<Rightarrow> (('e, 'f, 'w, 'i, 'y, 'r, 'j) jni_state \<times> (message + 'o native_answer)) option" where
  "native_method L (CreateWriter ks vs) st = Some (map_prod id (map_sum id JLong) (jni_create_writer L ks vs st))"
| "native_method L (NativeAddDocument p row str) st =
     map_option (map_prod id (map_sum id (\<lambda>_. JVoid))) (jni_add_document L p row str st)"
| "native_method L (NativeAddDocumentFields p row ns ts) st =
     map_option (map_prod id (map_sum id (\<lambda>_. JVoid))) (jni_add_document_fields L p row ns ts st)"
| "native_method L (NativeWriteIndex p out) st =
     map_option (map_prod id (map_sum id (\<lambda>_. JVoid))) (jni_write_index L p out st)"
| "native_method L (FreeWriter p) st =
     (if p = 0 then Some (st, Inr JVoid)
      else if jn_writers st p = None then None
      else Some (st\<lparr>jn_writers := (jn_writers st)(p := None)\<rparr>, Inr JVoid))"
| "native_method L (OpenReader inp) st = Some (map_prod id (map_sum id JLong) (jni_open_reader L inp st))"
| "native_method L (NativeSearch p q lmt) st =
     map_option (map_prod id (map_sum id (JObject \<circ> Some))) (jni_search L p q lmt None st)"
| "native_method L (NativeSearchRoaring p q lmt f) st =
     map_option (map_prod id (map_sum id (JObject \<circ> Some))) (jni_search L p q lmt (Some f) st)"
| "native_method L (NativePrewarm p) st =
     map_option (map_prod id (map_sum id (\<lambda>_. JVoid))) (jni_prewarm L p st)"
| "native_method L (NativeReadMetrics p) st =
     map_option (map_prod id (map_sum id (JObject \<circ> Some))) (jni_read_metrics L p st)"
| "native_method L (FreeReader p) st =
     (if p = 0 then Some (st, Inr JVoid)
      else if jn_readers st p = None then None
      else Some (st\<lparr>jn_readers := (jn_readers st)(p := None)\<rparr>, Inr JVoid))"

fun default_answer :: "'o native_call \<Rightarrow> 'o native_answer" where
  "default_answer (CreateWriter _ _) = JLong 0"
| "default_answer (OpenReader _) = JLong 0"
| "default_answer (NativeSearch _ _ _) = JObject None"
| "default_answer (NativeSearchRoaring _ _ _ _) = JObject None"
| "default_answer (NativeReadMetrics _) = JObject None"
| "default_answer _ = JVoid"

definition native ::
  "('e, 'f, 'x, 'w, 'i, 'y, 'r, 's, 'q, 'j, 'o) jni_lib \<Rightarrow> 'o native_call
     \<Rightarrow> ('e, 'f, 'w, 'i, 'y, 'r, 'j) jni_state \<Rightarrow> (('e, 'f, 'w, 'i, 'y, 'r, 'j) jni_state \<times> 'o native_answer) option" where
  "native L c st = map_option (throw_and_return L (default_answer c)) (native_method L c st)"

section \<open>Lengths as Java integers\<close>

lemma sint_of_nat_small: "n < 2 ^ 31 \<Longrightarrow> sint (of_nat n :: i32) = int n"
  by (simp add: sint_uint uint_nat unat_of_nat signed_take_bit_int_eq_self)

lemma sint_of_nat_le: "nat (sint (of_nat n :: i32)) \<le> n"
proof -
  have "- 2147483648 \<le> uint (of_nat n :: i32)" by (rule order_trans [OF _ uint_ge_0]) simp
  then have "sint (of_nat n :: i32) \<le> uint (of_nat n :: i32)"
    by (simp add: sint_uint signed_take_bit_int_less_eq_self_iff)
  also have "\<dots> \<le> int n" by (simp add: uint_nat unat_of_nat)
  finally show ?thesis by simp
qed

lemma sint_ucast_len: "unat (n :: usize) < 2 ^ 31 \<Longrightarrow> sint (ucast n :: i32) = int (unat n)"
  using sint_of_nat_small [of "unat n"] by (metis ucast_eq of_int_of_nat_eq of_nat_unat)

lemma sint_small_pos: "unat (p :: u64) < 2 ^ 63 \<Longrightarrow> sint p = int (unat p)"
proof -
  assume "unat p < 2 ^ 63"
  then have "int (unat p) < int (2 ^ 63)" by (simp only: of_nat_less_iff)
  then have "uint p < 2 ^ 63" by simp
  then have "signed_take_bit 63 (uint p) = uint p"
    by (intro signed_take_bit_int_eq_self order_trans [OF _ uint_ge_0]) simp_all
  then show ?thesis by (simp add: sint_uint)
qed

lemma scast_length: "sint (n :: i32) = int k \<Longrightarrow> scast n = (of_nat k :: usize)"
  by (simp add: scast_eq)

section \<open>What Java streams promise\<close>

text \<open>
  A Java output stream seen through the operations of the \<^verbatim>\<open>jni\<close> crate: \<open>written\<close> is what the
  stream has received, \<open>arr\<close> the content of a byte array. A successful write takes the given
  number of bytes of the array, a failed one has taken a prefix of them; an array has the length
  it was created with, a region that does not fit is refused, and nothing else writes.
\<close>

locale java_stream =
  fixes V :: "('s, 'o) java_io" and written :: "'s \<Rightarrow> bytes" and arr :: "'s \<Rightarrow> 'o \<Rightarrow> bytes"
  assumes attach_quiet: "ji_attach V s = (s', r) \<Longrightarrow> written s' = written s"
    and new_quiet: "ji_new_byte_array V n s = (s', r') \<Longrightarrow> written s' = written s"
    and new_length: "ji_new_byte_array V n s = (s', Inr a) \<Longrightarrow> length (arr s' a) = nat (sint n)"
    and set_quiet: "ji_set_region V a 0 xs s = (s', r) \<Longrightarrow> written s' = written s"
    and set_done: "ji_set_region V a 0 xs s = (s', Inr ()) \<Longrightarrow>
          length xs \<le> length (arr s a) \<and> arr s' a = xs @ drop (length xs) (arr s a)"
    and write_done: "ji_call_write V a 0 n s = (s', Inr ()) \<Longrightarrow> written s' = written s @ take (nat (sint n)) (arr s a)"
    and write_failed: "ji_call_write V a 0 n s = (s', Inl e) \<Longrightarrow>
          \<exists>k. written s' = written s @ take k (take (nat (sint n)) (arr s a))"
    and flush_quiet: "ji_call_flush V s = (s', r) \<Longrightarrow> written s' = written s"
begin

lemma filled_array:
  assumes "ji_new_byte_array V (of_nat (length buf)) s = (s1, Inr a)" and "ji_set_region V a 0 buf s1 = (s2, Inr ())"
  shows "nat (sint (of_nat (length buf) :: i32)) = length buf" and "arr s2 a = buf"
proof -
  show len: "nat (sint (of_nat (length buf) :: i32)) = length buf"
    using new_length [OF assms(1)] set_done [OF assms(2)] sint_of_nat_le [of "length buf"] by linarith
  then show "arr s2 a = buf" using new_length [OF assms(1)] set_done [OF assms(2)] by simp
qed

lemma java_write_all_cases:
  assumes "java_write_all V buf s = (s', r)"
  obtains (early) "written s' = written s" "\<exists>e. r = Inl e"
  | (call) s1 a m r' where "written s1 = written s" "ji_call_write V a 0 m s1 = (s', r')"
      "take (nat (sint m)) (arr s1 a) = buf" "\<And>u. r = Inr u \<Longrightarrow> r' = Inr u" "\<And>e. r = Inl e \<Longrightarrow> \<exists>e'. r' = Inl e'"
proof -
  obtain s1 r1 where attach: "ji_attach V s = (s1, r1)" by fastforce
  obtain s2 r2 where new: "ji_new_byte_array V (of_nat (length buf)) s1 = (s2, r2)" by fastforce
  have w2: "written s1 = written s" "written s2 = written s"
    using attach_quiet [OF attach] new_quiet [OF new] by simp_all
  show ?thesis
  proof (cases "(\<exists>e. r1 = Inl e) \<or> (\<exists>e. r2 = Inl e)")
    case True
    with assms attach new w2 show ?thesis
      by (intro early) (auto simp: java_write_all_def io_other_def st_bind_def st_map_err_def map_err_def split: sum.splits)
  next
    case False
    then obtain a where r: "r1 = Inr ()" "r2 = Inr a" by (metis (full_types) old.sum.exhaust old.unit.exhaust)
    obtain s3 r3 where fill: "ji_set_region V a 0 buf s2 = (s3, r3)" by fastforce
    have w3: "written s3 = written s" using set_quiet [OF fill] w2 by simp
    show ?thesis
    proof (cases r3)
      case (Inl e)
      with assms attach new r fill w3 show ?thesis
        by (intro early) (auto simp: java_write_all_def io_other_def st_bind_def st_map_err_def)
    next
      case (Inr u)
      have arr: "take (nat (sint (of_nat (length buf) :: i32))) (arr s3 a) = buf"
        using filled_array [of buf s1 s2 a s3] new fill r(2) Inr by simp
      obtain s4 r4 where wrote: "ji_call_write V a 0 (of_nat (length buf)) s3 = (s4, r4)" by fastforce
      have s4: "s4 = s'" "r = map_err (\<lambda>e. IoError OtherKind (Lit ''Java output write failed: '' # e)) r4"
        using assms attach new r fill Inr wrote
        by (auto simp: java_write_all_def io_other_def st_bind_def st_map_err_def)
      from wrote s4(1) have "ji_call_write V a 0 (of_nat (length buf)) s3 = (s', r4)" by simp
      from call [OF w3 this arr] s4(2) show ?thesis by (auto simp: res_simps)
    qed
  qed
qed

end

sublocale java_stream \<subseteq> seek_writer "java_output V" written
proof
  fix buf w w'
  show "written w' = written w @ buf" if "write_all (java_output V) buf w = (w', Inr ())"
  proof -
    from that have "java_write_all V buf w = (w', Inr ())" by (simp add: java_output_def)
    then show ?thesis by (cases rule: java_write_all_cases) (auto dest: write_done)
  qed
  show "\<exists>n. written w' = written w @ take n buf" if "write_all (java_output V) buf w = (w', Inl e)" for e
  proof -
    from that have "java_write_all V buf w = (w', Inl e)" by (simp add: java_output_def)
    then show ?thesis
      by (cases rule: java_write_all_cases) (fastforce intro: exI [of _ 0], metis write_failed)
  qed
  show "written w' = written w" if "flush (java_output V) w = (w', r)" for r
    using that by (auto simp: java_output_def java_flush_def io_other_def st_bind_def st_map_err_def
        split: prod.splits sum.splits dest!: flush_quiet attach_quiet)
qed

text \<open>A stream and a machine that do not fail on what fits.\<close>

locale total_java_stream = java_stream +
  assumes attach_total: "\<exists>s'. ji_attach V s = (s', Inr ())"
    and new_total: "0 \<le> sint n \<Longrightarrow> \<exists>s' a. ji_new_byte_array V n s = (s', Inr a)"
    and set_total: "length xs \<le> length (arr s a) \<Longrightarrow> \<exists>s'. ji_set_region V a 0 xs s = (s', Inr ())"
    and write_total: "0 \<le> sint n \<Longrightarrow> nat (sint n) \<le> length (arr s a) \<Longrightarrow> \<exists>s'. ji_call_write V a 0 n s = (s', Inr ())"
    and call_flush_total: "\<exists>s'. ji_call_flush V s = (s', Inr ())"

sublocale total_java_stream \<subseteq> total_seek_writer "java_output V" written
proof
  fix buf w
  show "\<exists>w'. write_all (java_output V) buf w = (w', Inr ())" if "length buf \<le> MAX_HEADER_BYTES"
  proof -
    have len: "sint (of_nat (length buf) :: i32) = int (length buf)"
      using that by (intro sint_of_nat_small) (simp add: MAX_HEADER_BYTES_def)
    obtain s1 where s1: "ji_attach V w = (s1, Inr ())" using attach_total by blast
    obtain s2 a where s2: "ji_new_byte_array V (of_nat (length buf)) s1 = (s2, Inr a)"
      using new_total len by (metis of_nat_0_le_iff)
    then have "length (arr s2 a) = length buf" using new_length [OF s2] len by simp
    then obtain s3 where s3: "ji_set_region V a 0 buf s2 = (s3, Inr ())" using set_total by (metis order_refl)
    note arr = filled_array [OF s2 s3]
    obtain s4 where "ji_call_write V a 0 (of_nat (length buf)) s3 = (s4, Inr ())"
      using write_total [of "of_nat (length buf)" s3 a] arr len by auto
    with s1 s2 s3 show ?thesis
      by (simp add: java_output_def java_write_all_def io_other_def st_map_err_def st_bind_def)
  qed
  show "\<exists>w'. flush (java_output V) w = (w', Inr ())"
  proof -
    obtain s1 s2 where "ji_attach V w = (s1, Inr ())" "ji_call_flush V s1 = (s2, Inr ())"
      using attach_total call_flush_total by metis
    then show ?thesis by (simp add: java_output_def java_flush_def io_other_def st_map_err_def st_bind_def)
  qed
qed

text \<open>
  A Java input object over \<open>content\<close>: \<^verbatim>\<open>pread\<close> returns only after it has filled the given range
  of the array from the given position, and the environment reads back what an array holds.
\<close>

locale java_source =
  fixes V :: "('s, 'o) java_io" and content :: bytes and arr :: "'s \<Rightarrow> 'o \<Rightarrow> bytes"
  assumes new_length: "ji_new_byte_array V n s = (s', Inr a) \<Longrightarrow> length (arr s' a) = nat (sint n)"
    and pread_done: "0 \<le> sint pos \<Longrightarrow> 0 \<le> sint n \<Longrightarrow> ji_call_pread V pos a 0 n s = (s', Inr ()) \<Longrightarrow>
          nat (sint n) \<le> length (arr s a) \<Longrightarrow>
          nat (sint pos) + nat (sint n) \<le> length content
          \<and> arr s' a = take (nat (sint n)) (drop (nat (sint pos)) content) @ drop (nat (sint n)) (arr s a)"
    and length_read: "ji_get_length V a s = (s', Inr n) \<Longrightarrow> sint n = int (length (arr s a)) \<and> arr s' a = arr s a"
    and region_read: "ji_get_region V a 0 k s = (s', Inr bs) \<Longrightarrow> bs = take k (arr s a)"
begin

lemma copied_buffer:
  assumes "copy_java_buffer V a n s = (s', Inr bs)"
  shows "bs = arr s a \<and> length (arr s a) = unat n"
proof -
  obtain s1 m where m: "ji_get_length V a s = (s1, Inr m)" and
    rest: "(if (scast m :: usize) \<noteq> n then st_lift (Inl (IoError InvalidData [Lit ''Java pread returned buffer length '',
        ArgNat (unat (scast m :: usize)), Lit '' != '', ArgNat (unat n)]))
      else if 0 < (scast m :: usize) then io_other ''get_byte_array_region failed: '' (ji_get_region V a 0 (unat n))
      else st_lift (Inr [])) s1 = (s', Inr bs)"
    using assms by (auto simp: copy_java_buffer_def io_other_def Let_def res_simps)
  note len = length_read [OF m]
  have n: "n = of_nat (length (arr s a))" using rest scast_length len by (auto split: if_splits)
  have "int (length (arr s a)) < 2 ^ 31" using len sint_lt [of m] by simp
  then have un: "unat n = length (arr s a)" using n by (simp add: unat_of_nat_u64)
  show ?thesis
  proof (cases "0 < n")
    case True
    have "(scast m :: usize) = n" using n scast_length len by simp
    with True rest obtain s2 where "ji_get_region V a 0 (unat n) s1 = (s2, Inr bs)"
      by (auto simp: io_other_def res_simps)
    from region_read [OF this] len un show ?thesis by simp
  next
    case False
    have "(scast m :: usize) = n" using n scast_length len by simp
    moreover have "n = 0" using False by (simp add: word_greater_zero_iff)
    ultimately show ?thesis using rest un by simp
  qed
qed

lemma pread_one_reads:
  assumes "java_pread_one V rq s = (s', Inr buf)"
  shows "request_within content rq \<and> buf = request_bytes content rq"
proof -
  have small: "unat (req_pos rq) < 2 ^ 63" "unat (req_len rq) < 2 ^ 31"
    using assms by (auto simp: java_pread_one_def split: if_splits)
  let ?n = "ucast (req_len rq) :: i32"
  obtain s1 a s2 where new: "ji_new_byte_array V ?n s = (s1, Inr a)"
    and rd: "ji_call_pread V (req_pos rq) a 0 ?n s1 = (s2, Inr ())"
    and copy: "copy_java_buffer V a (req_len rq) s2 = (s', Inr buf)"
    using assms small by (auto simp: java_pread_one_def io_other_def res_simps)
  have pos: "sint (req_pos rq) = int (unat (req_pos rq))" by (rule sint_small_pos [OF small(1)])
  have n: "sint ?n = int (unat (req_len rq))" by (rule sint_ucast_len [OF small(2)])
  have "unat (req_pos rq) + unat (req_len rq) \<le> length content"
    "arr s2 a = take (unat (req_len rq)) (drop (unat (req_pos rq)) content)"
    using pread_done [OF _ _ rd] new_length [OF new] pos n by auto
  with copied_buffer [OF copy] small show ?thesis
    by (simp add: request_within_def request_bytes_def subslice_def)
qed

lemma pread_loop_reads:
  "java_pread_loop V rqs s = (s', Inr bufs) \<Longrightarrow>
     list_all (request_within content) rqs \<and> bufs = map (request_bytes content) rqs"
  by (induction rqs arbitrary: s bufs) (fastforce simp: res_simps dest: pread_one_reads)+

end

sublocale java_source \<subseteq> seek_read "java_pread V" content
  by unfold_locales (auto simp: java_pread_def io_other_def res_simps dest: pread_loop_reads)

text \<open>A range that Java can name: the position is a \<^verbatim>\<open>long\<close> and the length an \<^verbatim>\<open>int\<close>.\<close>

definition representable :: "read_request \<Rightarrow> bool" where
  "representable rq \<longleftrightarrow> unat (req_pos rq) < 2 ^ 63 \<and> unat (req_len rq) < 2 ^ 31"

locale total_java_source = java_source +
  assumes attach_total: "\<exists>s'. ji_attach V s = (s', Inr ())"
    and new_total: "0 \<le> sint n \<Longrightarrow> \<exists>s' a. ji_new_byte_array V n s = (s', Inr a)"
    and pread_total: "0 \<le> sint pos \<Longrightarrow> 0 \<le> sint n \<Longrightarrow> nat (sint n) \<le> length (arr s a) \<Longrightarrow>
          nat (sint pos) + nat (sint n) \<le> length content \<Longrightarrow> \<exists>s'. ji_call_pread V pos a 0 n s = (s', Inr ())"
    and length_total: "\<exists>s' n. ji_get_length V a s = (s', Inr n)"
    and region_total: "k \<le> length (arr s a) \<Longrightarrow> \<exists>s' bs. ji_get_region V a 0 k s = (s', Inr bs)"
begin

lemma copy_total:
  assumes "length (arr s a) = unat n" and "unat n < 2 ^ 31"
  shows "\<exists>s'. copy_java_buffer V a n s = (s', Inr (arr s a))"
proof -
  obtain s1 m where m: "ji_get_length V a s = (s1, Inr m)" using length_total by blast
  note len = length_read [OF m]
  have "(scast m :: usize) = of_nat (unat n)" using len assms(1) by (intro scast_length) simp
  then have sc: "(scast m :: usize) = n" by simp
  show ?thesis
  proof (cases "0 < n")
    case True
    obtain s2 bs where bs: "ji_get_region V a 0 (unat n) s1 = (s2, Inr bs)"
      using region_total len assms(1) by (metis order_refl)
    with region_read [OF bs] len assms(1) m sc True show ?thesis
      by (simp add: copy_java_buffer_def io_other_def st_bind_def st_map_err_def Let_def)
  next
    case False
    then have "n = 0" by (simp add: word_greater_zero_iff)
    with m sc assms(1) show ?thesis by (simp add: copy_java_buffer_def io_other_def st_bind_def st_map_err_def Let_def)
  qed
qed

lemma pread_one_total:
  assumes "request_within content rq" and small: "unat (req_pos rq) < 2 ^ 63" "unat (req_len rq) < 2 ^ 31"
  shows "\<exists>s' buf. java_pread_one V rq s = (s', Inr buf)"
proof -
  let ?n = "ucast (req_len rq) :: i32"
  note pos = sint_small_pos [OF small(1)] and n = sint_ucast_len [OF small(2)]
  obtain s1 a where new: "ji_new_byte_array V ?n s = (s1, Inr a)" using new_total [of ?n s] n by auto
  have len: "length (arr s1 a) = unat (req_len rq)" using new_length [OF new] n by simp
  obtain s2 where rd: "ji_call_pread V (req_pos rq) a 0 ?n s1 = (s2, Inr ())"
    using pread_total [of "req_pos rq" ?n s1 a] pos n len assms(1) by (auto simp: request_within_def)
  have "arr s2 a = take (unat (req_len rq)) (drop (unat (req_pos rq)) content)"
    using pread_done [OF _ _ rd] pos n len by simp
  then have "length (arr s2 a) = unat (req_len rq)" using assms(1)
    unfolding request_within_def by (simp only: length_take length_drop) linarith
  then obtain s3 where "copy_java_buffer V a (req_len rq) s2 = (s3, Inr (arr s2 a))" using copy_total small(2) by blast
  with new rd small show ?thesis
    by (simp add: java_pread_one_def io_other_def st_bind_def st_map_err_def)
qed

lemma pread_one_iff:
  "(\<exists>s' buf. java_pread_one V rq s = (s', Inr buf)) \<longleftrightarrow> request_within content rq \<and> representable rq"
proof
  assume "\<exists>s' buf. java_pread_one V rq s = (s', Inr buf)"
  then obtain s' buf where run: "java_pread_one V rq s = (s', Inr buf)" by blast
  then have "representable rq" by (auto simp: java_pread_one_def representable_def split: if_splits)
  with pread_one_reads [OF run] show "request_within content rq \<and> representable rq" by simp
qed (auto simp: representable_def intro: pread_one_total)

lemma pread_loop_total:
  "list_all (\<lambda>rq. request_within content rq \<and> representable rq) rqs \<Longrightarrow> \<exists>s' bufs. java_pread_loop V rqs s = (s', Inr bufs)"
proof (induction rqs arbitrary: s)
  case (Cons rq rqs)
  then obtain s1 buf where one: "java_pread_one V rq s = (s1, Inr buf)" using pread_one_iff by fastforce
  obtain s2 bufs where "java_pread_loop V rqs s1 = (s2, Inr bufs)" using Cons by fastforce
  with one show ?case by (simp add: st_bind_def)
qed simp

lemma pread_loop_representable: "java_pread_loop V rqs s = (s', Inr bufs) \<Longrightarrow> list_all representable rqs"
  by (induction rqs arbitrary: s bufs) (fastforce simp: res_simps dest: pread_one_iff [THEN iffD1, OF exI, OF exI])+

lemma pread_iff:
  "snd (java_pread V rqs s) = Inr bufs \<longleftrightarrow>
     list_all (\<lambda>rq. request_within content rq \<and> representable rq) rqs \<and> bufs = map (request_bytes content) rqs"
proof -
  obtain s1 where at: "ji_attach V s = (s1, Inr ())" using attach_total by blast
  then have run: "java_pread V rqs s = java_pread_loop V rqs s1"
    by (simp add: java_pread_def io_other_def st_bind_def st_map_err_def)
  show ?thesis
  proof
    assume "snd (java_pread V rqs s) = Inr bufs"
    then obtain s' where "java_pread_loop V rqs s1 = (s', Inr bufs)" using run by (metis prod.collapse)
    then show "list_all (\<lambda>rq. request_within content rq \<and> representable rq) rqs \<and> bufs = map (request_bytes content) rqs"
      using pread_loop_reads pread_loop_representable by (fastforce simp: list_all_iff)
  next
    assume ok: "list_all (\<lambda>rq. request_within content rq \<and> representable rq) rqs \<and> bufs = map (request_bytes content) rqs"
    then obtain s' bufs' where loop: "java_pread_loop V rqs s1 = (s', Inr bufs')" using pread_loop_total by blast
    with pread_loop_reads [OF loop] ok run show "snd (java_pread V rqs s) = Inr bufs" by simp
  qed
qed

text \<open>A file whose length is an \<^verbatim>\<open>int\<close> can be read anywhere.\<close>

lemma int_sized_total:
  assumes "length content < 2 ^ 31"
  shows "total_seek_read (java_pread V) content"
proof (intro total_seek_read.intro total_seek_read_axioms.intro)
  show "seek_read (java_pread V) content" by unfold_locales
  show "\<exists>s'. java_pread V rs s = (s', Inr (map (request_bytes content) rs))"
    if "list_all (request_within content) rs" for rs s
  proof -
    have "list_all (\<lambda>rq. request_within content rq \<and> representable rq) rs"
      using that assms by (auto simp: list_all_iff request_within_def representable_def)
    then have "snd (java_pread V rs s) = Inr (map (request_bytes content) rs)" by (simp add: pread_iff)
    then show ?thesis by (metis prod.collapse)
  qed
qed

end

section \<open>Result objects\<close>

locale java_results =
  fixes V :: "('j, 'o) jni_env" and longs :: "'j \<Rightarrow> 'o \<Rightarrow> i64 list" and floats :: "'j \<Rightarrow> 'o \<Rightarrow> f32 list"
    and result_of :: "'j \<Rightarrow> 'o \<Rightarrow> i64 list \<times> f32 list"
  assumes new_longs: "je_new_longs V n j = (j', Inr a) \<Longrightarrow> length (longs j' a) = nat (sint n)"
    and set_longs: "je_set_longs V a 0 xs j = (j', Inr ()) \<Longrightarrow>
          length xs \<le> length (longs j a) \<and> longs j' a = xs @ drop (length xs) (longs j a)"
    and new_floats: "je_new_floats V n j = (j', Inr b) \<Longrightarrow> length (floats j' b) = nat (sint n) \<and> longs j' = longs j"
    and set_floats: "je_set_floats V b 0 ys j = (j', Inr ()) \<Longrightarrow>
          length ys \<le> length (floats j b) \<and> floats j' b = ys @ drop (length ys) (floats j b) \<and> longs j' = longs j"
    and new_result: "je_new_result V a b j = (j', Inr r) \<Longrightarrow> result_of j' r = (longs j a, floats j b)"
begin

lemma result_holds:
  assumes "new_search_result V res j = (j', Inr r)"
  shows "result_of j' r = (sr_row_ids res, sr_scores res)"
proof -
  obtain j1 a j2 j3 b j4 where
    a: "je_new_longs V (of_nat (length (sr_row_ids res))) j = (j1, Inr a)" "je_set_longs V a 0 (sr_row_ids res) j1 = (j2, Inr ())"
    and b: "je_new_floats V (of_nat (length (sr_scores res))) j2 = (j3, Inr b)" "je_set_floats V b 0 (sr_scores res) j3 = (j4, Inr ())"
    and r: "je_new_result V a b j4 = (j', Inr r)"
    using assms by (auto simp: new_search_result_def res_simps)
  have "longs j2 a = sr_row_ids res"
    using new_longs [OF a(1)] set_longs [OF a(2)] sint_of_nat_le [of "length (sr_row_ids res)"] by simp
  moreover have "floats j4 b = sr_scores res"
    using new_floats [OF b(1)] set_floats [OF b(2)] sint_of_nat_le [of "length (sr_scores res)"] by simp
  ultimately show ?thesis using new_result [OF r] new_floats [OF b(1)] set_floats [OF b(2)] by simp
qed

end

locale total_java_results = java_results +
  assumes new_longs_total: "0 \<le> sint n \<Longrightarrow> \<exists>j' a. je_new_longs V n j = (j', Inr a)"
    and set_longs_total: "length xs \<le> length (longs j a) \<Longrightarrow> \<exists>j'. je_set_longs V a 0 xs j = (j', Inr ())"
    and new_floats_total: "0 \<le> sint n \<Longrightarrow> \<exists>j' b. je_new_floats V n j = (j', Inr b)"
    and set_floats_total: "length ys \<le> length (floats j b) \<Longrightarrow> \<exists>j'. je_set_floats V b 0 ys j = (j', Inr ())"
    and new_result_total: "\<exists>j' r. je_new_result V a b j = (j', Inr r)"
begin

lemma result_total:
  assumes "length (sr_row_ids res) < 2 ^ 31" and "length (sr_scores res) < 2 ^ 31"
  shows "\<exists>j' r. new_search_result V res j = (j', Inr r) \<and> result_of j' r = (sr_row_ids res, sr_scores res)"
proof -
  note ids = sint_of_nat_small [OF assms(1)] and scs = sint_of_nat_small [OF assms(2)]
  obtain j1 a where a: "je_new_longs V (of_nat (length (sr_row_ids res))) j = (j1, Inr a)"
    using new_longs_total ids by (metis of_nat_0_le_iff)
  obtain j2 where j2: "je_set_longs V a 0 (sr_row_ids res) j1 = (j2, Inr ())"
    using set_longs_total [of "sr_row_ids res" j1 a] new_longs [OF a] ids by auto
  obtain j3 b where b: "je_new_floats V (of_nat (length (sr_scores res))) j2 = (j3, Inr b)"
    using new_floats_total scs by (metis of_nat_0_le_iff)
  obtain j4 where j4: "je_set_floats V b 0 (sr_scores res) j3 = (j4, Inr ())"
    using set_floats_total [of "sr_scores res" j3 b] new_floats [OF b] scs by auto
  obtain j5 r where "je_new_result V a b j4 = (j5, Inr r)" using new_result_total by blast
  with a j2 b j4 have "new_search_result V res j = (j5, Inr r)" by (simp add: new_search_result_def st_bind_def)
  with result_holds show ?thesis by blast
qed

end

section \<open>Handles\<close>

text \<open>What a method leaves of the boxes: their handles, and the boxes behind other handles than \<open>p\<close>.\<close>

definition jn_touches ::
  "i64 \<Rightarrow> ('e, 'f, 'w, 'i, 'y, 'r, 'j) jni_state \<Rightarrow> ('e, 'f, 'w, 'i, 'y, 'r, 'j) jni_state \<Rightarrow> bool" where
  "jn_touches p st st' \<longleftrightarrow> dom (jn_writers st') = dom (jn_writers st) \<and> dom (jn_readers st') = dom (jn_readers st)
     \<and> (\<forall>q. q \<noteq> p \<longrightarrow> jn_writers st' q = jn_writers st q \<and> jn_readers st' q = jn_readers st q)"

definition touching ::
  "i64 \<Rightarrow> (('e, 'f, 'w, 'i, 'y, 'r, 'j) jni_state \<Rightarrow> bool) \<Rightarrow> ('e, 'f, 'w, 'i, 'y, 'r, 'j, 'a) jni_res \<Rightarrow> bool" where
  "touching p P f \<longleftrightarrow> (\<forall>st st' r. P st \<longrightarrow> f st = (st', r) \<longrightarrow> jn_touches p st st' \<and> P st')"

lemma jn_touches_refl [simp]: "jn_touches p st st"
  by (simp add: jn_touches_def)

lemma jn_touches_trans: "jn_touches p st st1 \<Longrightarrow> jn_touches p st1 st2 \<Longrightarrow> jn_touches p st st2"
  by (simp add: jn_touches_def)

lemma touchingD: "touching p P f \<Longrightarrow> P st \<Longrightarrow> f st = (st', r) \<Longrightarrow> jn_touches p st st' \<and> P st'"
  by (simp add: touching_def)

lemma touching_bind:
  assumes "touching p P m" and "\<And>x. touching p P (f x)"
  shows "touching p P (st_bind m f)"
  unfolding touching_def
proof (intro allI impI)
  fix st st' r
  assume P: "P st" and run: "st_bind m f st = (st', r)"
  obtain st1 r1 where m: "m st = (st1, r1)" by fastforce
  with touchingD [OF assms(1) P] have t: "jn_touches p st st1" "P st1" by auto
  show "jn_touches p st st' \<and> P st'"
  proof (cases r1)
    case (Inl e)
    with m run t show ?thesis by (simp add: st_bind_def)
  next
    case (Inr x)
    with m run have "f x st1 = (st', r)" by (simp add: st_bind_def)
    from touchingD [OF assms(2) t(2) this] t(1) show ?thesis by (blast intro: jn_touches_trans)
  qed
qed

lemma touching_lift [simp]: "touching p P (st_lift r)"
  by (simp add: touching_def st_lift_def)

definition has_writer :: "i64 \<Rightarrow> ('e, 'f, 'w, 'i, 'y, 'r, 'j) jni_state \<Rightarrow> bool" where
  "has_writer p st \<longleftrightarrow> p \<in> dom (jn_writers st)"

definition has_reader :: "i64 \<Rightarrow> ('e, 'f, 'w, 'i, 'y, 'r, 'j) jni_state \<Rightarrow> bool" where
  "has_reader p st \<longleftrightarrow> p \<in> dom (jn_readers st)"

lemma touching_env:
  "touching p (has_writer q) (in_env f)" "touching p (has_reader q) (in_env f)"
  by (auto simp: touching_def in_env_def jn_touches_def has_writer_def has_reader_def split: prod.splits)

lemma touching_box_writer: "touching p (has_writer p) (on_box_writer L p w f)"
  by (auto simp: touching_def on_box_writer_def jn_touches_def has_writer_def split: prod.splits)

lemma touching_box_reader: "touching p (has_reader p) (on_box_reader L p rs f)"
  by (auto simp: touching_def on_box_reader_def jn_touches_def has_reader_def split: prod.splits)

lemmas touching_intros = touching_bind touching_env touching_box_writer touching_box_reader touching_lift

text \<open>A method on a handle: closed, dangling, or a run of its body.\<close>

lemma with_writer_touches:
  assumes "with_handle (jn_writers st) p name body st = Some (st', r)" and "\<And>w. touching p (has_writer p) (body w)"
  shows "jn_touches p st st'"
proof (cases "p = 0")
  case True
  then show ?thesis using assms(1) by (simp add: with_handle_def)
next
  case False
  then obtain w where "jn_writers st p = Some w" "body w st = (st', r)" using assms(1) by (auto simp: with_handle_def)
  then show ?thesis using touchingD [OF assms(2), of st w st' r] by (auto simp: has_writer_def)
qed

lemma with_reader_touches:
  assumes "with_handle (jn_readers st) p name body st = Some (st', r)" and "\<And>rs. touching p (has_reader p) (body rs)"
  shows "jn_touches p st st'"
proof (cases "p = 0")
  case True
  then show ?thesis using assms(1) by (simp add: with_handle_def)
next
  case False
  then obtain rs where "jn_readers st p = Some rs" "body rs st = (st', r)" using assms(1) by (fastforce simp: with_handle_def)
  then show ?thesis using touchingD [OF assms(2), of st rs st' r] by (auto simp: has_reader_def)
qed

lemma add_document_touches: "jni_add_document L p row str st = Some (st', r) \<Longrightarrow> jn_touches p st st'"
  unfolding jni_add_document_def by (erule with_writer_touches) (intro touching_intros)

lemma add_fields_touches: "jni_add_document_fields L p row ns ts st = Some (st', r) \<Longrightarrow> jn_touches p st st'"
  unfolding jni_add_document_fields_def by (erule with_writer_touches) (intro touching_intros)

lemma write_index_touches: "jni_write_index L p out st = Some (st', r) \<Longrightarrow> jn_touches p st st'"
  unfolding jni_write_index_def
  by (erule with_writer_touches, intro touching_bind touching_env)
    (auto simp: touching_def jn_touches_def has_writer_def split: prod.splits)

lemma search_touches: "jni_search L p q lmt f st = Some (st', r) \<Longrightarrow> jn_touches p st st'"
  unfolding jni_search_def
  by (erule with_reader_touches, cases f) (auto intro!: touching_intros)

lemma prewarm_touches: "jni_prewarm L p st = Some (st', r) \<Longrightarrow> jn_touches p st st'"
  unfolding jni_prewarm_def by (erule with_reader_touches) (intro touching_intros)

lemma metrics_touches: "jni_read_metrics L p st = Some (st', r) \<Longrightarrow> jn_touches p st st'"
  unfolding jni_read_metrics_def by (erule with_reader_touches) (intro touching_intros)

definition jn_inv :: "('e, 'f, 'w, 'i, 'y, 'r, 'j) jni_state \<Rightarrow> bool" where
  "jn_inv st \<longleftrightarrow> 0 \<notin> jn_live st \<and> dom (jn_writers st) \<inter> dom (jn_readers st) = {}"

definition jn_same ::
  "i64 \<Rightarrow> ('e, 'f, 'w, 'i, 'y, 'r, 'j) jni_state \<Rightarrow> ('e, 'f, 'w, 'i, 'y, 'r, 'j) jni_state \<Rightarrow> bool" where
  "jn_same q st st' \<longleftrightarrow> jn_writers st' q = jn_writers st q \<and> jn_readers st' q = jn_readers st q"

fun native_handle :: "'o native_call \<Rightarrow> 'o native_answer \<Rightarrow> i64" where
  "native_handle (NativeAddDocument p _ _) a = p"
| "native_handle (NativeAddDocumentFields p _ _ _) a = p"
| "native_handle (NativeWriteIndex p _) a = p"
| "native_handle (FreeWriter p) a = p"
| "native_handle (NativeSearch p _ _) a = p"
| "native_handle (NativeSearchRoaring p _ _ _) a = p"
| "native_handle (NativePrewarm p) a = p"
| "native_handle (NativeReadMetrics p) a = p"
| "native_handle (FreeReader p) a = p"
| "native_handle _ (JLong p) = p"
| "native_handle _ _ = 0"

fun native_track :: "'o native_call \<Rightarrow> 'o native_answer \<Rightarrow> i64 set \<Rightarrow> i64 set" where
  "native_track (CreateWriter _ _) (JLong p) L = (if p = 0 then L else insert p L)"
| "native_track (OpenReader _) (JLong p) L = (if p = 0 then L else insert p L)"
| "native_track (FreeWriter p) _ L = L - {p}"
| "native_track (FreeReader p) _ L = L - {p}"
| "native_track _ _ L = L"

fun native_opened :: "'o native_answer \<Rightarrow> i64 option" where
  "native_opened (JLong p) = Some p"
| "native_opened _ = None"

text \<open>One step on the box at \<open>h\<close> after which the handles \<open>H\<close> are live.\<close>

definition jn_frames ::
  "i64 \<Rightarrow> i64 set \<Rightarrow> ('e, 'f, 'w, 'i, 'y, 'r, 'j) jni_state \<Rightarrow> ('e, 'f, 'w, 'i, 'y, 'r, 'j) jni_state \<Rightarrow> bool" where
  "jn_frames h H st st' \<longleftrightarrow> jn_inv st' \<and> jn_live st' = H \<and> (\<forall>q. q \<noteq> h \<longrightarrow> jn_same q st st')"

lemma frames_touches: "jn_touches p st st' \<Longrightarrow> jn_inv st \<Longrightarrow> jn_frames p (jn_live st) st st'"
  by (simp add: jn_touches_def jn_frames_def jn_inv_def jn_live_def jn_same_def)

lemma jn_frames_throw [simp]: "jn_frames h H st (throw L m st') \<longleftrightarrow> jn_frames h H st st'"
  by (simp add: throw_def jn_frames_def jn_inv_def jn_live_def jn_same_def)

lemma frames_returned:
  "throw_and_return L dflt (st1, r) = (st', x) \<Longrightarrow> jn_frames h H st st1 \<Longrightarrow> jn_frames h H st st'"
  by (auto simp: throw_and_return_def split: sum.splits)

text \<open>An opening method, in its two outcomes.\<close>

definition jn_opens ::
  "('e, 'f, 'w, 'i, 'y, 'r, 'j) jni_state \<Rightarrow> ('e, 'f, 'w, 'i, 'y, 'r, 'j) jni_state \<Rightarrow> i64 \<Rightarrow> bool" where
  "jn_opens st st' p \<longleftrightarrow>
     p \<notin> insert 0 (jn_live st)
     \<and> ((\<exists>w. jn_writers st' = (jn_writers st)(p \<mapsto> w) \<and> jn_readers st' = jn_readers st)
        \<or> (\<exists>rs. jn_readers st' = (jn_readers st)(p \<mapsto> rs) \<and> jn_writers st' = jn_writers st))"

definition jn_quiet ::
  "('e, 'f, 'w, 'i, 'y, 'r, 'j) jni_state \<Rightarrow> ('e, 'f, 'w, 'i, 'y, 'r, 'j) jni_state \<Rightarrow> bool" where
  "jn_quiet st st' \<longleftrightarrow> jn_writers st' = jn_writers st \<and> jn_readers st' = jn_readers st"

lemma jn_inv_alt:
  "jn_inv st \<longleftrightarrow> jn_writers st 0 = None \<and> jn_readers st 0 = None
     \<and> (\<forall>q. jn_writers st q = None \<or> jn_readers st q = None)"
  by (simp only: jn_inv_def jn_live_def disjoint_iff domIff Un_iff de_Morgan_disj not_not imp_conv_disj conj_assoc)

lemma opens_new: "jn_opens st st' p \<Longrightarrow> p \<noteq> 0 \<and> p \<notin> jn_live st"
  by (simp add: jn_opens_def)

lemma frames_opens_native:
  assumes "jn_opens st st' p" and "jn_inv st"
  shows "jn_frames p (insert p (jn_live st)) st st'"
proof -
  note new = opens_new [OF assms(1)]
  then have none: "jn_writers st p = None" "jn_readers st p = None" unfolding jn_live_def by blast+
  from assms(1) consider (w) w where "jn_writers st' = (jn_writers st)(p \<mapsto> w)" "jn_readers st' = jn_readers st"
    | (r) rs where "jn_readers st' = (jn_readers st)(p \<mapsto> rs)" "jn_writers st' = jn_writers st"
    unfolding jn_opens_def by blast
  then show ?thesis
  proof cases
    case w
    with new none assms(2) show ?thesis by (simp add: jn_frames_def jn_inv_alt jn_live_def jn_same_def)
  next
    case r
    with new none assms(2) show ?thesis by (simp add: jn_frames_def jn_inv_alt jn_live_def jn_same_def)
  qed
qed

lemma frames_free_writer:
  assumes "jn_inv st" and "jn_writers st p = Some w"
  shows "jn_frames p (jn_live st - {p}) st (st\<lparr>jn_writers := (jn_writers st)(p := None)\<rparr>)"
proof -
  have "jn_readers st p = None" using assms by (metis jn_inv_alt option.distinct(1))
  then have "p \<notin> dom (jn_readers st)" by blast
  then have "dom (jn_writers st) - {p} \<union> dom (jn_readers st) = dom (jn_writers st) \<union> dom (jn_readers st) - {p}" by blast
  with assms show ?thesis by (simp add: jn_frames_def jn_inv_alt jn_live_def jn_same_def)
qed

lemma frames_free_reader:
  assumes "jn_inv st" and "jn_readers st p = Some rs"
  shows "jn_frames p (jn_live st - {p}) st (st\<lparr>jn_readers := (jn_readers st)(p := None)\<rparr>)"
proof -
  have "jn_writers st p = None" using assms by (metis jn_inv_alt option.distinct(1))
  then have "p \<notin> dom (jn_writers st)" by blast
  then have "dom (jn_writers st) \<union> (dom (jn_readers st) - {p}) = dom (jn_writers st) \<union> dom (jn_readers st) - {p}" by blast
  with assms show ?thesis by (simp add: jn_frames_def jn_inv_alt jn_live_def jn_same_def)
qed

lemma frames_quiet: "jn_quiet st st' \<Longrightarrow> jn_inv st \<Longrightarrow> jn_frames h (jn_live st) st st'"
  by (simp add: jn_quiet_def jn_frames_def jn_inv_def jn_live_def jn_same_def)

lemma in_env_quiet: "in_env f st = (st', r) \<Longrightarrow> jn_quiet st st'"
  by (auto simp: in_env_def jn_quiet_def split: prod.splits)

lemma quiet_trans: "jn_quiet st st1 \<Longrightarrow> jn_quiet st1 st2 \<Longrightarrow> jn_quiet st st2"
  by (simp add: jn_quiet_def)

lemma quiet_live: "jn_quiet st st' \<Longrightarrow> jn_live st' = jn_live st"
  by (simp add: jn_quiet_def jn_live_def)

lemma quiet_opens: "jn_quiet st st1 \<Longrightarrow> jn_opens st1 st2 p \<Longrightarrow> jn_opens st st2 p"
  by (simp add: jn_quiet_def jn_opens_def jn_live_def)

lemma create_writer_cases:
  assumes "jni_create_writer L ks vs st = (st', r)" and "fe_alloc (jl_ffi L) (jn_live st) \<notin> insert 0 (jn_live st)"
  shows "(\<exists>e. r = Inl e \<and> jn_quiet st st') \<or> (\<exists>p. r = Inr p \<and> jn_opens st st' p)"
proof -
  obtain st1 r1 where env: "in_env (options_from_arrays (jl_env L) ks vs) st = (st1, r1)" by fastforce
  note q1 = in_env_quiet [OF env]
  show ?thesis
  proof (cases r1)
    case (Inl e)
    with assms(1) env q1 show ?thesis by (auto simp: jni_create_writer_def st_bind_def)
  next
    case (Inr options)
    show ?thesis
    proof (cases "to_text L (config_from_options (fe_lower (jl_ffi L)) (fe_hash_order (jl_ffi L) options))")
      case (Inl e)
      with assms(1) env q1 Inr show ?thesis by (auto simp: jni_create_writer_def st_bind_def st_lift_def)
    next
      case c: (Inr c)
      obtain e' r2 where new: "writer_new (fe_writer_api (jl_ffi L)) (fe_analyzers (jl_ffi L)) c (jn_world st1) = (e', r2)"
        by fastforce
      show ?thesis
      proof (cases r2)
        case err: (Inl err)
        have "jn_quiet st (st1\<lparr>jn_world := e'\<rparr>)" using q1 by (simp add: jn_quiet_def)
        with assms(1) env Inr c new err show ?thesis
          by (auto simp: jni_create_writer_def st_bind_def st_lift_def to_text_def)
      next
        case w: (Inr w)
        let ?p = "fe_alloc (jl_ffi L) (jn_live st1)"
        have "jn_opens st1 (st1\<lparr>jn_world := e', jn_writers := (jn_writers st1)(?p \<mapsto> w)\<rparr>) ?p"
          using assms(2) quiet_live [OF q1] by (auto simp: jn_opens_def)
        from quiet_opens [OF q1 this] assms(1) env Inr c new w show ?thesis
          by (auto simp: jni_create_writer_def st_bind_def st_lift_def Let_def)
      qed
    qed
  qed
qed

lemma open_reader_cases:
  assumes "jni_open_reader L inp st = (st', r)" and "fe_alloc (jl_ffi L) (jn_live st) \<notin> insert 0 (jn_live st)"
  shows "(\<exists>e. r = Inl e \<and> jn_quiet st st') \<or> (\<exists>p. r = Inr p \<and> jn_opens st st' p)"
proof -
  obtain st1 r1 where vm: "in_env (je_java_vm (jl_env L)) st = (st1, r1)" by fastforce
  obtain st2 r2 where ref: "in_env (je_global_ref (jl_env L) inp) st1 = (st2, r2)" by fastforce
  note q1 = in_env_quiet [OF vm]
  note q2 = quiet_trans [OF q1 in_env_quiet [OF ref]]
  show ?thesis
  proof (cases r1)
    case (Inl e)
    with assms(1) vm q1 show ?thesis by (auto simp: jni_open_reader_def st_bind_def)
  next
    case r1: (Inr u)
    show ?thesis
    proof (cases r2)
      case (Inl e)
      with assms(1) vm ref r1 q2 show ?thesis by (auto simp: jni_open_reader_def st_bind_def)
    next
      case r2: (Inr i)
      show ?thesis
      proof (cases "reader_open (fe_json (jl_ffi L)) (fe_reader_api (jl_ffi L)) (fe_analyzers (jl_ffi L))
            (java_pread (jl_input L i)) (jl_input_state L i)")
        case (Inl err)
        with assms(1) vm ref r1 r2 q2 show ?thesis by (auto simp: jni_open_reader_def st_bind_def to_text_def)
      next
        case (Inr rs)
        let ?p = "fe_alloc (jl_ffi L) (jn_live st2)"
        have "jn_opens st2 (st2\<lparr>jn_readers := (jn_readers st2)(?p \<mapsto> rs)\<rparr>) ?p"
          using assms(2) quiet_live [OF q2] unfolding jn_opens_def by (intro conjI disjI2 exI [of _ rs]) simp_all
        from quiet_opens [OF q2 this] assms(1) vm ref r1 r2 Inr show ?thesis
          by (auto simp: jni_open_reader_def st_bind_def Let_def)
      qed
    qed
  qed
qed

text \<open>Every native call, by its effect on the boxes.\<close>

fun manages :: "'o native_call \<Rightarrow> bool" where
  "manages (CreateWriter _ _) \<longleftrightarrow> True"
| "manages (OpenReader _) \<longleftrightarrow> True"
| "manages (FreeWriter _) \<longleftrightarrow> True"
| "manages (FreeReader _) \<longleftrightarrow> True"
| "manages _ \<longleftrightarrow> False"

lemma map_sum_Inr: "map_sum id f b = Inr x \<longleftrightarrow> (\<exists>y. b = Inr y \<and> x = f y)"
  by (cases b) auto

lemma method_unopened: "native_method L c st = Some (st1, Inr x) \<Longrightarrow> \<not> manages c \<Longrightarrow> native_opened x = None"
  by (cases c) (auto simp: map_sum_Inr)

lemma method_touches:
  assumes "native_method L c st = Some (st1, r)" and "\<not> manages c"
  shows "jn_touches (native_handle c a) st st1"
proof (cases c)
  case (NativeAddDocument p row str)
  with assms show ?thesis by (auto dest: add_document_touches)
next
  case (NativeAddDocumentFields p row ns ts)
  with assms show ?thesis by (auto dest: add_fields_touches)
next
  case (NativeWriteIndex p out)
  with assms show ?thesis by (auto dest: write_index_touches)
next
  case (NativeSearch p q lmt)
  with assms show ?thesis by (auto dest: search_touches)
next
  case (NativeSearchRoaring p q lmt f)
  with assms show ?thesis by (auto dest: search_touches)
next
  case (NativePrewarm p)
  with assms show ?thesis by (auto dest: prewarm_touches)
next
  case (NativeReadMetrics p)
  with assms show ?thesis by (auto dest: metrics_touches)
qed (use assms(2) in simp_all)

lemma unmanaged_frames:
  assumes run: "native L c st = Some (st', a)" and "jn_inv st" and c: "\<not> manages c"
  shows "jn_frames (native_handle c a) (native_track c a (jn_live st)) st st' \<and> native_opened a = None"
proof -
  obtain st1 r where m: "native_method L c st = Some (st1, r)"
      and ret: "throw_and_return L (default_answer c) (st1, r) = (st', a)"
    using run by (auto simp: native_def)
  have "native_opened (default_answer c) = None" "native_track c a H = H" for H using c by (cases c; simp)+
  moreover from this ret method_unopened m c have "native_opened a = None"
    by (cases r) (auto simp: throw_and_return_def)
  moreover have "jn_frames (native_handle c a) (jn_live st) st st'"
    by (rule frames_returned [OF ret frames_touches [OF method_touches [OF m c] assms(2)]])
  ultimately show ?thesis by simp
qed

lemma frames_null: "jn_inv st \<Longrightarrow> jn_frames h (jn_live st - {0}) st st"
  by (simp add: jn_frames_def jn_inv_def jn_same_def)

lemma free_writer_frames:
  assumes "native L (FreeWriter p) st = Some (st', a)" and inv: "jn_inv st"
  shows "a = JVoid \<and> jn_frames p (jn_live st - {p}) st st'"
proof (cases "p = 0")
  case True
  with assms(1) have "st' = st" "a = JVoid" by (simp_all add: native_def throw_and_return_def)
  with True frames_null [OF inv] show ?thesis by simp
next
  case False
  with assms(1) obtain w where "jn_writers st p = Some w"
    by (cases "jn_writers st p") (simp_all add: native_def)
  moreover from this False assms(1) have "st' = st\<lparr>jn_writers := (jn_writers st)(p := None)\<rparr>" "a = JVoid"
    by (simp_all add: native_def throw_and_return_def)
  ultimately show ?thesis using frames_free_writer [OF inv] by simp
qed

lemma free_reader_frames:
  assumes "native L (FreeReader p) st = Some (st', a)" and inv: "jn_inv st"
  shows "a = JVoid \<and> jn_frames p (jn_live st - {p}) st st'"
proof (cases "p = 0")
  case True
  with assms(1) have "st' = st" "a = JVoid" by (simp_all add: native_def throw_and_return_def)
  with True frames_null [OF inv] show ?thesis by simp
next
  case False
  with assms(1) obtain rs where "jn_readers st p = Some rs"
    by (cases "jn_readers st p") (simp_all add: native_def)
  moreover from this False assms(1) have "st' = st\<lparr>jn_readers := (jn_readers st)(p := None)\<rparr>" "a = JVoid"
    by (simp_all add: native_def throw_and_return_def)
  ultimately show ?thesis using frames_free_reader [OF inv] by simp
qed

text \<open>An opening call returns null or a fresh handle.\<close>

lemma opening_frames:
  assumes "throw_and_return L (JLong 0) (st1, map_sum id JLong r) = (st', a)" and inv: "jn_inv st"
    and "(\<exists>e. r = Inl e \<and> jn_quiet st st1) \<or> (\<exists>p. r = Inr p \<and> jn_opens st st1 p)"
  shows "\<exists>p. a = JLong p \<and> jn_frames p (if p = 0 then jn_live st else insert p (jn_live st)) st st' \<and> (p = 0 \<or> p \<notin> jn_live st)"
  using assms(3)
proof (elim disjE exE conjE)
  fix e
  assume e: "r = Inl e" "jn_quiet st st1"
  have "jn_frames 0 (jn_live st) st st'" by (rule frames_returned [OF assms(1) frames_quiet [OF e(2) inv]])
  with assms(1) e(1) show ?thesis by (intro exI [of _ 0]) (auto simp: throw_and_return_def)
next
  fix p
  assume p: "r = Inr p" "jn_opens st st1 p"
  have "jn_frames p (insert p (jn_live st)) st st'" by (rule frames_returned [OF assms(1) frames_opens_native [OF p(2) inv]])
  with assms(1) p(1) opens_new [OF p(2)] show ?thesis by (auto simp: throw_and_return_def)
qed

lemma native_frames:
  assumes run: "native L c st = Some (st', a)" and inv: "jn_inv st"
    and alloc: "fe_alloc (jl_ffi L) (jn_live st) \<notin> insert 0 (jn_live st)"
  shows "jn_frames (native_handle c a) (native_track c a (jn_live st)) st st'
     \<and> (\<forall>p. native_opened a = Some p \<longrightarrow> p = 0 \<or> p \<notin> jn_live st)"
proof (cases c)
  case (CreateWriter ks vs)
  obtain st1 r where m: "jni_create_writer L ks vs st = (st1, r)" by fastforce
  have "throw_and_return L (JLong 0) (st1, map_sum id JLong r) = (st', a)"
    using run CreateWriter m by (simp add: native_def)
  from opening_frames [OF this inv create_writer_cases [OF m alloc]] CreateWriter show ?thesis by auto
next
  case (OpenReader inp)
  obtain st1 r where m: "jni_open_reader L inp st = (st1, r)" by fastforce
  have "throw_and_return L (JLong 0) (st1, map_sum id JLong r) = (st', a)"
    using run OpenReader m by (simp add: native_def)
  from opening_frames [OF this inv open_reader_cases [OF m alloc]] OpenReader show ?thesis by auto
next
  case (FreeWriter p)
  with free_writer_frames [of L p st st' a] run inv show ?thesis by simp
next
  case (FreeReader p)
  with free_reader_frames [of L p st st' a] run inv show ?thesis by simp
qed (use unmanaged_frames [OF run inv] in simp_all)

interpretation jni_store: handle_store "native L" jn_live jn_inv jn_same native_handle native_track native_opened
    "\<lambda>st. fe_alloc (jl_ffi L) (jn_live st) \<notin> insert 0 (jn_live st)" for L
proof
  fix c st st' a q
  assume step: "native L c st = Some (st', a)" "jn_inv st" "fe_alloc (jl_ffi L) (jn_live st) \<notin> insert 0 (jn_live st)"
  note fr = native_frames [OF step, unfolded jn_frames_def]
  show "jn_inv st'" "jn_live st' = native_track c a (jn_live st)" "q \<noteq> native_handle c a \<Longrightarrow> jn_same q st st'"
    using fr by simp_all
next
  fix c st st' a p
  assume run: "native L c st = Some (st', a)" and inv: "jn_inv st" and alloc: "fe_alloc (jl_ffi L) (jn_live st) \<notin> insert 0 (jn_live st)"
    and p: "native_opened a = Some p"
  show "p = 0 \<or> p \<notin> jn_live st" using native_frames [OF run inv alloc] p by blast
next
  fix c a L
  show "native_track c a L \<subseteq> L \<or> (\<exists>p. native_track c a L = insert p L)"
    by (cases "(c, a, L)" rule: native_track.cases) auto
qed (simp_all add: jn_same_def)

section \<open>A small machine\<close>

text \<open>
  A machine with byte arrays, arrays of longs and floats, strings, result objects, one output
  stream and the exceptions thrown so far. References are indices, a reference to nothing reads
  as an empty array, and no array is longer than an \<^verbatim>\<open>int\<close> can say.
\<close>

record machine =
  mc_out :: bytes
  mc_bytes :: "bytes list"
  mc_longs :: "i64 list list"
  mc_floats :: "f32 list list"
  mc_results :: "(i64 list \<times> f32 list) list"
  mc_strings :: "string list"
  mc_thrown :: "string list"

definition max_array :: nat where
  "max_array = 2147483647"

definition elem :: "'a list list \<Rightarrow> nat \<Rightarrow> 'a list" where
  "elem xss i = (if i < length xss then take max_array (xss ! i) else [])"

definition overwrite :: "nat \<Rightarrow> 'a list \<Rightarrow> 'a list list \<Rightarrow> 'a list list" where
  "overwrite i xs xss = xss[i := xs @ drop (length xs) (elem xss i)]"

lemma elem_append [simp]: "elem (xss @ [xs]) (length xss) = take max_array xs"
  by (simp add: elem_def)

lemma elem_overwrite:
  assumes "length xs \<le> length (elem xss i)"
  shows "elem (overwrite i xs xss) i = xs @ drop (length xs) (elem xss i)"
proof (cases "i < length xss")
  case True
  have "length (elem xss i) \<le> max_array" by (simp add: elem_def)
  with assms True show ?thesis by (simp add: elem_def overwrite_def)
qed (use assms in \<open>simp add: elem_def overwrite_def\<close>)

lemma length_elem: "length (elem xss i) < 2 ^ 31"
  by (simp add: elem_def max_array_def min_less_iff_disj)

lemma nat_sint_i32: "nat (sint (n :: i32)) \<le> max_array"
  using sint_lt [of n] by (simp add: max_array_def)

definition mc_fail :: "('s, message, 'a) st_res" where
  "mc_fail = st_lift (Inl [Lit ''Java exception was thrown''])"

definition machine_new_bytes :: "i32 \<Rightarrow> (machine, message, nat) st_res" where
  "machine_new_bytes n s = (if sint n < 0 then mc_fail s
     else (s\<lparr>mc_bytes := mc_bytes s @ [replicate (nat (sint n)) 0]\<rparr>, Inr (length (mc_bytes s))))"

definition machine_set_region :: "nat \<Rightarrow> i32 \<Rightarrow> bytes \<Rightarrow> (machine, message, unit) st_res" where
  "machine_set_region a start xs s =
     (if start = 0 \<and> length xs \<le> length (elem (mc_bytes s) a)
      then (s\<lparr>mc_bytes := overwrite a xs (mc_bytes s)\<rparr>, Inr ()) else mc_fail s)"

definition machine_write :: "nat \<Rightarrow> i32 \<Rightarrow> i32 \<Rightarrow> (machine, message, unit) st_res" where
  "machine_write a start n s =
     (if start = 0 \<and> 0 \<le> sint n \<and> nat (sint n) \<le> length (elem (mc_bytes s) a)
      then (s\<lparr>mc_out := mc_out s @ take (nat (sint n)) (elem (mc_bytes s) a)\<rparr>, Inr ()) else mc_fail s)"

definition machine_pread :: "bytes \<Rightarrow> i64 \<Rightarrow> nat \<Rightarrow> i32 \<Rightarrow> i32 \<Rightarrow> (machine, message, unit) st_res" where
  "machine_pread content pos a start n s =
     (if start = 0 \<and> 0 \<le> sint pos \<and> 0 \<le> sint n \<and> nat (sint n) \<le> length (elem (mc_bytes s) a)
         \<and> nat (sint pos) + nat (sint n) \<le> length content
      then (s\<lparr>mc_bytes := overwrite a (take (nat (sint n)) (drop (nat (sint pos)) content)) (mc_bytes s)\<rparr>, Inr ())
      else mc_fail s)"

definition machine_io :: "bytes \<Rightarrow> (machine, nat) java_io" where
  "machine_io content = \<lparr>ji_attach = st_lift (Inr ()), ji_new_byte_array = machine_new_bytes,
     ji_set_region = machine_set_region,
     ji_get_length = (\<lambda>a s. (s, Inr (of_nat (length (elem (mc_bytes s) a))))),
     ji_get_region = (\<lambda>a start k s. if start = 0 \<and> k \<le> length (elem (mc_bytes s) a)
        then (s, Inr (take k (elem (mc_bytes s) a))) else mc_fail s),
     ji_call_write = machine_write, ji_call_flush = st_lift (Inr ()), ji_call_pread = machine_pread content\<rparr>"

abbreviation mc_array :: "machine \<Rightarrow> nat \<Rightarrow> bytes" where
  "mc_array s \<equiv> elem (mc_bytes s)"

lemmas machine_simps = machine_io_def machine_new_bytes_def machine_set_region_def machine_write_def machine_pread_def
  mc_fail_def st_lift_def

interpretation mc_out: total_java_stream "machine_io content" mc_out mc_array for content
  by unfold_locales
    (auto simp: machine_simps elem_overwrite nat_sint_i32 min_absorb1 intro: exI [of _ 0] split: if_splits)

interpretation mc_in: total_java_source "machine_io content" content mc_array for content
  by unfold_locales
    (auto simp: machine_simps elem_overwrite nat_sint_i32 min_absorb1 sint_of_nat_small [OF length_elem] split: if_splits)

definition machine_env :: "(machine, nat) jni_env" where
  "machine_env = \<lparr>
     je_array_length = (\<lambda>_. st_lift (Inr 0)), je_element = (\<lambda>_ _. mc_fail),
     je_string = (\<lambda>a s. if a < length (mc_strings s) then (s, Inr (mc_strings s ! a)) else mc_fail s),
     je_is_null = (\<lambda>a. a = 99), je_convert_bytes = (\<lambda>a s. (s, Inr (elem (mc_bytes s) a))),
     je_java_vm = st_lift (Inr ()), je_global_ref = (\<lambda>a. st_lift (Inr a)),
     je_new_longs = (\<lambda>n s. if sint n < 0 then mc_fail s
        else (s\<lparr>mc_longs := mc_longs s @ [replicate (nat (sint n)) 0]\<rparr>, Inr (length (mc_longs s)))),
     je_set_longs = (\<lambda>a start xs s. if start = 0 \<and> length xs \<le> length (elem (mc_longs s) a)
        then (s\<lparr>mc_longs := overwrite a xs (mc_longs s)\<rparr>, Inr ()) else mc_fail s),
     je_new_floats = (\<lambda>n s. if sint n < 0 then mc_fail s
        else (s\<lparr>mc_floats := mc_floats s @ [replicate (nat (sint n)) f32_zero]\<rparr>, Inr (length (mc_floats s)))),
     je_set_floats = (\<lambda>a start xs s. if start = 0 \<and> length xs \<le> length (elem (mc_floats s) a)
        then (s\<lparr>mc_floats := overwrite a xs (mc_floats s)\<rparr>, Inr ()) else mc_fail s),
     je_new_result = (\<lambda>a b s. (s\<lparr>mc_results := mc_results s @ [(elem (mc_longs s) a, elem (mc_floats s) b)]\<rparr>,
        Inr (length (mc_results s)))),
     je_new_metrics = (\<lambda>_. st_lift (Inr 0)),
     je_throw = (\<lambda>m s. s\<lparr>mc_thrown := mc_thrown s @ [m]\<rparr>),
     je_output = (\<lambda>_. machine_io [])\<rparr>"

definition mc_result :: "machine \<Rightarrow> nat \<Rightarrow> i64 list \<times> f32 list" where
  "mc_result s r = (if r < length (mc_results s) then mc_results s ! r else ([], []))"

interpretation mc_res: total_java_results machine_env "\<lambda>s. elem (mc_longs s)" "\<lambda>s. elem (mc_floats s)" mc_result
  by unfold_locales
    (auto simp: machine_env_def mc_fail_def st_lift_def elem_overwrite nat_sint_i32 min_absorb1 mc_result_def split: if_splits)

section \<open>Properties of the Java interface\<close>

context total_java_stream
begin

lemmas java_envelope = envelope_written

lemma java_total_writer: "total_seek_writer (java_output V) written"
  by unfold_locales

end

text \<open>
  Streaming an archive into a Java output stream: over a machine that creates arrays, fills
  regions that fit and writes what it is asked to, every archive (whatever its size) is written
  completely and byte for byte, although lengths are cut to Java's \<^verbatim>\<open>int\<close>; the buffers of the
  writer never reach the length at which the cast would lose a bit.
\<close>

theorem java_archive_written:
  assumes "total_java_stream V written arr"
    and "jt_print J (header_to_json h) = Inr json" and "length json \<le> MAX_HEADER_BYTES"
    and "list_all2 (\<lambda>e d. length d = unat (entry_length e)) (hdr_files h) ds"
    and "list_all2 (\<lambda>p d. open_file p = Inr d) paths ds"
  shows "\<exists>s'. write_envelope_from_paths J open_file (java_output V) h paths s = (s', Inr ())
     \<and> written s' = written s @ envelope_prefix json @ concat ds"
  by (rule total_java_stream.java_envelope [OF assms])

text \<open>
  C33. Reading through a Java input object: over a machine that does not fail, a batch of ranges is
  read exactly when every range lies in the file and can be named in Java (the position is below
  2^63 and the length below 2^31), and then the result is the bytes of each range in order.
\<close>

theorem java_pread_iff:
  assumes "total_java_source V content arr"
  shows "snd (java_pread V rqs s) = Inr bufs \<longleftrightarrow>
     list_all (\<lambda>rq. request_within content rq \<and> unat (req_pos rq) < 2 ^ 63 \<and> unat (req_len rq) < 2 ^ 31) rqs
     \<and> bufs = map (request_bytes content) rqs"
  using total_java_source.pread_iff [OF assms] by (simp add: representable_def conj_assoc)

text \<open>
  C34. The handles of the Java interface, over any sequence of native calls that is defined and not
  longer than the address space, with an allocator that gives fresh addresses: the live handles
  are exactly those opened and not freed, zero is never one of them, no address is both a writer
  and a reader, an opened handle was not live before, and the object behind a handle that no call
  named is unchanged.
\<close>

theorem jni_handles_isolated:
  assumes "\<And>H. insert 0 H \<noteq> UNIV \<Longrightarrow> fe_alloc (jl_ffi L) H \<notin> insert 0 H"
    and "run_calls (native L) cs st = Some (st', as)" and "jn_inv st" and "card (jn_live st) + length cs < 2 ^ 64"
  shows "jn_inv st' \<and> jn_live st' = tracked native_track (zip cs as) (jn_live st)
     \<and> fresh_handles native_track native_opened (zip cs as) (jn_live st)
     \<and> (\<forall>q. (\<forall>(c, a) \<in> set (zip cs as). native_handle c a \<noteq> q) \<longrightarrow> jn_same q st st')"
  using jni_store.run_isolated [OF assms(1) assms(2-4)] by blast

lemma unat_limit:
  assumes "0 < sint (n :: i32)"
  shows "unat (scast n :: usize) = nat (sint n)"
proof -
  have "scast n = (of_nat (nat (sint n)) :: usize)" using assms by (intro scast_length) simp
  moreover have "nat (sint n) < 2 ^ 64" using sint_lt [of n] by simp
  ultimately show ?thesis by (simp add: unat_of_nat_u64)
qed

lemma collect_rows_length: "collect_rows B sc field hits d = (d', Inr rows) \<Longrightarrow> length rows = length hits"
  by (induction hits arbitrary: d rows) (auto simp: res_simps)

lemma search_bounded:
  assumes "search J B q n rs = (rs', Inr res)"
    and hits: "\<And>sc t g n d d' hits. ra_search B sc t g n d = (d', Inr hits) \<Longrightarrow> length hits \<le> unat n"
  shows "length (sr_row_ids res) \<le> unat n \<and> length (sr_scores res) \<le> unat n"
proof -
  obtain rd d where rs: "rs = (rd, d)" by fastforce
  from search_Inr [of J B q n None rd d rs' res] assms(1) rs obtain sc tq d1 d2 d3 hs rows g where
    "ra_search B sc tq g n d1 = (d2, Inr hs)" "collect_rows B sc (row_id_field (config (rd_metadata rd))) hs d2 = (d3, Inr rows)"
    "res = \<lparr>sr_row_ids = map fst rows, sr_scores = map snd rows\<rparr>"
    by (auto simp: search_def)
  with hits [of sc tq g n d1 d2 hs] collect_rows_length show ?thesis by fastforce
qed

text \<open>
  C18. A search from Java on a live reader with a readable query: a limit that is not positive is
  refused before the reader is asked, an error of the reader is thrown with its text, and every
  result of the reader reaches Java whole, as an object with exactly its row ids and scores, no
  more than the limit; no length is lost in the conversion to \<^verbatim>\<open>int\<close>. This rests on tantivy
  returning no more hits than asked and on a machine that can create the arrays.
\<close>

theorem jni_search_delivers:
  assumes env: "total_java_results (jl_env L) longs floats result_of"
    and rs: "jn_readers st p = Some rs" "p \<noteq> 0" and query: "je_string (jl_env L) query (jn_vm st) = (j, Inr q)"
    and hits: "\<And>sc t g n d d' hits. ra_search (fe_reader_api (jl_ffi L)) sc t g n d = (d', Inr hits) \<Longrightarrow> length hits \<le> unat n"
    and run: "search (fe_json (jl_ffi L)) (fe_reader_api (jl_ffi L)) (map of_char q) (scast lmt) rs = (rs', r)"
  shows "(sint lmt \<le> 0 \<longrightarrow> native L (NativeSearch p query lmt) st
         = Some (throw L [Lit ''search limit must be positive''] (st\<lparr>jn_vm := j\<rparr>), JObject None))
     \<and> (0 < sint lmt \<longrightarrow> (\<forall>e. r = Inl e \<longrightarrow> native L (NativeSearch p query lmt) st
         = Some (throw L (error_message (fe_tantivy_message (jl_ffi L)) e)
             (st\<lparr>jn_vm := j, jn_readers := (jn_readers st)(p \<mapsto> rs')\<rparr>), JObject None)))
     \<and> (0 < sint lmt \<longrightarrow> (\<forall>res. r = Inr res \<longrightarrow> (\<exists>st' obj. native L (NativeSearch p query lmt) st = Some (st', JObject (Some obj))
         \<and> result_of (jn_vm st') obj = (sr_row_ids res, sr_scores res) \<and> length (sr_row_ids res) \<le> nat (sint lmt)
         \<and> jn_readers st' = (jn_readers st)(p \<mapsto> rs') \<and> jn_writers st' = jn_writers st)))"
proof (intro conjI impI allI)
  assume "sint lmt \<le> 0"
  with rs query show "native L (NativeSearch p query lmt) st
      = Some (throw L [Lit ''search limit must be positive''] (st\<lparr>jn_vm := j\<rparr>), JObject None)"
    by (simp add: native_def throw_and_return_def jni_search_def with_handle_def in_env_def st_bind_def st_map_err_def
        st_lift_def validate_search_limit_def)
next
  fix e
  assume "0 < sint lmt" "r = Inl e"
  with rs query run show "native L (NativeSearch p query lmt) st
      = Some (throw L (error_message (fe_tantivy_message (jl_ffi L)) e) (st\<lparr>jn_vm := j, jn_readers := (jn_readers st)(p \<mapsto> rs')\<rparr>), JObject None)"
    by (simp add: native_def throw_and_return_def jni_search_def with_handle_def in_env_def st_bind_def st_map_err_def
        st_lift_def validate_search_limit_def on_box_reader_def to_text_def)
next
  fix res
  assume pos: "0 < sint lmt" and res: "r = Inr res"
  have len: "length (sr_row_ids res) \<le> nat (sint lmt)" "length (sr_scores res) \<le> nat (sint lmt)"
    using search_bounded [OF run [unfolded res] hits] unat_limit [OF pos] by auto
  moreover have "nat (sint lmt) < 2 ^ 31" using sint_lt [of lmt] by simp
  ultimately obtain j' obj where obj: "new_search_result (jl_env L) res j = (j', Inr obj)"
      "result_of j' obj = (sr_row_ids res, sr_scores res)"
    using total_java_results.result_total [OF env, of res j] by auto
  from rs query run pos res obj have "native L (NativeSearch p query lmt) st
      = Some (st\<lparr>jn_vm := j', jn_readers := (jn_readers st)(p \<mapsto> rs')\<rparr>, JObject (Some obj))"
    by (simp add: native_def throw_and_return_def jni_search_def with_handle_def in_env_def st_bind_def st_map_err_def
        st_lift_def validate_search_limit_def on_box_reader_def to_text_def)
  with len obj(2) show "\<exists>st' obj. native L (NativeSearch p query lmt) st = Some (st', JObject (Some obj))
      \<and> result_of (jn_vm st') obj = (sr_row_ids res, sr_scores res) \<and> length (sr_row_ids res) \<le> nat (sint lmt)
      \<and> jn_readers st' = (jn_readers st)(p \<mapsto> rs') \<and> jn_writers st' = jn_writers st"
    by simp
qed

section \<open>The library on the small machine\<close>

definition empty_machine :: machine where
  "empty_machine = \<lparr>mc_out = [], mc_bytes = [], mc_longs = [], mc_floats = [], mc_results = [],
     mc_strings = [''rust''], mc_thrown = []\<rparr>"

definition example_jni :: "(nat document list, nat, unit, unit, unit, unit, unit, unit, string, machine, nat) jni_lib" where
  "example_jni = \<lparr>jl_ffi = example_ffi, jl_env = machine_env,
     jl_input = (\<lambda>_. \<lparr>ji_attach = st_lift (Inr ()), ji_new_byte_array = (\<lambda>_. mc_fail), ji_set_region = (\<lambda>_ _ _. mc_fail),
       ji_get_length = (\<lambda>_. mc_fail), ji_get_region = (\<lambda>_ _ _. mc_fail), ji_call_write = (\<lambda>_ _ _. mc_fail),
       ji_call_flush = mc_fail, ji_call_pread = (\<lambda>_ _ _ _. mc_fail)\<rparr>),
     jl_input_state = (\<lambda>_. ())\<rparr>"

definition example_jni_state :: "(nat document list, nat, unit, unit, unit, unit, machine) jni_state" where
  "example_jni_state = \<lparr>jn_writers = [9 \<mapsto> example_writer 0 True],
     jn_readers = [7 \<mapsto> (example_reader, new_cache (default_io ()))], jn_world = [], jn_vm = empty_machine\<rparr>"

theorem java_archive_written_witness:
  "\<exists>s'. write_envelope_from_paths example_text_codec example_disk (java_output (machine_io [])) example_header
       [''t/meta.json'', ''t/seg.fast'', ''t/seg.idx''] empty_machine = (s', Inr ())
     \<and> mc_out s' = envelope_prefix example_header_text @ [123, 32, 125, 7, 8]"
proof -
  have "\<exists>s'. write_envelope_from_paths example_text_codec example_disk (java_output (machine_io [])) example_header
       [''t/meta.json'', ''t/seg.fast'', ''t/seg.idx''] empty_machine = (s', Inr ())
     \<and> mc_out s' = mc_out empty_machine @ envelope_prefix example_header_text @ concat [[123, 32, 125], [], [7, 8]]"
    by (rule java_archive_written [OF mc_out.total_java_stream_axioms])
      (simp_all add: example_text_codec_def example_header_def example_disk_def example_header_text_def MAX_HEADER_BYTES_def)
  then show ?thesis by (simp add: empty_machine_def)
qed

theorem java_pread_iff_witness:
  "snd (java_pread (machine_io [5, 6, 7]) [read_req 1 2, read_req 0 1] empty_machine) = Inr [[6, 7], [5]]
   \<and> snd (java_pread (machine_io [5, 6, 7]) [read_req 2 2] empty_machine) \<noteq> Inr [[7]]"
  using java_pread_iff [OF mc_in.total_java_source_axioms, of "[5, 6, 7]" "[read_req 1 2, read_req 0 1]" empty_machine "[[6, 7], [5]]"]
    java_pread_iff [OF mc_in.total_java_source_axioms, of "[5, 6, 7]" "[read_req 2 2]" empty_machine "[[7]]"]
  by (simp add: request_within_def request_bytes_def subslice_def)

lemma example_create_writer:
  "native example_jni (CreateWriter 0 0) example_jni_state
     = Some (example_jni_state\<lparr>jn_writers := (jn_writers example_jni_state)
           (next_free (jn_live example_jni_state) \<mapsto> example_writer 0 True)\<rparr>,
         JLong (next_free (jn_live example_jni_state)))"
proof -
  have "options_from_arrays machine_env 0 0 m = (m, Inr [])" for m
    by (simp add: options_from_arrays_def machine_env_def array_indices_def st_bind_def st_lift_def)
  then show ?thesis
    by (simp add: native_def throw_and_return_def jni_create_writer_def in_env_def st_bind_def st_lift_def to_text_def
        example_jni_def example_ffi_def example_no_options example_jni_state_def example_writer_new Let_def)
qed

lemma example_jni_live: "jn_live example_jni_state = {7, 9}" "jn_inv example_jni_state"
  by (auto simp: jn_live_def example_jni_state_def jn_inv_def)

lemma closed_writer:
  "native L (NativeAddDocument 0 row str) st = Some (throw L [ArgStr ''writer'', Lit '' is closed''] st, JVoid)"
  by (simp add: native_def jni_add_document_def with_handle_def throw_and_return_def)

theorem jni_handles_isolated_witness:
  "\<exists>st' p. run_calls (native example_jni) [CreateWriter 0 0, NativeAddDocument 0 5 0, FreeWriter p] example_jni_state
       = Some (st', [JLong p, JVoid, JVoid])
     \<and> p \<notin> {0, 7, 9} \<and> jn_live st' = {7, 9} \<and> jn_same 7 example_jni_state st'"
proof -
  let ?p = "next_free (jn_live example_jni_state)"
  have alloc: "fe_alloc (jl_ffi example_jni) H \<notin> insert 0 H" if "insert 0 H \<noteq> UNIV" for H
    using next_free_fresh [OF that] by (simp add: example_jni_def)
  have "insert 0 (jn_live example_jni_state) \<noteq> UNIV" by (rule room_left) (simp add: example_jni_live)
  then have p: "?p \<notin> {0, 7, 9}" using next_free_fresh [of "jn_live example_jni_state"] example_jni_live(1) by auto
  then obtain st' where free: "native example_jni (FreeWriter ?p) (throw example_jni [ArgStr ''writer'', Lit '' is closed'']
      (example_jni_state\<lparr>jn_writers := (jn_writers example_jni_state)(?p \<mapsto> example_writer 0 True)\<rparr>)) = Some (st', JVoid)"
    by (auto simp: native_def throw_and_return_def throw_def)
  have run: "run_calls (native example_jni) [CreateWriter 0 0, NativeAddDocument 0 5 0, FreeWriter ?p] example_jni_state
      = Some (st', [JLong ?p, JVoid, JVoid])"
    by (simp add: example_create_writer closed_writer free)
  have "card (jn_live example_jni_state) + length [CreateWriter (0 :: nat) 0, NativeAddDocument 0 5 0, FreeWriter ?p] < 2 ^ 64"
    by (simp add: example_jni_live)
  from jni_handles_isolated [OF alloc run example_jni_live(2) this] p run show ?thesis
    by (intro exI [of _ st'] exI [of _ ?p]) (auto simp: example_jni_live(1))
qed

lemma example_core_search:
  "\<exists>rs' res. search example_query_codec example_reader_api (map of_char ''rust'') 2 (example_reader, d) = (rs', Inr res)
     \<and> sr_row_ids res = [14, 12]"
proof -
  obtain t where t: "build_query example_index example_config (QMatch (Some ''title'') ''rust'' OpOr f32_one (Some 0) 50 0) = Inr t"
    using example_built by blast
  have json: "from_json example_query_codec (map of_char ''rust'')
      = Inr (QMatch (Some ''title'') ''rust'' OpOr f32_one (Some 0) 50 0)"
    by (simp add: from_json_def example_query_codec_def minimal_match)
  show ?thesis
    by (simp add: search_def search_with_filter_def st_bind_def searcher_def
        example_reader_def example_reader_api_def json [simplified] t
        collect_result_def st_map_err_def example_hits_def example_row_def del: build_query.simps)
qed

theorem jni_search_delivers_witness:
  "\<exists>st' obj scores. native example_jni (NativeSearch 7 0 2) example_jni_state = Some (st', JObject (Some obj))
     \<and> mc_result (jn_vm st') obj = ([14, 12], scores)"
proof -
  have rs: "jn_readers example_jni_state 7 = Some (example_reader, new_cache (default_io ()))" by (simp add: example_jni_state_def)
  have query: "je_string (jl_env example_jni) 0 (jn_vm example_jni_state) = (empty_machine, Inr ''rust'')"
    by (simp add: example_jni_def machine_env_def example_jni_state_def empty_machine_def)
  have env: "total_java_results (jl_env example_jni) (\<lambda>s. elem (mc_longs s)) (\<lambda>s. elem (mc_floats s)) mc_result"
    using mc_res.total_java_results_axioms by (simp add: example_jni_def)
  have hits: "length hits \<le> unat n"
    if "ra_search (fe_reader_api (jl_ffi example_jni)) sc t g n d = (d', Inr hits)" for sc t g n d d' hits
    using that example_search_contract [of sc t g n d d' hits] by (simp add: example_jni_def example_ffi_def)
  have pos: "0 < sint (2 :: i32)" and two: "(scast (2 :: i32) :: usize) = 2" by simp_all
  have lib: "fe_json (jl_ffi example_jni) = example_query_codec" "fe_reader_api (jl_ffi example_jni) = example_reader_api"
    by (simp_all add: example_jni_def example_ffi_def)
  obtain rs' res where run: "search (fe_json (jl_ffi example_jni)) (fe_reader_api (jl_ffi example_jni)) (map of_char ''rust'')
      (scast (2 :: i32)) (example_reader, new_cache (default_io ())) = (rs', Inr res)" "sr_row_ids res = [14, 12]"
    using example_core_search [of "new_cache (default_io ())"] unfolding two lib by blast
  from jni_search_delivers [OF env rs _ query hits run(1)] pos run(2) show ?thesis by fastforce
qed

end
