(* ===== verification/IndexChain.thy ===== *)
theory IndexChain
  imports Reader
begin

text \<open>
  From the writer to the reader: what is relied upon when an index is streamed by
  \<^verbatim>\<open>FullTextIndexWriter::write\<close> and opened again by \<^verbatim>\<open>FullTextIndexReader::open\<close>, and the two
  halves of the chain, for any output and any input that keep their contracts. The core library,
  the C interface and the Java interface each instantiate them.
\<close>

section \<open>What the chain relies on\<close>

text \<open>
  The files in the temporary directory after the commit: \<open>fs\<close> with the contents \<open>ds\<close>, not empty,
  with plain and pairwise different names and the announced lengths; their entries \<open>es\<close>; and the
  printed header, within its limit. The whole archive is addressable.
\<close>

definition index_ready ::
  "json_text \<Rightarrow> ('e, 'f, 'x, 'w) writer_api \<Rightarrow> ('f, 'w) full_text_index_writer \<Rightarrow> 'e \<Rightarrow> string
     \<Rightarrow> index_file list \<Rightarrow> bytes list \<Rightarrow> archive_file_entry list \<Rightarrow> bytes \<Rightarrow> bool" where
  "index_ready J A w e dir fs ds es json \<longleftrightarrow>
     collect_index_files (wa_fs A e) dir = Inr fs \<and> fs \<noteq> []
     \<and> list_all2 (\<lambda>f d. wa_open_file A e (if_path f) = Inr d \<and> length d = unat (if_length f)) fs ds
     \<and> (\<forall>f \<in> set fs. validate_archive_file_name (if_name f) = Inr ()) \<and> distinct (map (components \<circ> if_name) fs)
     \<and> archive_entries 0 fs = Inr es
     \<and> jt_print J (header_to_json (archive_header (wa_version A) w es)) = Inr json
     \<and> length json \<le> MAX_HEADER_BYTES \<and> 16 + length json + length (concat ds) < 2 ^ 64"

text \<open>
  The libraries on the reading side: serde_json parses what it printed, the runtime has the
  version that wrote the index, and tantivy opens a directory that serves the files it committed.
\<close>

definition readable_by ::
  "json_text \<Rightarrow> ('e, 'f, 'x, 'w) writer_api \<Rightarrow> ('i, 'y, 'r, 's, 'g, 'q) reader_api \<Rightarrow> ('f, 'w) full_text_index_writer
     \<Rightarrow> index_file list \<Rightarrow> bytes list \<Rightarrow> archive_file_entry list \<Rightarrow> bytes \<Rightarrow> bool" where
  "readable_by J A B w fs ds es json \<longleftrightarrow>
     jt_parse J json = Inr (header_to_json (archive_header (wa_version A) w es))
     \<and> \<not> is_blank (wa_version A) \<and> ra_version B = wa_version A
     \<and> (\<forall>R files d. serves_files R files d (zip (map if_name fs) ds) \<longrightarrow> (\<exists>d' x. ra_open B R files d = (d', Inr x)))"

section \<open>The two halves\<close>

lemma distinct_components:
  "distinct (map (components \<circ> f) xs) \<Longrightarrow> distinct (map f xs)"
  by (auto simp: distinct_map inj_on_def)

lemma ready_layout:
  assumes "index_ready J A w e dir fs ds es json"
  shows "map entry_name es = map if_name fs" and "contiguous 0 es"
    and "list_all2 (\<lambda>e d. length d = unat (entry_length e)) es ds"
    and "list_all2 (\<lambda>p d. wa_open_file A e p = Inr d) (map if_path fs) ds"
proof -
  have "archive_entries 0 fs = Inr es" using assms by (simp add: index_ready_def)
  note layout = archive_entries_Inr [OF this]
  show "map entry_name es = map if_name fs" "contiguous 0 es" using layout by simp_all
  have lengths: "map entry_length es = map if_length fs" using layout by simp
  have files: "list_all2 (\<lambda>f d. wa_open_file A e (if_path f) = Inr d \<and> length d = unat (if_length f)) fs ds"
    using assms by (simp add: index_ready_def)
  then show "list_all2 (\<lambda>e d. length d = unat (entry_length e)) es ds"
    using lengths by (auto simp: list_all2_conv_all_nth dest: map_eq_imp_length_eq) (metis nth_map map_eq_imp_length_eq)
  show "list_all2 (\<lambda>p d. wa_open_file A e p = Inr d) (map if_path fs) ds"
    using files by (simp add: list_all2_map1) (metis (mono_tags, lifting) list_all2_mono)
qed

lemma ready_valid:
  assumes "index_ready J A w e dir fs ds es json" and "validate_config (fw_config w) = Inr ()" and "\<not> is_blank (wa_version A)"
  shows "validate_header (archive_header (wa_version A) w es) = Inr ()"
proof (rule validate_header_contiguous)
  note names = ready_layout(1) [OF assms(1)]
  have fs: "fs \<noteq> []" "\<forall>f \<in> set fs. validate_archive_file_name (if_name f) = Inr ()" "distinct (map (components \<circ> if_name) fs)"
    using assms(1) by (simp_all add: index_ready_def)
  show "hdr_files (archive_header (wa_version A) w es) \<noteq> []" using fs(1) names by (auto simp: archive_header_def)
  have "entry_name ` set es = if_name ` set fs" using names by (metis list.set_map)
  then show "\<forall>e \<in> set (hdr_files (archive_header (wa_version A) w es)). validate_archive_file_name (entry_name e) = Inr ()"
    using fs(2) by (force simp: archive_header_def)
  show "distinct (map entry_name (hdr_files (archive_header (wa_version A) w es)))"
    using distinct_components [OF fs(3)] names by (simp add: archive_header_def)
qed (use assms ready_layout(2) [OF assms(1)] in \<open>simp_all add: archive_header_def\<close>)

lemma chain_write:
  assumes "total_seek_writer W written" and "fw_state w = Some st"
    and commit: "st_bind (wa_commit A (ws_index_writer st)) (\<lambda>_. wa_wait_merging_threads A (ws_index_writer st)) e1
          = (e2, Inr ())"
    and ready: "index_ready J A w e2 (ws_temp_dir st) fs ds es json"
  shows "\<exists>out'. writer_write J A W (w, e1, out) = ((w\<lparr>fw_state := None\<rparr>, e2, out'), Inr ())
     \<and> written out' = written out @ envelope_prefix json @ concat ds"
proof -
  let ?h = "archive_header (wa_version A) w es"
  have json: "jt_print J (header_to_json ?h) = Inr json" "length json \<le> MAX_HEADER_BYTES"
    and files: "collect_index_files (wa_fs A e2) (ws_temp_dir st) = Inr fs" "archive_entries 0 fs = Inr es"
    using ready by (simp_all add: index_ready_def)
  have len: "list_all2 (\<lambda>e d. length d = unat (entry_length e)) (hdr_files ?h) ds"
    using ready_layout(3) [OF ready] by (simp add: archive_header_def)
  obtain out' where out': "write_envelope_from_paths J (wa_open_file A e2) W ?h (map if_path fs) out = (out', Inr ())"
      "written out' = written out @ envelope_prefix json @ concat ds"
    using total_seek_writer.envelope_written [OF assms(1) json len ready_layout(4) [OF ready]] by blast
  have "stream_archive J A W (w\<lparr>fw_state := None\<rparr>) (ws_temp_dir st) e2 out = (out', Inr ())"
    using out'(1) files by (simp add: stream_archive_def archive_header_def)
  with commit assms(2) out'(2) show ?thesis by (auto simp: writer_write_def)
qed

lemma chain_open:
  assumes "total_seek_read inner (envelope_prefix json @ concat ds)"
    and config: "validate_config (fw_config w) = Inr ()"
    and registered: "\<exists>registry. register_tokenizer E Map.empty (tokenizer (fw_config w)) = Inr registry"
    and ready: "index_ready J A w e dir fs ds es json" and readable: "readable_by J A B w fs ds es json"
  shows "\<exists>rd d. reader_open J B E inner i = Inr (rd, d)
     \<and> rd_metadata rd = \<lparr>config = fw_config w, document_count = fw_document_count w, tantivy_version = wa_version A\<rparr>
     \<and> fresh_reader B E (metered_pread inner) (zip (map if_name fs) ds) (rd_metadata rd) rd d"
proof -
  let ?h = "archive_header (wa_version A) w es"
  note layout = ready_layout [OF ready]
  have parse: "jt_parse J json = Inr (header_to_json ?h)" and version: "\<not> is_blank (wa_version A)" "ra_version B = wa_version A"
    and opens: "\<And>R files d. serves_files R files d (zip (map if_name fs) ds) \<Longrightarrow> \<exists>d' x. ra_open B R files d = (d', Inr x)"
    using readable by (simp_all add: readable_by_def)
  have "length json \<le> MAX_HEADER_BYTES" "16 + length json + length (concat ds) < 2 ^ 64"
      "distinct (map (components \<circ> if_name) fs)"
    using ready by (simp_all add: index_ready_def)
  moreover from this(3) have "distinct (map (components \<circ> entry_name) es)" using layout(1) by (metis map_map)
  ultimately obtain rd d where "reader_open J B E inner i = Inr (rd, d)"
      "fresh_reader B E (metered_pread inner) (zip (map if_name fs) ds) (hdr_metadata ?h) rd d"
    using opens_envelope [OF assms(1) parse _ ready_valid [OF ready config version(1)], of B E i] layout registered version opens
    by (auto simp: archive_header_def)
  moreover from this(2) have "rd_metadata rd = hdr_metadata ?h" by (simp add: fresh_reader_def)
  ultimately show ?thesis by (auto simp: archive_header_def)
qed

text \<open>What a new writer and a run of it contribute.\<close>

lemma chain_writer:
  assumes "writer_new A E c e = (e0, Inr w0)" and "writer_run J A W (w0, e0, out0) tr (w, e1, out1)"
  shows "fw_config w = c" and "validate_config (fw_config w) = Inr ()"
    and "\<exists>registry. register_tokenizer E Map.empty (tokenizer (fw_config w)) = Inr registry"
    and "unat (fw_document_count w) = length (filter (\<lambda>(op, r). op \<noteq> OpWrite \<and> r = Inr ()) tr)"
proof -
  note frame = run_frame [OF assms(2)] and w0 = writer_new_Inr [OF assms(1)]
  show c: "fw_config w = c" and "validate_config (fw_config w) = Inr ()" using frame w0 by (auto simp: writer_wf_def)
  show "\<exists>registry. register_tokenizer E Map.empty (tokenizer (fw_config w)) = Inr registry"
    using assms(1) c by (auto simp: writer_new_def Let_def res_simps)
  show "unat (fw_document_count w) = length (filter (\<lambda>(op, r). op \<noteq> OpWrite \<and> r = Inr ()) tr)"
    using frame w0 by simp
qed

section \<open>A small index\<close>

lemma example_index_ready:
  "index_ready example_text_codec example_api (example_writer 2 True) example_docs (ws_temp_dir \<lparr>ws_index_writer = (), ws_temp_dir = ''t''\<rparr>)
     [\<lparr>if_name = ''meta.json'', if_path = ''t/meta.json'', if_length = 3\<rparr>,
      \<lparr>if_name = ''seg.fast'', if_path = ''t/seg.fast'', if_length = 0\<rparr>,
      \<lparr>if_name = ''seg.idx'', if_path = ''t/seg.idx'', if_length = 2\<rparr>]
     [[123, 32, 125], [], [7, 8]] (hdr_files example_header) example_header_text"
proof -
  let ?fs = "[\<lparr>if_name = ''meta.json'', if_path = ''t/meta.json'', if_length = 3\<rparr>,
     \<lparr>if_name = ''seg.fast'', if_path = ''t/seg.fast'', if_length = 0\<rparr>,
     \<lparr>if_name = ''seg.idx'', if_path = ''t/seg.idx'', if_length = 2\<rparr>] :: index_file list"
  have names: "\<forall>f \<in> set ?fs. validate_archive_file_name (if_name f) = Inr ()" "distinct (map (components \<circ> if_name) ?fs)"
    by code_simp+
  have header: "archive_header (wa_version example_api) (example_writer 2 True) (hdr_files example_header) = example_header"
    by (simp add: archive_header_def example_header_def example_writer_def example_api_def)
  show ?thesis
    unfolding index_ready_def header select_convs
    by (intro conjI names example_entries)
      (simp_all add: example_api_def example_files example_disk_def example_text_codec_def MAX_HEADER_BYTES_def example_header_text_def)
qed

lemma example_readable:
  "readable_by example_text_codec example_api example_reader_api (example_writer 2 True)
     fs ds (hdr_files example_header) example_header_text"
proof -
  have header: "archive_header (wa_version example_api) (example_writer 2 True) (hdr_files example_header) = example_header"
    by (simp add: archive_header_def example_header_def example_writer_def example_api_def)
  have "\<not> is_blank ''0.26.1''" by code_simp
  then show ?thesis
    unfolding readable_by_def header by (simp add: example_text_codec_def example_api_def example_reader_api_def)
qed

end
