(* ===== verification/QueryMeaning.thy ===== *)
theory QueryMeaning
  imports QueryBuilder
begin

text \<open>
  What a query of \<^verbatim>\<open>core/src/query.rs\<close> asks of a document, and that \<^verbatim>\<open>build_query\<close> keeps it: the
  meaning \<open>query_holds\<close> of a specification speaks of columns, tokens and clauses only, while the
  tree that is built speaks of tantivy's fields, terms and occurrences. The refinement lemma
  holds for every specification that is accepted, whatever the leaves mean.
\<close>

section \<open>The meaning of a specification\<close>

text \<open>
  A document is of any type; what its columns contain is given: a token, a token within an edit
  distance (with a prefix that has to agree and a bound on the expansions), a phrase with a slop.
\<close>

record 'd text_semantics =
  has_token :: "string \<Rightarrow> string \<Rightarrow> 'd \<Rightarrow> bool"
  has_similar :: "string \<Rightarrow> string \<Rightarrow> u8 \<Rightarrow> string \<Rightarrow> usize \<Rightarrow> 'd \<Rightarrow> bool"
  has_phrase :: "string \<Rightarrow> string \<Rightarrow> u32 \<Rightarrow> 'd \<Rightarrow> bool"

text \<open>The column a query names, or the only column of the index; and the columns a match looks at.\<close>

definition target_column :: "full_text_index_config \<Rightarrow> string option \<Rightarrow> string" where
  "target_column c column =
     (case given_column column of Some col \<Rightarrow> col | None \<Rightarrow> hd (indexed_text_fields c))"

definition searched_columns :: "full_text_index_config \<Rightarrow> string option \<Rightarrow> string set" where
  "searched_columns c column =
     (if given_column column \<noteq> None then {target_column c column}
      else (\<lambda>n. target_column c (Some n)) ` set (text_fields c))"

definition token_holds ::
  "'d text_semantics \<Rightarrow> 'd \<Rightarrow> string \<Rightarrow> u8 option \<Rightarrow> usize \<Rightarrow> u32 \<Rightarrow> string \<Rightarrow> bool" where
  "token_holds T d n fuzziness max_expansions prefix_length t \<longleftrightarrow>
     (let fuzz = (case fuzziness of Some f \<Rightarrow> f | None \<Rightarrow> auto_fuzziness t) in
      if fuzz = 0 then has_token T n t d
      else has_similar T n t fuzz (concat (take (unat prefix_length) (char_groups t))) max_expansions d)"

text \<open>Operator or: one of the tokens; operator and: all of them, and there is one.\<close>

definition terms_hold ::
  "'d text_semantics \<Rightarrow> 'd \<Rightarrow> string \<Rightarrow> match_operator \<Rightarrow> u8 option \<Rightarrow> usize \<Rightarrow> u32 \<Rightarrow> string list \<Rightarrow> bool" where
  "terms_hold T d n op fuzz me pl tokens \<longleftrightarrow>
     (case op of OpOr \<Rightarrow> \<exists>t \<in> set tokens. token_holds T d n fuzz me pl t
      | OpAnd \<Rightarrow> tokens \<noteq> [] \<and> (\<forall>t \<in> set tokens. token_holds T d n fuzz me pl t))"

fun query_holds ::
  "full_text_index_config \<Rightarrow> (string \<Rightarrow> string list) \<Rightarrow> 'd text_semantics \<Rightarrow> 'd \<Rightarrow> query_spec \<Rightarrow> bool" where
  "query_holds c analyze T d (QMatch column terms op boost fuzz me pl) \<longleftrightarrow>
     (\<exists>n \<in> searched_columns c column. terms_hold T d n op fuzz me pl (analyze terms))"
| "query_holds c analyze T d (QMultiMatch terms columns boosts op fuzz me pl) \<longleftrightarrow>
     (\<exists>col \<in> set columns. terms_hold T d (target_column c (Some col)) op fuzz me pl (analyze terms))"
| "query_holds c analyze T d (QMatchPhrase column terms slop) \<longleftrightarrow> has_phrase T (target_column c column) terms slop d"
| "query_holds c analyze T d (QBoolean should must must_not queries) \<longleftrightarrow>
     (\<forall>q \<in> set must. query_holds c analyze T d q) \<and> (\<forall>q \<in> set must_not. \<not> query_holds c analyze T d q)
     \<and> (\<forall>x \<in> set queries. (fst x = BMust \<longrightarrow> query_holds c analyze T d (snd x))
          \<and> (fst x = BMustNot \<longrightarrow> \<not> query_holds c analyze T d (snd x)))
     \<and> (must \<noteq> [] \<or> (\<exists>x \<in> set queries. fst x = BMust) \<or> (\<exists>q \<in> set should. query_holds c analyze T d q)
        \<or> (\<exists>x \<in> set queries. fst x = BShould \<and> query_holds c analyze T d (snd x)))"
| "query_holds c analyze T d (QBoost positive negative negative_boost) \<longleftrightarrow> query_holds c analyze T d positive"

text \<open>The meaning of the leaves of a tree, read back at the columns and terms they came from.\<close>

definition text_meaning :: "('f, 'q) tantivy_index \<Rightarrow> ('f, 'q, 'd) leaf_semantics \<Rightarrow> 'd text_semantics" where
  "text_meaning ix S = \<lparr>
     has_token = (\<lambda>n. sem_term S (the (ti_get_field ix n))),
     has_similar = (\<lambda>n. sem_fuzzy S (the (ti_get_field ix n))),
     has_phrase = (\<lambda>n terms slop d. \<exists>q. ti_parse ix (the (ti_get_field ix n)) (phrase_text terms slop) = Inr q
       \<and> sem_parsed S q d)\<rparr>"

definition index_tokens :: "('f, 'q) tantivy_index \<Rightarrow> full_text_index_config \<Rightarrow> string \<Rightarrow> string list" where
  "index_tokens ix c = the (ti_tokens ix (tokenizer_name (tokenizer c)))"

section \<open>Building keeps the meaning\<close>

lemma resolve_target:
  "resolve_text_field ix c column = Inr f \<Longrightarrow> f = the (ti_get_field ix (target_column c column))"
  by (auto simp: resolve_text_field_def target_column_def res_simps split: option.splits list.splits if_splits)

lemma res_collect_images:
  assumes "res_collect g xs = Inr ys" and "\<And>x y. x \<in> set xs \<Longrightarrow> g x = Inr y \<Longrightarrow> h y = k x"
  shows "map h ys = map k xs"
  using assms unfolding res_collect_Inr by (induction rule: list_all2_induct) auto

lemma map_eq_images: "map f xs = map g ys \<Longrightarrow> f ` set xs = g ` set ys"
  by (drule arg_cong [of _ _ set]) simp

lemma token_query_holds:
  assumes "build_token_query f t fuzz me pl = Inr q" and "f = the (ti_get_field ix n)"
  shows "tmatches S d q \<longleftrightarrow> token_holds (text_meaning ix S) d n fuzz me pl t"
  using assms
  by (auto simp: build_token_query_def token_holds_def text_meaning_def Let_def split: option.splits if_splits)

lemma tokens_query_holds:
  assumes q: "build_tokens_query f tokens opts = Inr q" and f: "f = the (ti_get_field ix n)"
  shows "tmatches S d q \<longleftrightarrow> terms_hold (text_meaning ix S) d n (fm_operator opts) (fm_fuzziness opts)
           (fm_max_expansions opts) (fm_prefix_length opts) tokens"
proof (cases rule: tokens_query_cases [OF q])
  case 1
  then show ?thesis by (simp add: terms_hold_def split: match_operator.splits)
next
  case (2 t)
  then show ?thesis
    using token_query_holds [OF 2(2) f, of S d] by (simp add: 2(1) terms_hold_def split: match_operator.splits)
next
  case (3 qs)
  let ?T = "token_holds (text_meaning ix S) d n (fm_fuzziness opts) (fm_max_expansions opts) (fm_prefix_length opts)"
  have "map (tmatches S d) qs = map ?T tokens"
    by (rule res_collect_images [OF 3(2)]) (rule token_query_holds [OF _ f])
  then have qs: "tmatches S d ` set qs = ?T ` set tokens" by (rule map_eq_images)
  have all: "(\<forall>q \<in> set qs. tmatches S d q) \<longleftrightarrow> (\<forall>t \<in> set tokens. ?T t)"
    and some: "(\<exists>q \<in> set qs. tmatches S d q) \<longleftrightarrow> (\<exists>t \<in> set tokens. ?T t)"
    using arg_cong [OF qs, of "\<lambda>X. False \<notin> X"] arg_cong [OF qs, of "\<lambda>X. True \<in> X"] by (auto simp: image_iff)
  have "qs \<noteq> []" "tokens \<noteq> []" using 3(1) res_collect_length [OF 3(2)] by auto
  then show ?thesis
    using all some by (cases "fm_operator opts") (auto simp: 3(3) terms_hold_def token_occur_def neq_Nil_conv)
qed

lemma field_match_holds:
  assumes "build_field_match_query ix c f terms opts = Inr q" and "f = the (ti_get_field ix n)"
  shows "tmatches S d q \<longleftrightarrow> terms_hold (text_meaning ix S) d n (fm_operator opts) (fm_fuzziness opts)
           (fm_max_expansions opts) (fm_prefix_length opts) (index_tokens ix c terms)"
  using assms(1)
proof (rule field_match_Inr)
  fix ts core
  assume "analyze_terms ix c terms = Inr ts" "build_tokens_query f ts opts = Inr core"
    "q = core \<or> q = BoostQuery core (fm_boost opts)"
  moreover from this(1) have "ts = index_tokens ix c terms" by (auto simp: analyze_terms_def index_tokens_def res_simps)
  ultimately show ?thesis using tokens_query_holds [OF _ assms(2), of ts opts core S d] by auto
qed

lemma columns_hold:
  assumes "build_columns ix c terms boosts op fuzz me pl idx cols = Inr cs"
  shows "(\<forall>x \<in> set cs. fst x = Should) \<and> ((\<exists>x \<in> set cs. tmatches S d (snd x)) \<longleftrightarrow>
     (\<exists>col \<in> set cols. terms_hold (text_meaning ix S) d (target_column c (Some col)) op fuzz me pl (index_tokens ix c terms)))"
  using assms
proof (induction cols arbitrary: idx cs)
  case (Cons col cols)
  then obtain f opts q rest where f: "resolve_text_field ix c (Some col) = Inr f"
    and q: "build_field_match_query ix c f terms opts = Inr q"
      "fm_operator opts = op" "fm_fuzziness opts = fuzz" "fm_max_expansions opts = me" "fm_prefix_length opts = pl"
    and rest: "build_columns ix c terms boosts op fuzz me pl (Suc idx) cols = Inr rest"
    and cs: "cs = (Should, q) # rest"
    by (auto simp: res_simps Let_def)
  show ?case
    using Cons.IH [OF rest] field_match_holds [OF q(1) resolve_target [OF f], of S d] by (auto simp: cs q(2-))
qed simp

lemma match_holds:
  assumes "build_query ix c (QMatch column terms op boost fuzz me pl) = Inr t"
  shows "tmatches S d t \<longleftrightarrow> query_holds c (index_tokens ix c) (text_meaning ix S) d (QMatch column terms op boost fuzz me pl)"
proof -
  let ?opts = "\<lparr>fm_operator = op, fm_boost = boost, fm_fuzziness = fuzz, fm_max_expansions = me, fm_prefix_length = pl\<rparr>"
  let ?H = "\<lambda>n. terms_hold (text_meaning ix S) d n op fuzz me pl (index_tokens ix c terms)"
  obtain fs qs where fs: "resolve_match_fields ix c column = Inr fs"
    and qs: "res_collect (\<lambda>field. build_field_match_query ix c field terms ?opts) fs = Inr qs" and t: "t = single_or_should qs"
    using assms by (auto simp: res_simps Let_def)
  have "tmatches S d t \<longleftrightarrow> (\<exists>q \<in> set qs. tmatches S d q)"
    by (cases "qs = []") (simp_all add: t single_or_should_matches, simp add: single_or_should_def)
  also have "\<dots> \<longleftrightarrow> (\<exists>n \<in> searched_columns c column. ?H n)"
  proof (cases "given_column column = None")
    case False
    then obtain f q where "fs = [f]" "qs = [q]" and f: "resolve_text_field ix c column = Inr f"
      and q: "build_field_match_query ix c f terms ?opts = Inr q"
      using fs qs by (auto simp: resolve_match_fields_def res_simps split: sum.splits)
    with field_match_holds [OF q resolve_target [OF f], of S d] False show ?thesis
      by (simp add: searched_columns_def)
  next
    case True
    let ?k = "\<lambda>n. ?H (target_column c (Some n))"
    have "res_collect (\<lambda>n. resolve_text_field ix c (Some n)) (indexed_text_fields c) = Inr fs"
      using True fs by (simp add: resolve_match_fields_def)
    then have "list_all2 (\<lambda>n f. f = the (ti_get_field ix (target_column c (Some n)))) (indexed_text_fields c) fs"
      unfolding res_collect_Inr by (rule list_all2_mono) (rule resolve_target)
    then have fields: "fs = map (\<lambda>n. the (ti_get_field ix (target_column c (Some n)))) (indexed_text_fields c)"
      by (induction rule: list_all2_induct) simp_all
    have "list_all2 (\<lambda>f q. build_field_match_query ix c f terms ?opts = Inr q) fs qs"
      using qs by (simp only: res_collect_Inr)
    then have "list_all2 (\<lambda>n q. tmatches S d q = ?k n) (indexed_text_fields c) qs"
      unfolding fields list_all2_map1
      by (rule list_all2_mono) (use field_match_holds [OF _ refl, where opts = ?opts] in simp)
    then have "map (tmatches S d) qs = map ?k (indexed_text_fields c)"
      by (induction rule: list_all2_induct) simp_all
    then have "tmatches S d ` set qs = ?k ` set (indexed_text_fields c)" by (rule map_eq_images)
    from arg_cong [OF this, of "\<lambda>X. True \<in> X"] True show ?thesis
      by (auto simp: searched_columns_def indexed_text_fields_def image_iff)
  qed
  finally show ?thesis by simp
qed

lemma collected_trees:
  assumes "res_collect (build_query ix c) qs = Inr ts"
    and "\<And>q t. q \<in> set qs \<Longrightarrow> build_query ix c q = Inr t \<Longrightarrow> tmatches S d t \<longleftrightarrow> H q"
  shows "tmatches S d ` set ts = H ` set qs"
  by (rule map_eq_images [OF res_collect_images [OF assms]])

text \<open>
  Both sides of a boolean query depend only on which clauses hold: the truth values of the lists and
  the pairs of occurrence and truth value of the mixed clauses.
\<close>

definition clauses_hold :: "bool set \<Rightarrow> bool set \<Rightarrow> bool set \<Rightarrow> (occur \<times> bool) set \<Rightarrow> bool" where
  "clauses_hold should must must_not mixed \<longleftrightarrow>
     False \<notin> must \<and> True \<notin> must_not \<and> (Must, False) \<notin> mixed \<and> (MustNot, True) \<notin> mixed
     \<and> (must \<noteq> {} \<or> Must \<in> fst ` mixed \<or> True \<in> should \<or> (Should, True) \<in> mixed)"

lemma truth_images:
  "False \<notin> f ` A \<longleftrightarrow> (\<forall>x \<in> A. f x)" "True \<notin> f ` A \<longleftrightarrow> (\<forall>x \<in> A. \<not> f x)" "True \<in> f ` A \<longleftrightarrow> (\<exists>x \<in> A. f x)"
  "(b, False) \<notin> (\<lambda>x. (g x, f x)) ` A \<longleftrightarrow> (\<forall>x \<in> A. g x = b \<longrightarrow> f x)"
  "(b, True) \<notin> (\<lambda>x. (g x, f x)) ` A \<longleftrightarrow> (\<forall>x \<in> A. g x = b \<longrightarrow> \<not> f x)"
  "(b, True) \<in> (\<lambda>x. (g x, f x)) ` A \<longleftrightarrow> (\<exists>x \<in> A. g x = b \<and> f x)"
  "b \<in> fst ` (\<lambda>x. (g x, f x)) ` A \<longleftrightarrow> (\<exists>x \<in> A. g x = b)"
  by (auto simp: image_iff)

lemma boolean_tree_matches:
  "tmatches S d (BooleanQuery (map (Pair Should) qs1 @ map (Pair Must) qs2 @ map (Pair MustNot) qs3 @ qs4)) \<longleftrightarrow>
     clauses_hold (tmatches S d ` set qs1) (tmatches S d ` set qs2) (tmatches S d ` set qs3)
       ((\<lambda>x. (fst x, tmatches S d (snd x))) ` set qs4)"
proof -
  let ?cs = "map (Pair Should) qs1 @ map (Pair Must) qs2 @ map (Pair MustNot) qs3 @ qs4"
  have "(\<exists>x \<in> set ?cs. fst x = Must) \<longleftrightarrow> qs2 \<noteq> [] \<or> (\<exists>x \<in> set qs4. fst x = Must)"
    by (cases qs2) auto
  moreover have "(\<exists>x \<in> set ?cs. fst x = Should \<and> tmatches S d (snd x)) \<longleftrightarrow>
      (\<exists>q \<in> set qs1. tmatches S d q) \<or> (\<exists>x \<in> set qs4. fst x = Should \<and> tmatches S d (snd x))"
    by (simp add: bex_Un)
  moreover have "(\<forall>x \<in> set ?cs. (fst x = Must \<longrightarrow> tmatches S d (snd x)) \<and> (fst x = MustNot \<longrightarrow> \<not> tmatches S d (snd x))) \<longleftrightarrow>
      (\<forall>q \<in> set qs2. tmatches S d q) \<and> (\<forall>q \<in> set qs3. \<not> tmatches S d q)
      \<and> (\<forall>x \<in> set qs4. (fst x = Must \<longrightarrow> tmatches S d (snd x)) \<and> (fst x = MustNot \<longrightarrow> \<not> tmatches S d (snd x)))"
    by (simp add: ball_Un)
  ultimately show ?thesis
    by (simp only: tmatches.simps clauses_hold_def truth_images ball_conj_distrib image_is_empty set_empty conj_assoc disj_assoc) blast
qed

lemma boolean_spec_holds:
  "query_holds c analyze T d (QBoolean should must must_not queries) \<longleftrightarrow>
     clauses_hold (query_holds c analyze T d ` set should) (query_holds c analyze T d ` set must)
       (query_holds c analyze T d ` set must_not) ((\<lambda>x. (occur_of (fst x), query_holds c analyze T d (snd x))) ` set queries)"
proof -
  have "occur_of b = Must \<longleftrightarrow> b = BMust" "occur_of b = MustNot \<longleftrightarrow> b = BMustNot" "occur_of b = Should \<longleftrightarrow> b = BShould" for b
    by (cases b; simp)+
  then show ?thesis
    by (simp only: query_holds.simps clauses_hold_def truth_images ball_conj_distrib image_is_empty set_empty
        conj_assoc) blast
qed

lemma boolean_holds:
  assumes t: "build_query ix c (QBoolean should must must_not queries) = Inr t"
    and IH: "\<And>q t. q \<in> set should \<union> set must \<union> set must_not \<union> snd ` set queries \<Longrightarrow> build_query ix c q = Inr t \<Longrightarrow>
        tmatches S d t \<longleftrightarrow> query_holds c (index_tokens ix c) (text_meaning ix S) d q"
  shows "tmatches S d t \<longleftrightarrow> query_holds c (index_tokens ix c) (text_meaning ix S) d (QBoolean should must must_not queries)"
  using t
proof (rule boolean_Inr)
  let ?H = "query_holds c (index_tokens ix c) (text_meaning ix S) d"
  fix qs1 qs2 qs3 qs4
  assume qs: "res_collect (build_query ix c) should = Inr qs1" "res_collect (build_query ix c) must = Inr qs2"
      "res_collect (build_query ix c) must_not = Inr qs3"
      "res_collect (\<lambda>(occur, child). res_bind (build_query ix c child) (\<lambda>q. Inr (occur_of occur, q))) queries = Inr qs4"
    and t: "t = BooleanQuery (map (Pair Should) qs1 @ map (Pair Must) qs2 @ map (Pair MustNot) qs3 @ qs4)"
  have "tmatches S d ` set qs1 = ?H ` set should" "tmatches S d ` set qs2 = ?H ` set must"
      "tmatches S d ` set qs3 = ?H ` set must_not"
    using IH by (auto intro!: collected_trees [OF qs(1)] collected_trees [OF qs(2)] collected_trees [OF qs(3)])
  moreover have "map (\<lambda>x. (fst x, tmatches S d (snd x))) qs4 = map (\<lambda>x. (occur_of (fst x), ?H (snd x))) queries"
    by (rule res_collect_images [OF qs(4)]) (use IH in \<open>fastforce simp: res_bind_Inr\<close>)
  then have "(\<lambda>x. (fst x, tmatches S d (snd x))) ` set qs4 = (\<lambda>x. (occur_of (fst x), ?H (snd x))) ` set queries"
    by (rule map_eq_images)
  ultimately show ?thesis by (simp only: t boolean_tree_matches boolean_spec_holds)
qed

lemma build_query_holds:
  assumes "build_query ix c q = Inr t"
  shows "tmatches S d t \<longleftrightarrow> query_holds c (index_tokens ix c) (text_meaning ix S) d q"
  using assms
proof (induction q arbitrary: t)
  case (QMatch column terms op boost fuzz me pl)
  then show ?case by (rule match_holds)
next
  case (QMultiMatch terms columns boosts op fuzz me pl)
  then obtain cs where "build_columns ix c terms boosts op fuzz me pl 0 columns = Inr cs" and t: "t = BooleanQuery cs"
    by (auto simp: res_simps)
  from columns_hold [OF this(1), of S d] show ?case by (auto simp: t)
next
  case (QMatchPhrase column terms slop)
  then obtain f pq where f: "resolve_text_field ix c column = Inr f"
    and pq: "ti_parse ix f (phrase_text terms slop) = Inr pq" and t: "t = ParsedQuery pq"
    by (auto simp: res_simps split: if_splits)
  show ?case using pq by (simp add: t text_meaning_def resolve_target [OF f])
next
  case (QBoolean should must must_not queries)
  then show ?case by (intro boolean_holds [OF QBoolean.prems(1)]) fastforce
next
  case (QBoost positive negative negative_boost)
  then show ?case by (auto simp: res_simps)
qed

section \<open>Columns that decide\<close>

text \<open>Two documents look the same in a column.\<close>

definition same_column :: "'d text_semantics \<Rightarrow> string \<Rightarrow> 'd \<Rightarrow> 'd \<Rightarrow> bool" where
  "same_column T n d d' \<longleftrightarrow>
     (\<forall>t. has_token T n t d \<longleftrightarrow> has_token T n t d')
     \<and> (\<forall>t fuzz prefix me. has_similar T n t fuzz prefix me d \<longleftrightarrow> has_similar T n t fuzz prefix me d')
     \<and> (\<forall>terms slop. has_phrase T n terms slop d \<longleftrightarrow> has_phrase T n terms slop d')"

lemma same_column_terms:
  "same_column T n d d' \<Longrightarrow> terms_hold T d n op fuzz me pl ts \<longleftrightarrow> terms_hold T d' n op fuzz me pl ts"
  by (simp add: same_column_def terms_hold_def token_holds_def Let_def split: match_operator.split)

text \<open>Specifications in which phrases and the columns of a multi-match are named.\<close>

fun names_columns :: "query_spec \<Rightarrow> bool" where
  "names_columns (QMatch column terms op boost fuzz me pl) \<longleftrightarrow> True"
| "names_columns (QMultiMatch terms columns boosts op fuzz me pl) \<longleftrightarrow> (\<forall>col \<in> set columns. \<not> is_blank col)"
| "names_columns (QMatchPhrase column terms slop) \<longleftrightarrow> given_column column \<noteq> None"
| "names_columns (QBoolean should must must_not queries) \<longleftrightarrow>
     (\<forall>q \<in> set should. names_columns q) \<and> (\<forall>q \<in> set must. names_columns q)
     \<and> (\<forall>q \<in> set must_not. names_columns q) \<and> (\<forall>x \<in> set queries. names_columns (snd x))"
| "names_columns (QBoost p n b) \<longleftrightarrow> names_columns p \<and> names_columns n"

text \<open>
  A resolved column is a configured one; if it was named it is trimmed, and otherwise it is the
  only one there is.
\<close>

lemma resolve_target_named:
  assumes "resolve_text_field ix c column = Inr g" and "trim f \<noteq> f"
    and "set (text_fields c) \<noteq> {f} \<or> given_column column \<noteq> None"
  shows "target_column c column \<in> set (text_fields c) - {f}"
proof (cases "given_column column")
  case (Some col)
  then have "trim col = col" by (auto simp: given_column_Some)
  with Some assms(1,2) show ?thesis
    by (auto simp: resolve_text_field_def target_column_def indexed_text_fields_def split: if_splits)
next
  case None
  then obtain n where n: "indexed_text_fields c = [n]"
    using assms(1) by (auto simp: resolve_text_field_def split: list.splits)
  then have "set (text_fields c) = {n}" unfolding indexed_text_fields_def using set_dedup(2) by (metis list.simps(15) list.set(1))
  with None n assms(3) show ?thesis by (auto simp: target_column_def)
qed

lemma columns_resolved:
  "build_columns ix c terms boosts op fuzz me pl idx cols = Inr cs \<Longrightarrow> col \<in> set cols \<Longrightarrow>
     \<exists>g. resolve_text_field ix c (Some col) = Inr g"
  by (induction cols arbitrary: idx cs) (auto simp: res_simps Let_def)

lemma match_columns_resolved:
  assumes "resolve_match_fields ix c column = Inr fs" and "\<forall>n \<in> set (text_fields c). \<not> is_blank n"
    and "n \<in> searched_columns c column"
  obtains col g where "n = target_column c col" and "resolve_text_field ix c col = Inr g" and "given_column col \<noteq> None"
proof (cases "given_column column")
  case None
  with assms(3) obtain m where m: "m \<in> set (text_fields c)" "n = target_column c (Some m)" by (auto simp: searched_columns_def)
  have "given_column (Some m) \<noteq> None" using assms(2) m(1) by (simp add: given_column_def)
  moreover have "m \<in> set (indexed_text_fields c)" using m(1) by (simp add: indexed_text_fields_def)
  then obtain g where "resolve_text_field ix c (Some m) = Inr g"
    using assms(1) None by (auto simp: resolve_match_fields_def dest: res_collect_img)
  ultimately show thesis using m(2) that by blast
next
  case (Some col)
  then show thesis using assms(1,3) that [of column] by (auto simp: searched_columns_def resolve_match_fields_def res_bind_Inr)
qed

text \<open>A field whose name has surrounding blanks decides nothing.\<close>

lemma padded_column_ignored:
  assumes valid: "\<forall>n \<in> set (text_fields c). \<not> is_blank n" and f: "trim f \<noteq> f"
    and same: "\<forall>n \<in> set (text_fields c) - {f}. same_column T n d d'"
    and "set (text_fields c) \<noteq> {f} \<or> names_columns q" and "build_query ix c q = Inr t"
  shows "query_holds c analyze T d q \<longleftrightarrow> query_holds c analyze T d' q"
  using assms(4,5)
proof (induction q arbitrary: t)
  case (QMatch column terms op boost fuzz me pl)
  then obtain fs where fs: "resolve_match_fields ix c column = Inr fs" by (auto simp: res_simps)
  have "terms_hold T d n op fuzz me pl ts \<longleftrightarrow> terms_hold T d' n op fuzz me pl ts" if n: "n \<in> searched_columns c column" for n ts
  proof (rule match_columns_resolved [OF fs valid n])
    fix col g
    assume "n = target_column c col" "resolve_text_field ix c col = Inr g" "given_column col \<noteq> None"
    then have "n \<in> set (text_fields c) - {f}" using resolve_target_named [of ix c col g f] f by blast
    then show ?thesis using same by (intro same_column_terms) blast
  qed
  then show ?case by simp
next
  case (QMultiMatch terms columns boosts op fuzz me pl)
  then obtain cs where cs: "build_columns ix c terms boosts op fuzz me pl 0 columns = Inr cs" by (auto simp: res_simps)
  have "terms_hold T d (target_column c (Some col)) op fuzz me pl ts \<longleftrightarrow> terms_hold T d' (target_column c (Some col)) op fuzz me pl ts"
    if col: "col \<in> set columns" for col ts
  proof -
    obtain g where "resolve_text_field ix c (Some col) = Inr g" using columns_resolved [OF cs col] ..
    moreover have "set (text_fields c) \<noteq> {f} \<or> given_column (Some col) \<noteq> None"
      using QMultiMatch.prems(1) col by (auto simp: given_column_def)
    ultimately have "target_column c (Some col) \<in> set (text_fields c) - {f}" using resolve_target_named [of ix c "Some col" g f] f by blast
    then show ?thesis using same by (intro same_column_terms) blast
  qed
  then show ?case by simp
next
  case (QMatchPhrase column terms slop)
  then obtain g where "resolve_text_field ix c column = Inr g" by (auto simp: res_simps split: if_splits)
  with QMatchPhrase.prems(1) have "target_column c column \<in> set (text_fields c) - {f}"
    by (intro resolve_target_named [OF _ f]) auto
  with same show ?case by (auto simp: same_column_def)
next
  case (QBoolean should must must_not queries)
  from QBoolean.prems(2) show ?case
  proof (rule boolean_Inr)
    fix qs1 qs2 qs3 qs4
    assume qs: "res_collect (build_query ix c) should = Inr qs1" "res_collect (build_query ix c) must = Inr qs2"
        "res_collect (build_query ix c) must_not = Inr qs3"
        "res_collect (\<lambda>(occur, child). res_bind (build_query ix c child) (\<lambda>q. Inr (occur_of occur, q))) queries = Inr qs4"
    have lists: "query_holds c analyze T d q \<longleftrightarrow> query_holds c analyze T d' q"
      if q: "q \<in> set should \<union> set must \<union> set must_not" for q
    proof -
      have "\<exists>t. build_query ix c q = Inr t"
        using q res_collect_img [OF qs(1)] res_collect_img [OF qs(2)] res_collect_img [OF qs(3)] by blast
      then show ?thesis using q QBoolean.IH(1-3) QBoolean.prems(1) by auto
    qed
    have pairs: "query_holds c analyze T d (snd x) \<longleftrightarrow> query_holds c analyze T d' (snd x)" if x: "x \<in> set queries" for x
    proof -
      have "\<exists>t. build_query ix c (snd x) = Inr t"
        using res_collect_img [OF qs(4) x] by (cases x) (auto simp: res_bind_Inr)
      then show ?thesis using QBoolean.IH(4) [OF x snds.intros] QBoolean.prems(1) x by auto
    qed
    show ?thesis using lists pairs by simp
  qed
next
  case (QBoost p n b)
  then show ?case by (auto simp: res_simps)
qed

section \<open>Properties\<close>

text \<open>
  C4. The query that is built means what the specification asks: for every accepted specification and
  every document, the tree matches exactly if the specification holds of the document, when
  columns, tokens and phrases are read through the index. Boosts, the negative part of a boost
  query and its factor do not decide what matches.
\<close>

theorem build_query_meaning:
  assumes "build_query ix c q = Inr t"
  shows "tmatches S d t \<longleftrightarrow> query_holds c (index_tokens ix c) (text_meaning ix S) d q"
  using assms by (rule build_query_holds)

section \<open>A concrete query\<close>

definition example_query :: query_spec where
  "example_query = QBoolean [] [QMatch (Some ''title'') ''rust'' OpOr f32_one (Some 0) 50 0]
     [QMatch None ''java'' OpOr f32_one (Some 0) 50 0] []"

lemma example_query_ok: "spec_ok ix example_config example_query"
proof -
  have "trim ''title'' = ''title''" by code_simp
  then show ?thesis
    by (simp add: example_query_def options_ok_def boost_ok_one column_ok_def given_column_def example_config_def)
qed

text \<open>A document is a list of columns with their words.\<close>

definition word_semantics :: "(nat, string, (nat \<times> string list) list) leaf_semantics" where
  "word_semantics = \<lparr>sem_term = (\<lambda>f w d. \<exists>(g, ws) \<in> set d. g = f \<and> w \<in> set ws),
     sem_fuzzy = (\<lambda>_ _ _ _ _ _. False), sem_parsed = (\<lambda>_ _. False)\<rparr>"

theorem build_query_meaning_witness:
  "\<exists>t. build_query example_index example_config example_query = Inr t
     \<and> tmatches word_semantics [(1, [''rust'']), (2, [''a'', ''crate''])] t
     \<and> \<not> tmatches word_semantics [(1, [''rust'']), (2, [''not'', ''java''])] t
     \<and> \<not> tmatches word_semantics [(2, [''rust''])] t"
proof -
  obtain t where t: "build_query example_index example_config example_query = Inr t"
    using query_builds [OF example_serves] example_query_ok by blast
  have names: "trim ''title'' = ''title''" "trim ''body'' = ''body''" "tokenizer_name (tokenizer example_config) = ''paimon_custom''"
    by code_simp+
  have "index_tokens example_index example_config ''rust'' = [''rust'']"
      "index_tokens example_index example_config ''java'' = [''java'']"
    by (simp_all add: index_tokens_def names example_index_def)
  moreover have "text_fields example_config = [''title'', ''body'']" by (simp add: example_config_def)
  ultimately show ?thesis
    using t build_query_meaning [OF t, of word_semantics]
    by (auto simp: example_query_def searched_columns_def target_column_def given_column_def names terms_hold_def
        token_holds_def text_meaning_def word_semantics_def example_index_def simp del: build_query.simps)
qed

end
