(* ===== verification/IndexSearch.thy ===== *)
theory IndexSearch
  imports IndexChain QueryMeaning
begin

text \<open>
  What a search finds: the documents that were added to a writer, searched through the archive that
  was written and opened again. The documents that tantivy stores and finds are described by
  contracts on its functions (\<open>stores_documents\<close>, \<open>searches_documents\<close>, \<open>holds_documents\<close>);
  the specification of a search (\<open>matching_rows\<close>) speaks only of the calls that added documents and
  of the meaning of the query.
\<close>

section \<open>Exact queries\<close>

text \<open>
  Valid queries that ask for tokens exactly: no fuzziness and no phrases, in any nesting. For these
  the meaning depends on the tokens of the columns alone.
\<close>

fun exact_ok :: "full_text_index_config \<Rightarrow> query_spec \<Rightarrow> bool" where
  "exact_ok c (QMatch column terms op boost fuzz me pl) \<longleftrightarrow>
     fuzz = Some 0 \<and> me \<noteq> 0 \<and> boost_ok boost \<and> (given_column column = None \<or> column_ok c column)"
| "exact_ok c (QMultiMatch terms columns boosts op fuzz me pl) \<longleftrightarrow>
     columns \<noteq> [] \<and> (boosts = [] \<or> length boosts = length columns) \<and> (\<forall>b \<in> set boosts. boost_ok b)
     \<and> fuzz = Some 0 \<and> me \<noteq> 0 \<and> (\<forall>col \<in> set columns. column_ok c (Some col))"
| "exact_ok c (QMatchPhrase column terms slop) \<longleftrightarrow> False"
| "exact_ok c (QBoolean should must must_not queries) \<longleftrightarrow>
     (should \<noteq> [] \<or> must \<noteq> [] \<or> (\<exists>x \<in> set queries. fst x \<noteq> BMustNot))
     \<and> (\<forall>q \<in> set should. exact_ok c q) \<and> (\<forall>q \<in> set must. exact_ok c q)
     \<and> (\<forall>q \<in> set must_not. exact_ok c q) \<and> (\<forall>x \<in> set queries. exact_ok c (snd x))"
| "exact_ok c (QBoost p n b) \<longleftrightarrow>
     exact_ok c p \<and> exact_ok c n \<and> (\<exists>s r. b = Finite s r \<and> 0 \<le> f32_signed s r \<and> f32_signed s r \<le> 1)"

lemma exact_spec_ok: "exact_ok c q \<Longrightarrow> spec_ok ix c q"
  by (induction c q rule: exact_ok.induct) (auto simp: options_ok_def)

definition plain_names :: "full_text_index_config \<Rightarrow> bool" where
  "plain_names c \<longleftrightarrow> text_fields c \<noteq> [] \<and> (\<forall>n \<in> set (text_fields c). trim n = n \<and> n \<noteq> [])"

lemma target_configured:
  assumes "plain_names c" and "column_ok c column"
  shows "target_column c column \<in> set (text_fields c)"
proof (cases "given_column column")
  case None
  have "indexed_text_fields c \<noteq> []" using assms(1) by (simp add: plain_names_def indexed_text_fields_def)
  then have "hd (indexed_text_fields c) \<in> set (indexed_text_fields c)" by (rule hd_in_set)
  with None show ?thesis by (simp add: target_column_def) (simp add: indexed_text_fields_def)
next
  case (Some col)
  then show ?thesis using assms(2) by (simp add: target_column_def column_ok_def)
qed

lemma searched_configured:
  assumes "plain_names c" and "given_column column = None \<or> column_ok c column"
  shows "searched_columns c column \<subseteq> set (text_fields c)"
proof -
  have "target_column c (Some n) = n" if "n \<in> set (text_fields c)" for n
    using assms(1) that by (simp add: plain_names_def target_column_def given_column_def)
  then show ?thesis using target_configured [OF assms(1)] assms(2) by (auto simp: searched_columns_def)
qed

lemma exact_terms_cong:
  "(\<And>t. has_token T n t d \<longleftrightarrow> has_token T' n t d') \<Longrightarrow>
     terms_hold T d n op (Some 0) me pl ts \<longleftrightarrow> terms_hold T' d' n op (Some 0) me pl ts"
  by (simp add: terms_hold_def token_holds_def split: match_operator.split)

lemma exact_holds_cong:
  assumes names: "plain_names c" and exact: "exact_ok c q"
    and tokens: "\<And>n t. n \<in> set (text_fields c) \<Longrightarrow> has_token T n t d \<longleftrightarrow> has_token T' n t d'"
  shows "query_holds c analyze T d q \<longleftrightarrow> query_holds c analyze T' d' q"
  using exact
proof (induction q)
  case (QMatch column terms op boost fuzz me pl)
  then have "terms_hold T d n op fuzz me pl ts \<longleftrightarrow> terms_hold T' d' n op fuzz me pl ts"
    if "n \<in> searched_columns c column" for n ts
    using searched_configured [OF names] tokens that by (auto intro!: exact_terms_cong)
  then show ?case by simp
next
  case (QMultiMatch terms columns boosts op fuzz me pl)
  then have "terms_hold T d (target_column c (Some col)) op fuzz me pl ts
      \<longleftrightarrow> terms_hold T' d' (target_column c (Some col)) op fuzz me pl ts" if "col \<in> set columns" for col ts
    using target_configured [OF names] tokens that by (auto intro!: exact_terms_cong)
  then show ?case by simp
next
  case (QBoolean should must must_not queries)
  have lists: "query_holds c analyze T d q \<longleftrightarrow> query_holds c analyze T' d' q"
    if "q \<in> set should \<union> set must \<union> set must_not" for q
    using that QBoolean.IH(1-3) QBoolean.prems by auto
  have pairs: "query_holds c analyze T d (snd x) \<longleftrightarrow> query_holds c analyze T' d' (snd x)" if "x \<in> set queries" for x
    using QBoolean.IH(4) [OF that snds.intros] QBoolean.prems that by simp
  show ?case using lists pairs by simp
qed simp_all

section \<open>The documents of an index\<close>

text \<open>
  Adding a document to an index writer appends it to what the writer has stored, or fails and
  changes nothing there.
\<close>

definition stores_documents :: "('e, 'f, 'x, 'w) writer_api \<Rightarrow> 'w \<Rightarrow> ('e \<Rightarrow> 'f document list) \<Rightarrow> bool" where
  "stores_documents A iw stored \<longleftrightarrow>
     (\<forall>doc e e' r. wa_add_document A iw doc e = (e', r) \<longrightarrow>
        stored e' = (case r of Inl _ \<Rightarrow> stored e | Inr _ \<Rightarrow> stored e @ [doc]))"

text \<open>The value of a numeric column, zero where the document has none; the tokens of a text field.\<close>

fun column_value :: "'f \<Rightarrow> 'f document \<Rightarrow> u64" where
  "column_value f [] = 0"
| "column_value f (U64Value g n # doc) = (if g = f then n else column_value f doc)"
| "column_value f (TextValue g s # doc) = column_value f doc"

definition doc_terms :: "(string \<Rightarrow> string list) \<Rightarrow> 'f \<Rightarrow> string \<Rightarrow> 'f document \<Rightarrow> bool" where
  "doc_terms analyze f t doc \<longleftrightarrow> (\<exists>s. TextValue f s \<in> set doc \<and> t \<in> set (analyze s))"

definition doc_selected ::
  "('f, 'q, 'f document) leaf_semantics \<Rightarrow> 'f \<Rightarrow> (u64 \<Rightarrow> bool) option \<Rightarrow> ('f, 'q) tquery \<Rightarrow> 'f document \<Rightarrow> bool" where
  "doc_selected S id_field keep q doc \<longleftrightarrow>
     tmatches S doc q \<and> (case keep of None \<Rightarrow> True | Some p \<Rightarrow> p (column_value id_field doc))"

text \<open>
  The best documents: different addresses of selected documents, as many as the limit allows.
  Their order and scores do not matter here.
\<close>

definition top_docs ::
  "(doc_address \<rightharpoonup> 'f document) \<Rightarrow> ('f document \<Rightarrow> bool) \<Rightarrow> usize \<Rightarrow> (f32 \<times> doc_address) list \<Rightarrow> bool" where
  "top_docs place P n hits \<longleftrightarrow>
     distinct (map snd hits) \<and> (\<forall>a \<in> set (map snd hits). \<exists>doc. place a = Some doc \<and> P doc)
     \<and> length hits = min (unat n) (card {a. \<exists>doc. place a = Some doc \<and> P doc})"

text \<open>
  A searcher over some documents: there is an address for each of them, searches return the best
  selected documents, with a filter on the row-id column where one is given, and the column gives
  the row ids. All this as long as the state of the directory is \<open>good\<close>, and it stays so.
\<close>

definition searches_documents ::
  "('i, 'x, 'r, 's, 'f, 'q) reader_api \<Rightarrow> ('i dir_state \<Rightarrow> bool) \<Rightarrow> 's \<Rightarrow> string \<Rightarrow> 'f
     \<Rightarrow> ('f, 'q, 'f document) leaf_semantics \<Rightarrow> 'f document list \<Rightarrow> bool" where
  "searches_documents B good sc id_name id_field S docs \<longleftrightarrow>
     (\<exists>place. finite (dom place) \<and> image_mset (the \<circ> place) (mset_set (dom place)) = mset docs
       \<and> (\<forall>q keep n d. good d \<and> n \<noteq> 0 \<longrightarrow> (\<exists>d' hits.
            ra_search B sc q (map_option (Pair id_name) keep) n d = (d', Inr hits) \<and> good d'
            \<and> top_docs place (doc_selected S id_field keep q) n hits))
       \<and> (\<forall>seg d. good d \<and> (\<exists>i. (seg, i) \<in> dom place) \<longrightarrow> (\<exists>d' col.
            ra_column B sc seg id_name d = (d', Inr col) \<and> good d'
            \<and> (\<forall>i doc. place (seg, i) = Some doc \<longrightarrow> col i = column_value id_field doc))))"

text \<open>
  An opened index over some documents: it has the fields of the schema, runs the registered
  analyzers, and its reader gives a searcher over the documents.
\<close>

definition holds_documents ::
  "('i, 'x, 'r, 's, 'f, 'q) reader_api \<Rightarrow> (text_analyzer \<Rightarrow> string \<Rightarrow> string list) \<Rightarrow> (string \<Rightarrow> 'f option)
     \<Rightarrow> ('i dir_state \<Rightarrow> bool) \<Rightarrow> string \<Rightarrow> 'f \<Rightarrow> ('f, 'q, 'f document) leaf_semantics \<Rightarrow> 'f document list \<Rightarrow> 'x \<Rightarrow> bool" where
  "holds_documents B tokens_of get_field good id_name id_field S docs x \<longleftrightarrow>
     (\<forall>registry. ti_get_field (ra_index B x registry) = get_field
        \<and> ti_tokens (ra_index B x registry) = (\<lambda>n. map_option tokens_of (registry n)))
     \<and> (\<forall>d. good d \<longrightarrow> (\<exists>d' r. ra_reader B x d = (d', Inr r) \<and> good d'
          \<and> searches_documents B good (ra_searcher B r) id_name id_field S docs))"

text \<open>Whenever tantivy opens a directory that serves some files, the index holds the documents.\<close>

definition opens_documents ::
  "('i, 'x, 'r, 's, 'f, 'q) reader_api \<Rightarrow> (text_analyzer \<Rightarrow> string \<Rightarrow> string list) \<Rightarrow> (string \<Rightarrow> 'f option)
     \<Rightarrow> (string \<times> bytes) list \<Rightarrow> string \<Rightarrow> 'f \<Rightarrow> ('f, 'q, 'f document) leaf_semantics \<Rightarrow> 'f document list \<Rightarrow> bool" where
  "opens_documents B tokens_of get_field contents id_name id_field S docs \<longleftrightarrow>
     (\<forall>R files d0 d x. serves_files R files d0 contents \<and> ra_open B R files d0 = (d, Inr x) \<longrightarrow>
        serves_files R files d contents
        \<and> holds_documents B tokens_of get_field (\<lambda>d. serves_files R files d contents) id_name id_field S docs x)"

section \<open>What the writer hands over\<close>

text \<open>The successful additions of a run, and the document that tantivy receives for one.\<close>

fun added :: "full_text_index_config \<Rightarrow> (writer_op \<times> (ft_error + unit)) list \<Rightarrow> (i64 \<times> (string \<times> string) list) list" where
  "added c [] = []"
| "added c ((OpAdd row str, Inr _) # tr) = (row, [(default_text_field c, str)]) # added c tr"
| "added c ((OpAddFields row fds, Inr _) # tr) = (row, fds) # added c tr"
| "added c (_ # tr) = added c tr"

definition index_document :: "('f, 'w) full_text_index_writer \<Rightarrow> i64 \<times> (string \<times> string) list \<Rightarrow> 'f document" where
  "index_document w x = U64Value (fw_row_id_field w) (fst x)
     # map (\<lambda>(n, str). TextValue (the (fw_text_fields w n)) str) (snd x)"

definition configured_document :: "full_text_index_config \<Rightarrow> i64 \<times> (string \<times> string) list \<Rightarrow> bool" where
  "configured_document c x \<longleftrightarrow> (\<forall>(n, str) \<in> set (snd x). n \<in> set (text_fields c))"

text \<open>What stays fixed while documents are added.\<close>

definition same_writer :: "('f, 'w) full_text_index_writer \<Rightarrow> ('f, 'w) full_text_index_writer \<Rightarrow> bool" where
  "same_writer w w' \<longleftrightarrow> fw_config w' = fw_config w \<and> fw_row_id_field w' = fw_row_id_field w
     \<and> fw_text_fields w' = fw_text_fields w \<and> fw_state w' = fw_state w"

lemma same_writer_document: "same_writer w w' \<Longrightarrow> index_document w' = index_document w"
  by (simp add: same_writer_def index_document_def fun_eq_iff)

lemma add_document_fields_stored:
  assumes run: "add_document_fields A row fds (w, e) = ((w', e'), r)"
    and st: "fw_state w = Some st" and stores: "stores_documents A (ws_index_writer st) stored"
  shows "same_writer w w'"
    and "stored e' = stored e @ (case r of Inl _ \<Rightarrow> [] | Inr _ \<Rightarrow> [index_document w (row, fds)])"
    and "r = Inr u \<Longrightarrow> configured_document (fw_config w) (row, fds)"
proof -
  show "same_writer w w'"
    using add_document_fields_cases [OF run] by (auto simp: same_writer_def)
  have "stored e' = stored e @ (case r of Inl _ \<Rightarrow> [] | Inr _ \<Rightarrow> [index_document w (row, fds)])
      \<and> (\<forall>u. r = Inr u \<longrightarrow> configured_document (fw_config w) (row, fds))"
  proof (cases "e' = e \<and> (\<exists>err. r = Inl err)")
    case False
    then obtain next_count doc where "checked_add (fw_document_count w) 1 = Some next_count" "\<not> sint row < 0" "fds \<noteq> []"
      and doc: "add_fields w fds [U64Value (fw_row_id_field w) row] = Inr doc"
      using run st by (auto simp: add_document_fields_def split: if_splits option.splits sum.splits)
    moreover obtain e2 r2 where add: "wa_add_document A (ws_index_writer st) doc e = (e2, r2)" by fastforce
    ultimately have "e' = e2 \<and> (case r2 of Inl err \<Rightarrow> r = Inl (Tantivy err) | Inr _ \<Rightarrow> r = Inr ())"
      using run st by (auto simp: add_document_fields_def split: sum.splits)
    moreover have "stored e2 = (case r2 of Inl _ \<Rightarrow> stored e | Inr _ \<Rightarrow> stored e @ [doc])"
      using stores add unfolding stores_documents_def by blast
    ultimately show ?thesis
      using doc by (auto simp: add_fields_Inr index_document_def configured_document_def split: sum.splits)
  qed auto
  then show "stored e' = stored e @ (case r of Inl _ \<Rightarrow> [] | Inr _ \<Rightarrow> [index_document w (row, fds)])"
    "r = Inr u \<Longrightarrow> configured_document (fw_config w) (row, fds)" by blast+
qed

lemma run_documents:
  assumes "writer_run J A W s tr s'" and "fw_state (fst s') = Some st"
    and stores: "stores_documents A (ws_index_writer st) stored"
  shows "same_writer (fst s) (fst s')
     \<and> stored (fst (snd s')) = stored (fst (snd s)) @ map (index_document (fst s)) (added (fw_config (fst s)) tr)
     \<and> list_all (configured_document (fw_config (fst s))) (added (fw_config (fst s)) tr)"
  using assms(1,2)
proof (induction rule: writer_run.induct)
  case (run_Nil s)
  then show ?case by (simp add: same_writer_def)
next
  case (run_Cons op s s1 r tr s')
  obtain w e out w1 e1 out1 where s: "s = (w, e, out)" and s1: "s1 = (w1, e1, out1)" by (metis prod_cases3)
  note IH = run_Cons.IH [OF run_Cons.prems]
  then have "fw_state w1 = Some st" using run_Cons.prems by (simp add: s1 same_writer_def)
  have op: "op \<noteq> OpWrite" using exec_write_finalizes run_Cons.hyps(1) \<open>fw_state w1 = Some st\<close> by (fastforce simp: s1)
  let ?x = "case op of OpAdd row str \<Rightarrow> (row, [(default_text_field (fw_config w), str)]) | OpAddFields row fds \<Rightarrow> (row, fds) | OpWrite \<Rightarrow> (0, [])"
  have run: "add_document_fields A (fst ?x) (snd ?x) (w, e) = ((w1, e1), r)"
    using run_Cons.hyps(1) op by (cases op) (auto simp: s s1 add_document_def split: prod.splits)
  have "fw_state w = Some st"
    using add_document_fields_cases [OF run] \<open>fw_state w1 = Some st\<close> by auto
  note step = add_document_fields_stored [OF run this stores]
  have head: "added c ((op, r) # tr) = (case r of Inl _ \<Rightarrow> [] | Inr _ \<Rightarrow> [?x]) @ added c tr" if "c = fw_config w" for c
    using op that by (cases op; cases r) simp_all
  have "fw_config w1 = fw_config w" using step(1) by (simp add: same_writer_def)
  with IH step show ?case
    using same_writer_document [OF step(1)] head [OF refl] by (cases r) (auto simp: s s1 same_writer_def)
qed

section \<open>What a search finds\<close>

lemma collect_rows_total:
  assumes good: "good d"
    and places: "\<forall>a \<in> set (map snd hits). \<exists>doc. place a = Some doc"
    and columns: "\<And>seg d. good d \<Longrightarrow> \<exists>i. (seg, i) \<in> dom place \<Longrightarrow> \<exists>d' col.
        ra_column B sc seg field d = (d', Inr col) \<and> good d'
        \<and> (\<forall>i doc. place (seg, i) = Some doc \<longrightarrow> col i = column_value id_field doc)"
  shows "\<exists>d' rows. collect_rows B sc field hits d = (d', Inr rows) \<and> good d'
     \<and> map fst rows = map (column_value id_field \<circ> the \<circ> place \<circ> snd) hits"
  using good places
proof (induction hits arbitrary: d)
  case (Cons hit hits)
  obtain score seg i where hit: "hit = (score, seg, i)" by (metis prod_cases3)
  obtain doc where doc: "place (seg, i) = Some doc" using Cons.prems(2) by (auto simp: hit)
  then obtain d1 col where col: "ra_column B sc seg field d = (d1, Inr col)" "good d1" "col i = column_value id_field doc"
    using columns [OF Cons.prems(1), of seg] by blast
  obtain d2 rows where rest: "collect_rows B sc field hits d1 = (d2, Inr rows)" "good d2"
      "map fst rows = map (column_value id_field \<circ> the \<circ> place \<circ> snd) hits"
    using Cons.IH [OF col(2)] Cons.prems(2) by auto
  show ?case using col rest doc by (simp add: hit st_bind_def st_map_err_def)
qed simp

lemma selected_documents:
  assumes "finite (dom place)" and all: "image_mset (the \<circ> place) (mset_set (dom place)) = mset docs"
    and top: "top_docs place P n hits"
  shows "mset (map (g \<circ> the \<circ> place \<circ> snd) hits) \<subseteq># image_mset g (filter_mset P (mset docs))"
    and "length hits = min (unat n) (size (filter_mset P (mset docs)))"
proof -
  let ?A = "{a. \<exists>doc. place a = Some doc \<and> P doc}"
  have A: "?A = {a \<in> dom place. (P \<circ> the \<circ> place) a}" by auto
  have docs: "filter_mset P (mset docs) = image_mset (the \<circ> place) (mset_set ?A)"
    unfolding A all [symmetric] using assms(1) by (simp add: filter_mset_image_mset comp_def filter_mset_mset_set)
  have fin: "finite ?A" unfolding A using assms(1) by simp
  have "mset (map snd hits) = mset_set (set (map snd hits))"
    using top by (simp only: top_docs_def mset_set_set)
  also have "\<dots> \<subseteq># mset_set ?A"
    using top fin by (intro subset_imp_msubset_mset_set) (auto simp: top_docs_def)
  finally have "image_mset (g \<circ> the \<circ> place) (mset (map snd hits)) \<subseteq># image_mset (g \<circ> the \<circ> place) (mset_set ?A)"
    by (rule image_mset_subseteq_mono)
  then show "mset (map (g \<circ> the \<circ> place \<circ> snd) hits) \<subseteq># image_mset g (filter_mset P (mset docs))"
    unfolding docs by (simp add: multiset.map_comp comp_assoc flip: mset_map)
  show "length hits = min (unat n) (size (filter_mset P (mset docs)))"
    using top unfolding docs by (simp add: top_docs_def)
qed

text \<open>A reader over an index that holds the documents, whatever was searched before.\<close>

definition reader_holds ::
  "('i, 'x, 'r, 's, 'f, 'q) reader_api \<Rightarrow> full_text_index_config \<Rightarrow> (string \<rightharpoonup> text_analyzer)
     \<Rightarrow> (text_analyzer \<Rightarrow> string \<Rightarrow> string list) \<Rightarrow> (string \<Rightarrow> 'f option) \<Rightarrow> ('i dir_state \<Rightarrow> bool) \<Rightarrow> 'f
     \<Rightarrow> ('f, 'q, 'f document) leaf_semantics \<Rightarrow> 'f document list \<Rightarrow> ('i, 'x, 'r) reader_state \<Rightarrow> bool" where
  "reader_holds B c registry tokens_of get_field good id_field S docs s \<longleftrightarrow>
     config (rd_metadata (fst s)) = c \<and> rd_registry (fst s) = registry \<and> \<not> rd_lock_poisoned (fst s) \<and> good (snd s)
     \<and> holds_documents B tokens_of get_field good (row_id_field c) id_field S docs (rd_index (fst s))
     \<and> (\<forall>r. rd_reader (fst s) = Some r \<longrightarrow> searches_documents B good (ra_searcher B r) (row_id_field c) id_field S docs)"

lemma searcher_holds:
  assumes "reader_holds B c registry tokens_of get_field good id_field S docs s"
  shows "\<exists>s' sc. searcher B s = (s', Inr sc) \<and> searches_documents B good sc (row_id_field c) id_field S docs
     \<and> reader_holds B c registry tokens_of get_field good id_field S docs s'
     \<and> rd_index (fst s') = rd_index (fst s)"
proof (cases "rd_reader (fst s)")
  case None
  obtain rd d where s: "s = (rd, d)" by fastforce
  obtain d' r where r: "ra_reader B (rd_index rd) d = (d', Inr r)" "good d'"
      "searches_documents B good (ra_searcher B r) (row_id_field c) id_field S docs"
    using assms by (auto simp: s reader_holds_def holds_documents_def)
  then show ?thesis using assms None by (auto simp: s searcher_def reader_holds_def)
next
  case (Some r)
  then show ?thesis using assms by (cases s) (auto simp: searcher_def reader_holds_def)
qed

text \<open>The query is built after the searcher was taken; then the result is a selection of the documents.\<close>

lemma search_selects:
  assumes holds: "reader_holds B c registry tokens_of get_field good id_field S docs s" and limit: "limit \<noteq> 0"
    and json: "from_json J query = Inr q"
    and tree: "build_query (ra_index B (rd_index (fst s)) registry) c q = Inr t"
  shows "\<exists>s' res. search_with_filter J B query limit keep s = (s', Inr res)
     \<and> reader_holds B c registry tokens_of get_field good id_field S docs s'
     \<and> mset (sr_row_ids res) \<subseteq># image_mset (column_value id_field) (filter_mset (doc_selected S id_field keep t) (mset docs))
     \<and> length (sr_row_ids res) = min (unat limit) (size (filter_mset (doc_selected S id_field keep t) (mset docs)))"
proof -
  obtain s1 sc where sc: "searcher B s = (s1, Inr sc)" "searches_documents B good sc (row_id_field c) id_field S docs"
    and holds1: "reader_holds B c registry tokens_of get_field good id_field S docs s1" and index: "rd_index (fst s1) = rd_index (fst s)"
    using searcher_holds [OF holds] by blast
  obtain rd1 d1 where s1: "s1 = (rd1, d1)" by fastforce
  have good: "good d1" using holds1 by (simp add: s1 reader_holds_def)
  have rd: "config (rd_metadata (fst s)) = c" "rd_registry (fst s) = registry" using holds by (simp_all add: reader_holds_def)
  obtain place where place: "finite (dom place)" "image_mset (the \<circ> place) (mset_set (dom place)) = mset docs"
    and search: "\<forall>q keep n d. good d \<and> n \<noteq> 0 \<longrightarrow> (\<exists>d' hits.
            ra_search B sc q (map_option (Pair (row_id_field c)) keep) n d = (d', Inr hits) \<and> good d'
            \<and> top_docs place (doc_selected S id_field keep q) n hits)"
    and column: "\<forall>seg d. good d \<and> (\<exists>i. (seg, i) \<in> dom place) \<longrightarrow> (\<exists>d' col.
            ra_column B sc seg (row_id_field c) d = (d', Inr col) \<and> good d'
            \<and> (\<forall>i doc. place (seg, i) = Some doc \<longrightarrow> col i = column_value id_field doc))"
    using sc(2) unfolding searches_documents_def by (elim exE conjE) (rule that)
  obtain d2 hits where hits: "ra_search B sc t (map_option (Pair (row_id_field c)) keep) limit d1 = (d2, Inr hits)" "good d2"
      "top_docs place (doc_selected S id_field keep t) limit hits"
    using search [rule_format, OF conjI, OF good limit, of t keep] by blast
  have "\<forall>a \<in> set (map snd hits). \<exists>doc. place a = Some doc" using hits(3) by (auto simp: top_docs_def)
  then obtain d3 rows where rows: "collect_rows B sc (row_id_field c) hits d2 = (d3, Inr rows)" "good d3"
      "map fst rows = map (column_value id_field \<circ> the \<circ> place \<circ> snd) hits"
    using collect_rows_total [OF hits(2) _ column [rule_format, OF conjI]] by blast
  have run: "search_with_filter J B query limit keep s
      = ((rd1, d3), Inr \<lparr>sr_row_ids = map fst rows, sr_scores = map snd rows\<rparr>)"
    using limit sc(1) json tree hits(1) rows(1) rd
    by (cases s) (simp add: search_with_filter_def st_bind_def s1 collect_result_def st_map_err_def)
  note found = selected_documents(1) [OF place hits(3), of "column_value id_field"] selected_documents(2) [OF place hits(3)]
  have "length (map fst rows) = length hits" using rows(3) by (metis length_map)
  with run found rows(2,3) holds1 show ?thesis by (auto simp: s1 reader_holds_def)
qed

lemma search_holds:
  assumes "reader_holds B c registry tokens_of get_field good id_field S docs s"
  shows "reader_holds B c registry tokens_of get_field good id_field S docs (fst (search_with_filter J B query limit keep s))"
proof (cases "limit = 0")
  case True
  then show ?thesis using assms by (cases s) (simp add: search_with_filter_def)
next
  case limit: False
  obtain s1 sc where sc: "searcher B s = (s1, Inr sc)"
      "reader_holds B c registry tokens_of get_field good id_field S docs s1"
    using searcher_holds [OF assms] by blast
  have rd: "config (rd_metadata (fst s)) = c" "rd_registry (fst s) = registry" using assms by (simp_all add: reader_holds_def)
  show ?thesis
  proof (cases "res_bind (from_json J query) (build_query (ra_index B (rd_index (fst s)) registry) c)")
    case (Inl err)
    then have "fst (search_with_filter J B query limit keep s) = s1"
      using limit sc(1) rd by (cases s; cases "from_json J query") (auto simp: search_with_filter_def st_bind_def)
    with sc(2) show ?thesis by simp
  next
    case (Inr t)
    then obtain q where "from_json J query = Inr q" "build_query (ra_index B (rd_index (fst s)) registry) c q = Inr t"
      by (auto simp: res_simps)
    from search_selects [OF assms limit this, of keep] show ?thesis by auto
  qed
qed

lemma exec_reader_holds:
  "reader_holds B c registry tokens_of get_field good id_field S docs s \<Longrightarrow>
     reader_holds B c registry tokens_of get_field good id_field S docs (exec_reader J B op s)"
proof (cases op)
  case Prewarm
  assume "reader_holds B c registry tokens_of get_field good id_field S docs s"
  from searcher_holds [OF this] Prewarm show ?thesis by (auto simp: prewarm_def st_bind_def)
qed (auto simp: search_def search_with_roaring_filter_def st_bind_def search_holds split: sum.splits)

lemma exec_readers_hold:
  "reader_holds B c registry tokens_of get_field good id_field S docs s \<Longrightarrow>
     reader_holds B c registry tokens_of get_field good id_field S docs (fold (exec_reader J B) ops s)"
  by (induction ops arbitrary: s) (simp_all add: exec_reader_holds)

section \<open>From the additions to the results\<close>

text \<open>
  The specification of a search: the row ids of the additions whose columns the query asks for, as
  a multiset, since row ids may repeat. A column contains the tokens of all its texts.
\<close>

definition column_words :: "(string \<Rightarrow> string list) \<Rightarrow> (string \<times> string) list text_semantics" where
  "column_words analyze = \<lparr>has_token = (\<lambda>n t fds. \<exists>str. (n, str) \<in> set fds \<and> t \<in> set (analyze str)),
     has_similar = (\<lambda>_ _ _ _ _ _. False), has_phrase = (\<lambda>_ _ _ _. False)\<rparr>"

definition matching_rows ::
  "full_text_index_config \<Rightarrow> (string \<Rightarrow> string list) \<Rightarrow> (i64 \<times> (string \<times> string) list) list \<Rightarrow> query_spec
     \<Rightarrow> (u64 \<Rightarrow> bool) option \<Rightarrow> i64 multiset" where
  "matching_rows c analyze additions q keep =
     image_mset fst (filter_mset (\<lambda>x. query_holds c analyze (column_words analyze) (snd x) q
       \<and> (case keep of None \<Rightarrow> True | Some p \<Rightarrow> p (fst x))) (mset additions))"

lemma writer_new_fields:
  assumes "writer_new A E c e = (e', Inr w)" and "n \<in> set (text_fields c)"
  shows "fw_text_fields w n = wa_get_field A (build_schema c) n \<and> fw_text_fields w n \<noteq> None"
proof -
  let ?get = "wa_get_field A (build_schema c)"
  obtain tf where "text_field_map ?get c = Inr tf" and w: "fw_text_fields w = map_of tf"
    using assms(1) by (auto simp: writer_new_def Let_def res_simps)
  then have "list_all2 (\<lambda>n x. \<exists>f. ?get n = Some f \<and> x = (n, f)) (indexed_text_fields c) tf"
    by (auto simp: text_field_map_def res_collect_Inr res_simps elim!: list_all2_mono)
  then have all: "tf = map (\<lambda>n. (n, the (?get n))) (indexed_text_fields c)" "\<forall>n \<in> set (indexed_text_fields c). ?get n \<noteq> None"
    by (induction rule: list_all2_induct) auto
  have "n \<in> set (indexed_text_fields c)" using assms(2) by (simp add: indexed_text_fields_def)
  then show ?thesis using all by (simp add: w map_of_map_restrict)
qed

lemma selected_additions:
  assumes fields: "\<And>n. n \<in> set (text_fields c) \<Longrightarrow> fw_text_fields w n = get_field n \<and> fw_text_fields w n \<noteq> None"
    and inj: "inj_on get_field (set (text_fields c))" and names: "plain_names c"
    and ix: "ti_get_field ix = get_field" "index_tokens ix c = analyze" and S: "sem_term S = doc_terms analyze"
    and q: "exact_ok c q" "build_query ix c q = Inr t" and x: "configured_document c x"
  shows "doc_selected S (fw_row_id_field w) keep t (index_document w x) \<longleftrightarrow>
     query_holds c analyze (column_words analyze) (snd x) q \<and> (case keep of None \<Rightarrow> True | Some p \<Rightarrow> p (fst x))"
proof -
  have token: "has_token (text_meaning ix S) n t (index_document w x) \<longleftrightarrow> has_token (column_words analyze) n t (snd x)"
    if n: "n \<in> set (text_fields c)" for n t
  proof -
    have same: "the (fw_text_fields w m) = the (get_field n) \<longleftrightarrow> m = n" if "(m, str) \<in> set (snd x)" for m str
    proof -
      have m: "m \<in> set (text_fields c)" using x that by (auto simp: configured_document_def)
      then show ?thesis using fields [OF m] fields [OF n] inj_onD [OF inj _ m n] by (metis option.expand)
    qed
    have "TextValue (the (get_field n)) str \<in> set (index_document w x) \<longleftrightarrow> (n, str) \<in> set (snd x)" for str
      using same fields [OF n] by (force simp: index_document_def)
    then show ?thesis by (simp add: text_meaning_def ix S doc_terms_def column_words_def)
  qed
  have "tmatches S (index_document w x) t \<longleftrightarrow> query_holds c analyze (text_meaning ix S) (index_document w x) q"
    using build_query_holds [OF q(2)] ix(2) by simp
  also have "\<dots> \<longleftrightarrow> query_holds c analyze (column_words analyze) (snd x) q"
    by (rule exact_holds_cong [OF names q(1) token])
  finally have "tmatches S (index_document w x) t \<longleftrightarrow> query_holds c analyze (column_words analyze) (snd x) q" .
  moreover have "column_value (fw_row_id_field w) (index_document w x) = fst x" by (simp add: index_document_def)
  ultimately show ?thesis by (simp only: doc_selected_def)
qed

lemma found_rows:
  assumes "list_all (configured_document c) xs"
    and "\<And>x. configured_document c x \<Longrightarrow> P (index_document w x) \<longleftrightarrow> Q x"
  shows "image_mset (column_value (fw_row_id_field w)) (filter_mset P (mset (map (index_document w) xs)))
     = image_mset fst (filter_mset Q (mset xs))"
  using assms(1)
proof (induction xs)
  case (Cons x xs)
  then show ?case using assms(2) [of x] by (simp add: index_document_def)
qed simp

text \<open>
  The row ids found by a search are those of the added documents that the query asks for: after any
  sequence of additions, written through any output that keeps its contract and opened from any
  input that serves the archive, every search with a valid exact query succeeds, whatever was searched
  before, and returns row ids of matching additions that pass the filter, each at most as often as
  it was added, and all of them if the limit allows. The tokens are those of the analyzer that the
  configuration of the writer describes. This rests on the contracts of tantivy stated above, on the
  names of the text fields having no surrounding blanks, and on what the chain relies on.
\<close>

lemma chain_search:
  assumes new: "writer_new A E c e = (e0, Inr w0)" and analyzer: "build_text_analyzer E (tokenizer c) = Inr a"
    and names: "\<forall>n \<in> set (text_fields c). trim n = n" "inj_on (wa_get_field A (build_schema c)) (set (text_fields c))"
    and run: "writer_run J A W' (w0, e0, out0) tr (w, e1, out1)" "fw_state w = Some st"
    and stores: "stores_documents A (ws_index_writer st) stored" "stored e0 = []" "stored e2 = stored e1"
    and commit: "st_bind (wa_commit A (ws_index_writer st)) (\<lambda>_. wa_wait_merging_threads A (ws_index_writer st)) e1
          = (e2, Inr ())"
    and ready: "index_ready J A w e2 (ws_temp_dir st) fs ds es json" and readable: "readable_by J A B w fs ds es json"
    and terms: "sem_term S = doc_terms (tokens_of a)"
    and index: "opens_documents B tokens_of (wa_get_field A (build_schema c)) (zip (map if_name fs) ds)
        (row_id_field c) (fw_row_id_field w) S (stored e2)"
    and inp: "total_seek_read inner (envelope_prefix json @ concat ds)"
  shows "\<exists>rd d. reader_open J B E inner i = Inr (rd, d)
     \<and> (\<forall>ops query q keep limit. from_json J query = Inr q \<and> exact_ok c q \<and> limit \<noteq> 0 \<longrightarrow>
          (\<exists>s' res. search_with_filter J B query limit keep (fold (exec_reader J B) ops (rd, d)) = (s', Inr res)
             \<and> mset (sr_row_ids res) \<subseteq># matching_rows c (tokens_of a) (added c tr) q keep
             \<and> length (sr_row_ids res) = min (unat limit) (size (matching_rows c (tokens_of a) (added c tr) q keep))))"
proof -
  let ?get = "wa_get_field A (build_schema c)" and ?contents = "zip (map if_name fs) ds"
  let ?registry = "[tokenizer_name (tokenizer c) \<mapsto> a]"
  note writer = chain_writer [OF new run(1)]
  obtain rd d where open_it: "reader_open J B E inner i = Inr (rd, d)"
    and metadata: "rd_metadata rd = \<lparr>config = fw_config w, document_count = fw_document_count w, tantivy_version = wa_version A\<rparr>"
    and fresh: "fresh_reader B E (metered_pread inner) ?contents (rd_metadata rd) rd d"
    using chain_open [OF inp writer(2,3) ready readable, of i] by blast
  have meta: "config (rd_metadata rd) = c" using metadata writer(1) by simp
  obtain files d0 where dir: "serves_files (metered_pread inner) files d0 ?contents"
      "ra_open B (metered_pread inner) files d0 = (d, Inr (rd_index rd))"
    using fresh by (auto simp: fresh_reader_def)
  let ?good = "\<lambda>d. serves_files (metered_pread inner) files d ?contents"
  let ?holds = "reader_holds B c ?registry tokens_of ?get ?good (fw_row_id_field w) S (stored e2)"
  have registry: "rd_registry rd = ?registry"
    using fresh analyzer meta by (simp add: fresh_reader_def register_tokenizer_def)
  have opened: "?holds (rd, d)"
    using index dir fresh meta registry unfolding opens_documents_def reader_holds_def fresh_reader_def by force
  have valid: "validate_config c = Inr ()" using writer(1,2) by simp
  have plain: "plain_names c"
    using valid names(1) by (auto simp: plain_names_def validate_config_Inr)
  have docs: "same_writer w0 w" "stored e2 = map (index_document w) (added c tr)"
      "list_all (configured_document c) (added c tr)"
    using run_documents [OF run(1) _ stores(1)] run(2) stores(2,3) writer_new_Inr [OF new] same_writer_document [of w0 w] by auto
  have fields: "fw_text_fields w n = ?get n \<and> fw_text_fields w n \<noteq> None" if "n \<in> set (text_fields c)" for n
    using writer_new_fields [OF new that] docs(1) unfolding same_writer_def by metis
  have known: "?get n \<noteq> None" if "n \<in> set (text_fields c)" for n using fields [OF that] by metis
  have serves: "index_serves (ra_index B (rd_index (fst s)) ?registry) c"
      "ti_get_field (ra_index B (rd_index (fst s)) ?registry) = ?get"
      "index_tokens (ra_index B (rd_index (fst s)) ?registry) c = tokens_of a" if "?holds s" for s
  proof -
    have ix: "ti_get_field (ra_index B (rd_index (fst s)) ?registry) = ?get"
        "ti_tokens (ra_index B (rd_index (fst s)) ?registry) = (\<lambda>n. map_option tokens_of (?registry n))"
      using that unfolding reader_holds_def holds_documents_def by blast+
    then show "index_serves (ra_index B (rd_index (fst s)) ?registry) c"
      "index_tokens (ra_index B (rd_index (fst s)) ?registry) c = tokens_of a"
      "ti_get_field (ra_index B (rd_index (fst s)) ?registry) = ?get"
      using plain known unfolding index_serves_def plain_names_def index_tokens_def by simp_all
  qed
  have "\<exists>s' res. search_with_filter J B query limit keep (fold (exec_reader J B) ops (rd, d)) = (s', Inr res)
      \<and> mset (sr_row_ids res) \<subseteq># matching_rows c (tokens_of a) (added c tr) q keep
      \<and> length (sr_row_ids res) = min (unat limit) (size (matching_rows c (tokens_of a) (added c tr) q keep))"
    if q: "from_json J query = Inr q" "exact_ok c q" and limit: "limit \<noteq> 0" for ops query q keep limit
  proof -
    let ?s = "fold (exec_reader J B) ops (rd, d)"
    have holds: "?holds ?s" by (rule exec_readers_hold [OF opened])
    let ?ix = "ra_index B (rd_index (fst ?s)) ?registry"
    obtain t where t: "build_query ?ix c q = Inr t"
      using query_builds [OF serves(1) [OF holds]] exact_spec_ok [OF q(2)] by blast
    have rows: "image_mset (column_value (fw_row_id_field w)) (filter_mset (doc_selected S (fw_row_id_field w) keep t) (mset (stored e2)))
        = matching_rows c (tokens_of a) (added c tr) q keep"
      unfolding docs(2) matching_rows_def
      by (rule found_rows [OF docs(3)])
        (rule selected_additions [OF fields names(2) plain serves(2,3) [OF holds] terms q(2) t])
    from search_selects [OF holds limit q(1) t, of keep] show ?thesis
      unfolding rows [symmetric] by auto
  qed
  with open_it show ?thesis by blast
qed

section \<open>A small engine that keeps the contracts\<close>

text \<open>One segment with the given documents; a search tries every document in turn.\<close>

definition space_tokens :: "text_analyzer \<Rightarrow> string \<Rightarrow> string list" where
  "space_tokens a str = filter (\<lambda>w. w \<noteq> []) (split_on (\<lambda>ch. ch = CHR '' '') str)"

definition exact_semantics :: "(string \<Rightarrow> string list) \<Rightarrow> ('f, 'q, 'f document) leaf_semantics" where
  "exact_semantics analyze = \<lparr>sem_term = doc_terms analyze, sem_fuzzy = (\<lambda>_ _ _ _ _ _. False), sem_parsed = (\<lambda>_ _. False)\<rparr>"

definition document_engine ::
  "(string \<Rightarrow> 'f option) \<Rightarrow> 'f \<Rightarrow> text_analyzer \<Rightarrow> 'f document list \<Rightarrow> ('i, unit, unit, unit, 'f, string) reader_api" where
  "document_engine get_field id_field a docs = \<lparr>
     ra_open = (\<lambda>_ _ d. (d, Inr ())),
     ra_index = (\<lambda>_ registry. \<lparr>ti_get_field = get_field, ti_tokens = (\<lambda>n. map_option space_tokens (registry n)),
        ti_parse = (\<lambda>_ str. Inr str)\<rparr>),
     ra_reader = (\<lambda>_ d. (d, Inr ())),
     ra_searcher = (\<lambda>_. ()),
     ra_search = (\<lambda>_ q keep n d. (d, Inr (take (unat n) (map (\<lambda>i. (f32_one, 0, of_nat i))
        (filter (\<lambda>i. doc_selected (exact_semantics (space_tokens a)) id_field (map_option snd keep) q (docs ! i)) [0..<length docs]))))),
     ra_column = (\<lambda>_ _ _ d. (d, Inr (\<lambda>i. column_value id_field (docs ! unat i)))),
     ra_roaring = (\<lambda>bs. Inr (\<lambda>r. r \<in> set (map ucast bs))),
     ra_version = ''0.26.1''\<rparr>"

definition doc_place :: "'f document list \<Rightarrow> doc_address \<rightharpoonup> 'f document" where
  "doc_place docs a = (if fst a = 0 \<and> unat (snd a) < length docs then Some (docs ! unat (snd a)) else None)"

lemma unat_of_nat_u32: "n < 2 ^ 32 \<Longrightarrow> unat (of_nat n :: u32) = n"
  by (simp add: unat_of_nat take_bit_nat_eq_self)

lemma place_index:
  assumes "length docs < 2 ^ 32" and "i < length docs"
  shows "doc_place docs (0, of_nat i) = Some (docs ! i)"
  using assms unat_of_nat_u32 [of i] by (simp add: doc_place_def)

lemma place_matching:
  assumes "length docs < 2 ^ 32"
  shows "{a. \<exists>doc. doc_place docs a = Some doc \<and> P doc} = (\<lambda>i. (0, of_nat i)) ` {i. i < length docs \<and> P (docs ! i)}"
proof (intro equalityI subsetI)
  fix a
  assume "a \<in> {a. \<exists>doc. doc_place docs a = Some doc \<and> P doc}"
  then have "fst a = 0" "unat (snd a) < length docs" "P (docs ! unat (snd a))"
    by (auto simp: doc_place_def split: if_splits)
  then show "a \<in> (\<lambda>i. (0, of_nat i)) ` {i. i < length docs \<and> P (docs ! i)}"
    by (intro image_eqI [of _ _ "unat (snd a)"]) (cases a, simp_all)
qed (use place_index [OF assms] in auto)

lemma place_inj: "length docs < 2 ^ 32 \<Longrightarrow> inj_on (\<lambda>i. (0 :: u32, of_nat i :: u32)) {i. i < length docs \<and> P i}"
  by (rule inj_onI) (metis (mono_tags, lifting) mem_Collect_eq order_less_trans prod.inject unat_of_nat_u32)

lemma place_documents:
  assumes "length docs < 2 ^ 32"
  shows "finite (dom (doc_place docs))" and "image_mset (the \<circ> doc_place docs) (mset_set (dom (doc_place docs))) = mset docs"
proof -
  have dom: "dom (doc_place docs) = (\<lambda>i. (0, of_nat i)) ` {i. i < length docs}"
    using place_matching [OF assms, of "\<lambda>_. True"] by (auto simp: dom_def)
  then show "finite (dom (doc_place docs))" by simp
  have "mset_set (dom (doc_place docs)) = image_mset (\<lambda>i. (0, of_nat i)) (mset_set {i. i < length docs})"
    unfolding dom using place_inj [OF assms, of "\<lambda>_. True"] by (simp add: image_mset_mset_set)
  then have "image_mset (the \<circ> doc_place docs) (mset_set (dom (doc_place docs)))
      = image_mset ((!) docs) (mset_set {i. i < length docs})"
    using place_index [OF assms] by (auto simp: multiset.map_comp intro!: image_mset_cong)
  also have "mset_set {i. i < length docs} = mset [0..<length docs]"
    by (metis atLeast_upt lessThan_def mset_set_upto_eq_mset_upto)
  finally show "image_mset (the \<circ> doc_place docs) (mset_set (dom (doc_place docs))) = mset docs"
    by (metis map_nth mset_map)
qed

lemma engine_holds:
  assumes "length docs < 2 ^ 32"
  shows "holds_documents (document_engine get_field id_field a docs) space_tokens get_field good id_name id_field
     (exact_semantics (space_tokens a)) docs x"
proof -
  let ?B = "document_engine get_field id_field a docs" and ?S = "exact_semantics (space_tokens a)"
  have "top_docs (doc_place docs) P n (take (unat n) (map (\<lambda>i. (f32_one, 0, of_nat i)) (filter (\<lambda>i. P (docs ! i)) [0..<length docs])))"
    for P n
  proof -
    let ?is = "filter (\<lambda>i. P (docs ! i)) [0..<length docs]" and ?f = "\<lambda>i. (0 :: u32, of_nat i :: u32)"
    have set: "set ?is = {i. i < length docs \<and> P (docs ! i)}" by auto
    have "distinct (take (unat n) (map ?f ?is))"
      using place_inj [OF assms, of "\<lambda>i. P (docs ! i)"] by (intro distinct_take) (simp add: distinct_map set)
    moreover have "card {a. \<exists>doc. doc_place docs a = Some doc \<and> P doc} = card (set ?is)"
      unfolding place_matching [OF assms] set by (rule card_image [OF place_inj [OF assms]])
    moreover have "card (set ?is) = length ?is" by (rule distinct_card) simp
    ultimately show ?thesis
      using place_index [OF assms] by (auto simp: top_docs_def take_map comp_def min.commute dest!: in_set_takeD)
  qed
  moreover have "\<exists>hits. ra_search ?B sc q (map_option (Pair id_name) keep) n d = (d, Inr hits)
      \<and> hits = take (unat n) (map (\<lambda>i. (f32_one, 0, of_nat i)) (filter (\<lambda>i. doc_selected ?S id_field keep q (docs ! i)) [0..<length docs]))"
    for sc q keep n d
    by (simp add: document_engine_def option.map_comp comp_def option.map_ident)
  moreover have "column_value id_field (docs ! unat i) = column_value id_field doc" if "doc_place docs (seg, i) = Some doc" for seg i doc
    using that by (auto simp: doc_place_def split: if_splits)
  ultimately have "searches_documents ?B good sc id_name id_field ?S docs" for sc
    unfolding searches_documents_def using place_documents [OF assms]
    by (intro exI [of _ "doc_place docs"] conjI) (assumption, assumption, blast, simp add: document_engine_def)
  then show ?thesis by (simp add: holds_documents_def) (simp add: document_engine_def)
qed

lemma engine_open: "ra_open (document_engine get_field id_field a docs) R files d = (d, Inr ())"
  by (simp add: document_engine_def)

lemma engine_opens:
  assumes "length docs < 2 ^ 32"
  shows "opens_documents (document_engine get_field id_field a docs) space_tokens get_field contents id_name id_field
     (exact_semantics (space_tokens a)) docs"
  by (simp add: opens_documents_def engine_open engine_holds [OF assms])

section \<open>A field that is indexed and not searched\<close>

text \<open>
  C30. A text field whose name has surrounding blanks is accepted by the configuration and indexed:
  adding a text for it hands that text to tantivy. But searches do not see it: for every query that
  is accepted, of any form, two documents that look the same in all other text columns match alike,
  whatever they have in this one. The one exception is an index with no other text column, when a
  phrase or a multi-match leaves its column blank; then the configured name is used as it is. And a
  match query that names the column is refused, unless the trimmed name is a column of its own.
\<close>

theorem blank_padded_field_unsearchable:
  assumes f: "f \<in> set (text_fields c)" "trim f \<noteq> f"
    and w: "writer_wf w" "fw_config w = c" "fw_state w = Some st"
  shows "(\<forall>row str e e'. 0 \<le> sint row \<and> unat (fw_document_count w) + 1 < 2 ^ 64
        \<and> wa_add_document A (ws_index_writer st)
            [U64Value (fw_row_id_field w) row, TextValue (the (fw_text_fields w f)) str] e = (e', Inr ()) \<longrightarrow>
        add_document_fields A row [(f, str)] (w, e) = ((w\<lparr>fw_document_count := fw_document_count w + 1\<rparr>, e'), Inr ()))
   \<and> (\<forall>q t d d'. build_query ix c q = Inr t \<and> (set (text_fields c) \<noteq> {f} \<or> names_columns q)
        \<and> (\<forall>n \<in> set (text_fields c) - {f}. same_column (text_meaning ix S) n d d') \<longrightarrow>
        (tmatches S d t \<longleftrightarrow> tmatches S d' t))
   \<and> (\<forall>terms op boost fuzz me pl t. trim f \<notin> set (text_fields c) \<longrightarrow>
        build_query ix c (QMatch (Some f) terms op boost fuzz me pl) \<noteq> Inr t)"
proof (intro conjI allI impI; (elim conjE)?)
  have valid: "\<forall>n \<in> set (text_fields c). \<not> is_blank n"
    using w(1,2) by (auto simp: writer_wf_def validate_config_Inr)
  show "add_document_fields A row [(f, str)] (w, e) = ((w\<lparr>fw_document_count := fw_document_count w + 1\<rparr>, e'), Inr ())"
    if "0 \<le> sint row" "unat (fw_document_count w) + 1 < 2 ^ 64"
      "wa_add_document A (ws_index_writer st) [U64Value (fw_row_id_field w) row, TextValue (the (fw_text_fields w f)) str] e = (e', Inr ())"
    for row str e e'
  proof -
    obtain g where g: "fw_text_fields w f = Some g" using w f(1) by (auto simp: writer_wf_def)
    have "validate_indexed_field (fw_config w) f = Inr ()"
      using validate_indexed_field_Inr [of "fw_config w" f "()"] valid f(1) w(2) by simp
    with that g w(3) show ?thesis by (simp add: add_document_fields_def checked_add_def)
  qed
  show "tmatches S d t \<longleftrightarrow> tmatches S d' t"
    if "build_query ix c q = Inr t" "set (text_fields c) \<noteq> {f} \<or> names_columns q"
      "\<forall>n \<in> set (text_fields c) - {f}. same_column (text_meaning ix S) n d d'" for q t d d'
    using padded_column_ignored [OF valid f(2) that(3,2,1)] build_query_holds [OF that(1), of S] by simp
  show "build_query ix c (QMatch (Some f) terms op boost fuzz me pl) \<noteq> Inr t"
    if "trim f \<notin> set (text_fields c)" for terms op boost fuzz me pl t
    using that valid f(1) by (auto simp: res_simps resolve_match_fields_def resolve_text_field_def given_column_def indexed_text_fields_def)
qed

text \<open>An index with a padded and a plain field, and two documents that differ in the padded one.\<close>

definition padded_config :: full_text_index_config where
  "padded_config = with_text_fields ['' text'', ''body''] default_config"

definition padded_writer :: "(nat, unit) full_text_index_writer" where
  "padded_writer = (example_writer 0 True)\<lparr>fw_config := padded_config, fw_text_fields := ['' text'' \<mapsto> 1, ''body'' \<mapsto> 2]\<rparr>"

definition padded_index :: "(nat, string) tantivy_index" where
  "padded_index = example_index\<lparr>ti_get_field := ['' text'' \<mapsto> 1, ''body'' \<mapsto> 2]\<rparr>"

theorem blank_padded_field_unsearchable_witness:
  "add_document_fields example_api 7 [('' text'', ''rust'')] (padded_writer, [])
     = ((padded_writer\<lparr>fw_document_count := 1\<rparr>, [[U64Value 0 7, TextValue 1 ''rust'']]), Inr ())
   \<and> (\<exists>t. build_query padded_index padded_config (QMatch (Some ''body'') ''rust'' OpOr f32_one (Some 0) 50 0) = Inr t
        \<and> (tmatches word_semantics [(1, [''rust''])] t \<longleftrightarrow> tmatches word_semantics [] t))
   \<and> (\<forall>t0. build_query padded_index padded_config (QMatch (Some '' text'') ''rust'' OpOr f32_one (Some 0) 50 0) \<noteq> Inr t0)"
proof -
  have names: "trim '' text'' = ''text''" "trim ''body'' = ''body''" "tokenizer_name (tokenizer padded_config) = ''paimon_custom''"
    "validate_config padded_config = Inr ()" "text_fields padded_config = ['' text'', ''body'']" by code_simp+
  have w: "writer_wf padded_writer" "fw_config padded_writer = padded_config"
      "fw_state padded_writer = Some \<lparr>ws_index_writer = (), ws_temp_dir = ''t''\<rparr>"
    using names(4,5) by (simp_all add: writer_wf_def padded_writer_def example_writer_def)
  have f: "'' text'' \<in> set (text_fields padded_config)" "trim '' text'' \<noteq> '' text''" by (simp_all add: names)
  note all = blank_padded_field_unsearchable [OF f w, of example_api padded_index word_semantics]
  have one: "add_document_fields example_api 7 [('' text'', ''rust'')] (padded_writer, [])
     = ((padded_writer\<lparr>fw_document_count := 1\<rparr>, [[U64Value 0 7, TextValue 1 ''rust'']]), Inr ())"
    using conjunct1 [OF all, rule_format, of 7 "''rust''" "[]" "[[U64Value 0 7, TextValue 1 ''rust'']]"]
    by (simp add: padded_writer_def example_writer_def example_api_def)
  obtain t where t: "build_query padded_index padded_config (QMatch (Some ''body'') ''rust'' OpOr f32_one (Some 0) 50 0) = Inr t"
  proof -
    have "validate_boost f32_one = Inr ()" using boost_ok_one by (simp add: validate_boost_Inr boost_ok_def)
    then show thesis
      using that by (cases "f32_lt f32_EPSILON (f32_abs (f32_sub f32_one f32_one))")
        (simp_all add: validate_match_options_def resolve_match_fields_def resolve_text_field_def given_column_def names
          indexed_text_fields_def dedup_strs_def padded_index_def example_index_def build_field_match_query_def analyze_terms_def
          build_tokens_query_def build_token_query_def Let_def)
  qed
  have "same_column (text_meaning padded_index word_semantics) n [(1, [''rust''])] []" if "n \<in> set (text_fields padded_config) - {'' text''}" for n
    using that by (auto simp: names same_column_def text_meaning_def word_semantics_def padded_index_def)
  then have "tmatches word_semantics [(1, [''rust''])] t \<longleftrightarrow> tmatches word_semantics [] t"
    using conjunct1 [OF conjunct2 [OF all], rule_format, OF conjI, OF t, OF conjI] by (simp add: names)
  moreover have "build_query padded_index padded_config (QMatch (Some '' text'') ''rust'' OpOr f32_one (Some 0) 50 0) \<noteq> Inr t0" for t0
    using conjunct2 [OF conjunct2 [OF all], rule_format] by (simp add: names)
  ultimately show ?thesis using one t by blast
qed

end
