(* ===== verification/DocSets.thy ===== *)
theory DocSets
  imports QueryBuilder
begin

text \<open>
  Document cursors and the demoting scorer of \<^verbatim>\<open>core/src/index.rs\<close>: \<^verbatim>\<open>SortedDocSet\<close>,
  \<^verbatim>\<open>matches_doc\<close>, \<^verbatim>\<open>DemoteQuery\<close> with its weight, scorer and explanation. The contract of
  tantivy's traits \<^verbatim>\<open>DocSet\<close> and \<^verbatim>\<open>Scorer\<close> is a locale over the operations: a cursor stands
  for the strictly increasing list of the documents still to come. tantivy's end marker
  \<^verbatim>\<open>TERMINATED\<close> is the parameter \<open>T\<close>, larger than every document.
\<close>

section \<open>Operations of a cursor\<close>

type_synonym doc_id = u32

record 's docset_ops =
  ds_doc :: "'s \<Rightarrow> doc_id"
  ds_advance :: "'s \<Rightarrow> 's \<times> doc_id"
  ds_seek :: "doc_id \<Rightarrow> 's \<Rightarrow> 's \<times> doc_id"
  ds_size_hint :: "'s \<Rightarrow> u32"

record 's scorer_ops = "'s docset_ops" +
  sc_score :: "'s \<Rightarrow> 's \<times> f32"

section \<open>The sorted document set\<close>

record sorted_doc_set =
  sds_docs :: "doc_id list"
  sds_cursor :: nat
  sds_doc :: doc_id

definition doc_at :: "doc_id \<Rightarrow> doc_id list \<Rightarrow> nat \<Rightarrow> doc_id" where
  "doc_at T docs i = (if i < length docs then docs ! i else T)"

definition sds_new :: "doc_id \<Rightarrow> doc_id list \<Rightarrow> sorted_doc_set" where
  "sds_new T docs = \<lparr>sds_docs = docs, sds_cursor = 0, sds_doc = doc_at T docs 0\<rparr>"

definition sds_advance :: "doc_id \<Rightarrow> sorted_doc_set \<Rightarrow> sorted_doc_set \<times> doc_id" where
  "sds_advance T s =
     (if sds_doc s = T then (s, T)
      else let c = sds_cursor s + 1; d = doc_at T (sds_docs s) c
           in (s\<lparr>sds_cursor := c, sds_doc := d\<rparr>, d))"

text \<open>The number of leading documents below the target, \<^verbatim>\<open>partition_point\<close> on the rest.\<close>

definition sds_seek :: "doc_id \<Rightarrow> doc_id \<Rightarrow> sorted_doc_set \<Rightarrow> sorted_doc_set \<times> doc_id" where
  "sds_seek T target s =
     (if target \<le> sds_doc s then (s, sds_doc s)
      else let relative = length (takeWhile (\<lambda>d. d < target) (drop (sds_cursor s) (sds_docs s)));
               c = sds_cursor s + relative; d = doc_at T (sds_docs s) c
           in (s\<lparr>sds_cursor := c, sds_doc := d\<rparr>, d))"

definition sds_size_hint :: "doc_id \<Rightarrow> sorted_doc_set \<Rightarrow> u32" where
  "sds_size_hint T s =
     (if sds_doc s = T then 0 else of_nat (length (sds_docs s) - sds_cursor s))"

definition sds_ops :: "doc_id \<Rightarrow> sorted_doc_set docset_ops" where
  "sds_ops T = \<lparr>ds_doc = sds_doc, ds_advance = sds_advance T, ds_seek = sds_seek T,
     ds_size_hint = sds_size_hint T\<rparr>"

section \<open>Membership of a document\<close>

definition matches_doc :: "doc_id \<Rightarrow> ('s, 'z) docset_ops_scheme \<Rightarrow> doc_id \<Rightarrow> 's \<Rightarrow> 's \<times> bool" where
  "matches_doc T D doc s =
     (if doc = T then (s, False)
      else let current = ds_doc D s in
        if current < doc then (case ds_seek D doc s of (s', d) \<Rightarrow> (s', d = doc))
        else (s, current = doc))"

section \<open>The demoting query\<close>

text \<open>
  A weight is whatever tantivy makes of a query; \<open>weight_of\<close> is \<^verbatim>\<open>Query::weight\<close> with scoring
  enabled or not. Without scoring the demotion is not needed.
\<close>

datatype 'w demote_weight = PositiveOnly 'w | DemoteWeight 'w 'w f32

definition demote_query_weight ::
  "('q \<Rightarrow> bool \<Rightarrow> tantivy_error + 'w) \<Rightarrow> 'q \<Rightarrow> 'q \<Rightarrow> f32 \<Rightarrow> bool \<Rightarrow> tantivy_error + 'w demote_weight" where
  "demote_query_weight weight_of positive negative negative_boost scoring =
     res_bind (weight_of positive scoring) (\<lambda>pw.
     if \<not> scoring then Inr (PositiveOnly pw)
     else res_bind (weight_of negative False) (\<lambda>nw. Inr (DemoteWeight pw nw negative_boost)))"

text \<open>
  The terms it shows a visitor, in order, with the flag that asks for positions: those of the
  positive query and then those of the negative one.
\<close>

definition demote_query_terms :: "('q \<Rightarrow> ('t \<times> bool) list) \<Rightarrow> 'q \<Rightarrow> 'q \<Rightarrow> ('t \<times> bool) list" where
  "demote_query_terms query_terms positive negative = query_terms positive @ query_terms negative"

record ('p, 'n) demote_scorer =
  dm_positive :: 'p
  dm_negative :: 'n
  dm_negative_boost :: f32

definition demote_weight_scorer ::
  "('w \<Rightarrow> f32 \<Rightarrow> tantivy_error + 'p) \<Rightarrow> ('w \<Rightarrow> f32 \<Rightarrow> tantivy_error + 'n) \<Rightarrow> 'w \<Rightarrow> 'w \<Rightarrow> f32 \<Rightarrow> f32
     \<Rightarrow> tantivy_error + ('p, 'n) demote_scorer" where
  "demote_weight_scorer scorer_p scorer_n pw nw negative_boost boost =
     res_bind (scorer_p pw boost) (\<lambda>p.
     res_bind (scorer_n nw f32_one) (\<lambda>n.
     Inr \<lparr>dm_positive = p, dm_negative = n, dm_negative_boost = negative_boost\<rparr>))"

definition demote_advance ::
  "('p, 'y) scorer_ops_scheme \<Rightarrow> ('p, 'n) demote_scorer \<Rightarrow> ('p, 'n) demote_scorer \<times> doc_id" where
  "demote_advance P s = (case ds_advance P (dm_positive s) of (p, d) \<Rightarrow> (s\<lparr>dm_positive := p\<rparr>, d))"

definition demote_seek ::
  "('p, 'y) scorer_ops_scheme \<Rightarrow> doc_id \<Rightarrow> ('p, 'n) demote_scorer \<Rightarrow> ('p, 'n) demote_scorer \<times> doc_id" where
  "demote_seek P target s = (case ds_seek P target (dm_positive s) of (p, d) \<Rightarrow> (s\<lparr>dm_positive := p\<rparr>, d))"

definition demote_doc :: "('p, 'y) scorer_ops_scheme \<Rightarrow> ('p, 'n) demote_scorer \<Rightarrow> doc_id" where
  "demote_doc P s = ds_doc P (dm_positive s)"

definition demote_size_hint :: "('p, 'y) scorer_ops_scheme \<Rightarrow> ('p, 'n) demote_scorer \<Rightarrow> u32" where
  "demote_size_hint P s = ds_size_hint P (dm_positive s)"

definition demote_score ::
  "doc_id \<Rightarrow> ('p, 'y) scorer_ops_scheme \<Rightarrow> ('n, 'z) docset_ops_scheme \<Rightarrow> ('p, 'n) demote_scorer \<Rightarrow> ('p, 'n) demote_scorer \<times> f32" where
  "demote_score T P N s =
     (case sc_score P (dm_positive s) of (p, positive_score) \<Rightarrow>
      case matches_doc T N (ds_doc P p) (dm_negative s) of (n, matched) \<Rightarrow>
        (s\<lparr>dm_positive := p, dm_negative := n\<rparr>,
         if matched then f32_mul positive_score (dm_negative_boost s) else positive_score))"

definition demote_ops ::
  "doc_id \<Rightarrow> ('p, 'y) scorer_ops_scheme \<Rightarrow> ('n, 'z) docset_ops_scheme \<Rightarrow> ('p, 'n) demote_scorer scorer_ops" where
  "demote_ops T P N = \<lparr>ds_doc = demote_doc P, ds_advance = demote_advance P, ds_seek = demote_seek P,
     ds_size_hint = demote_size_hint P, sc_score = demote_score T P N\<rparr>"

text \<open>
  The explanation: its value, the details below it, and a constant when the document was
  demoted. The explanation of the positive query and the fresh negative scorer are given.
\<close>

datatype explanation = Explanation message f32 "explanation list" "(string \<times> f32) list"

fun explanation_value :: "explanation \<Rightarrow> f32" where
  "explanation_value (Explanation _ v _ _) = v"

definition demote_explain ::
  "doc_id \<Rightarrow> ('n, 'z) docset_ops_scheme \<Rightarrow> (doc_id \<Rightarrow> tantivy_error + explanation) \<Rightarrow> (f32 \<Rightarrow> tantivy_error + 'n)
     \<Rightarrow> f32 \<Rightarrow> doc_id \<Rightarrow> tantivy_error + explanation" where
  "demote_explain T N explain_positive scorer_n negative_boost doc =
     res_bind (explain_positive doc) (\<lambda>positive.
     res_bind (scorer_n f32_one) (\<lambda>n.
     let matched = snd (matches_doc T N doc n);
         factor = (if matched then negative_boost else f32_one);
         score = f32_mul (explanation_value positive) factor
     in Inr (Explanation [Lit ''Demote by negative query x'', ArgF32 factor] score [positive]
               (if matched then [(''negative_boost'', negative_boost)] else []))))"

definition demote_count :: "('w \<Rightarrow> tantivy_error + u32) \<Rightarrow> 'w \<Rightarrow> tantivy_error + u32" where
  "demote_count count_of pw = count_of pw"

section \<open>The contract of cursors and scorers\<close>

locale docset =
  fixes T :: doc_id
    and D :: "('s, 'z) docset_ops_scheme"
    and rest :: "'s \<Rightarrow> doc_id list"
    and inv :: "'s \<Rightarrow> bool"
  assumes rest_sorted: "inv s \<Longrightarrow> sorted_wrt (<) (rest s) \<and> (\<forall>d \<in> set (rest s). d < T)"
    and doc_rest: "inv s \<Longrightarrow> ds_doc D s = (case rest s of [] \<Rightarrow> T | d # _ \<Rightarrow> d)"
    and advance_rest: "inv s \<Longrightarrow> ds_advance D s = (s', d) \<Longrightarrow>
          inv s' \<and> rest s' = tl (rest s) \<and> d = ds_doc D s'"
    and seek_rest: "inv s \<Longrightarrow> ds_doc D s \<le> t \<Longrightarrow> t \<le> T \<Longrightarrow> ds_seek D t s = (s', d) \<Longrightarrow>
          inv s' \<and> rest s' = dropWhile (\<lambda>x. x < t) (rest s) \<and> d = ds_doc D s'"

locale scorer = docset T P rest inv
  for T and P :: "('s, 'z) scorer_ops_scheme" and rest and inv +
  fixes score_of :: "doc_id \<Rightarrow> f32"
  assumes score_rest: "inv s \<Longrightarrow> rest s \<noteq> [] \<Longrightarrow> sc_score P s = (s', v) \<Longrightarrow>
          inv s' \<and> rest s' = rest s \<and> v = score_of (ds_doc P s)"

lemma set_tl_subset: "set (tl xs) \<subseteq> set xs"
  by (cases xs) auto

lemma set_dropWhile_subset: "set (dropWhile Q xs) \<subseteq> set xs"
  by (auto dest: set_dropWhileD)

lemma mem_dropWhile_less:
  fixes d :: "'a :: linorder"
  assumes "sorted_wrt (<) xs"
  shows "d \<in> set xs \<longleftrightarrow> (\<exists>ds. dropWhile (\<lambda>x. x < d) xs = d # ds)"
  using assms by (induction xs) auto

context docset
begin

lemma doc_T: "inv s \<Longrightarrow> ds_doc D s = T \<longleftrightarrow> rest s = []"
  using rest_sorted [of s] by (auto simp: doc_rest split: list.splits)

lemma doc_hd: "inv s \<Longrightarrow> rest s = d # ds \<Longrightarrow> ds_doc D s = d"
  by (simp add: doc_rest)

lemma dropWhile_reached:
  assumes "inv s" and "t \<le> ds_doc D s"
  shows "dropWhile (\<lambda>x. x < t) (rest s) = rest s"
  using assms by (cases "rest s") (auto simp: doc_rest)

lemma matches_doc_rest:
  assumes s: "inv s" and d: "d < T" and m: "matches_doc T D d s = (s', b)"
  shows "inv s'" and "rest s' = dropWhile (\<lambda>x. x < d) (rest s)" and "b \<longleftrightarrow> d \<in> set (rest s)"
proof -
  have sorted: "sorted_wrt (<) (rest s)" using rest_sorted [OF s] by simp
  have mem: "d \<in> set (rest s) \<longleftrightarrow> (\<exists>ds. dropWhile (\<lambda>x. x < d) (rest s) = d # ds)"
    by (rule mem_dropWhile_less [OF sorted])
  have dT: "d \<noteq> T" using d by simp
  have "inv s' \<and> rest s' = dropWhile (\<lambda>x. x < d) (rest s) \<and> (b \<longleftrightarrow> ds_doc D s' = d)"
  proof (cases "ds_doc D s < d")
    case True
    then obtain e where e: "ds_seek D d s = (s', e)" and b: "b \<longleftrightarrow> e = d"
      using m dT by (auto simp: matches_doc_def Let_def split: prod.splits)
    from seek_rest [OF s _ _ e] True d b show ?thesis by auto
  next
    case False
    with m dT have "s' = s" "b \<longleftrightarrow> ds_doc D s = d" by (auto simp: matches_doc_def Let_def)
    with False s dropWhile_reached [OF s, of d] show ?thesis by (simp add: not_less)
  qed
  then show "inv s'" "rest s' = dropWhile (\<lambda>x. x < d) (rest s)" "b \<longleftrightarrow> d \<in> set (rest s)"
    using mem d by (auto simp: doc_rest split: list.splits)
qed

lemma matches_doc_T: "matches_doc T D T s = (s, False)"
  by (simp add: matches_doc_def)

end

text \<open>
  A client drives a scorer by a sequence of calls. \<open>run_calls\<close> executes them on the operations
  and collects the answers; \<open>spec_calls\<close> says what the answers are for an abstract cursor, the
  list of the documents to come. A client may not seek backwards and asks for a score only on
  a document.
\<close>

datatype scorer_call = CallAdvance | CallSeek doc_id | CallScore

datatype scorer_answer = AnsDoc doc_id | AnsScore f32

fun run_calls :: "('s, 'z) scorer_ops_scheme \<Rightarrow> scorer_call list \<Rightarrow> 's \<Rightarrow> scorer_answer list" where
  "run_calls P [] s = []"
| "run_calls P (CallAdvance # cs) s = (case ds_advance P s of (s', d) \<Rightarrow> AnsDoc d # run_calls P cs s')"
| "run_calls P (CallSeek t # cs) s = (case ds_seek P t s of (s', d) \<Rightarrow> AnsDoc d # run_calls P cs s')"
| "run_calls P (CallScore # cs) s = (case sc_score P s of (s', v) \<Rightarrow> AnsScore v # run_calls P cs s')"

definition first_doc :: "doc_id \<Rightarrow> doc_id list \<Rightarrow> doc_id" where
  "first_doc T xs = (case xs of [] \<Rightarrow> T | d # _ \<Rightarrow> d)"

fun spec_calls :: "doc_id \<Rightarrow> (doc_id \<Rightarrow> f32) \<Rightarrow> scorer_call list \<Rightarrow> doc_id list \<Rightarrow> scorer_answer list" where
  "spec_calls T score_of [] xs = []"
| "spec_calls T score_of (CallAdvance # cs) xs =
     AnsDoc (first_doc T (tl xs)) # spec_calls T score_of cs (tl xs)"
| "spec_calls T score_of (CallSeek t # cs) xs =
     (let ys = dropWhile (\<lambda>x. x < t) xs in AnsDoc (first_doc T ys) # spec_calls T score_of cs ys)"
| "spec_calls T score_of (CallScore # cs) xs = AnsScore (score_of (first_doc T xs)) # spec_calls T score_of cs xs"

fun calls_ok :: "doc_id \<Rightarrow> scorer_call list \<Rightarrow> doc_id list \<Rightarrow> bool" where
  "calls_ok T [] xs \<longleftrightarrow> True"
| "calls_ok T (CallAdvance # cs) xs \<longleftrightarrow> calls_ok T cs (tl xs)"
| "calls_ok T (CallSeek t # cs) xs \<longleftrightarrow>
     first_doc T xs \<le> t \<and> t \<le> T \<and> calls_ok T cs (dropWhile (\<lambda>x. x < t) xs)"
| "calls_ok T (CallScore # cs) xs \<longleftrightarrow> xs \<noteq> [] \<and> calls_ok T cs xs"

context scorer
begin

lemma doc_first: "inv s \<Longrightarrow> ds_doc P s = first_doc T (rest s)"
  by (simp add: doc_rest first_doc_def)

lemma run_spec: "inv s \<Longrightarrow> calls_ok T cs (rest s) \<Longrightarrow> run_calls P cs s = spec_calls T score_of cs (rest s)"
proof (induction cs arbitrary: s)
  case (Cons c cs)
  note IH = Cons.IH and s = Cons.prems(1) and ok = Cons.prems(2)
  show ?case
  proof (cases c)
    case CallAdvance
    obtain s' d where step: "ds_advance P s = (s', d)" by fastforce
    show ?thesis using CallAdvance ok step advance_rest [OF s step] IH [of s'] by (simp add: doc_first)
  next
    case (CallSeek t)
    obtain s' d where step: "ds_seek P t s = (s', d)" by fastforce
    show ?thesis
      using CallSeek ok step seek_rest [OF s _ _ step] IH [of s'] by (simp add: doc_first [OF s] doc_first Let_def)
  next
    case CallScore
    obtain s' v where step: "sc_score P s = (s', v)" by fastforce
    show ?thesis using CallScore ok step score_rest [OF s _ step] IH [of s'] by (simp add: doc_first [OF s])
  qed
qed simp

end

section \<open>The sorted document set fulfils the contract\<close>

definition sds_inv :: "doc_id \<Rightarrow> sorted_doc_set \<Rightarrow> bool" where
  "sds_inv T s \<longleftrightarrow> sorted_wrt (<) (sds_docs s) \<and> (\<forall>d \<in> set (sds_docs s). d < T)
     \<and> sds_cursor s \<le> length (sds_docs s) \<and> sds_doc s = doc_at T (sds_docs s) (sds_cursor s)"

definition sds_rest :: "sorted_doc_set \<Rightarrow> doc_id list" where
  "sds_rest s = drop (sds_cursor s) (sds_docs s)"

lemma doc_at_rest: "doc_at T docs i = (case drop i docs of [] \<Rightarrow> T | d # _ \<Rightarrow> d)"
  by (cases "i < length docs") (simp_all add: doc_at_def Cons_nth_drop_Suc [symmetric])

lemma sds_doc_T: "sds_inv T s \<Longrightarrow> sds_doc s = T \<longleftrightarrow> sds_cursor s = length (sds_docs s)"
  by (auto simp: sds_inv_def doc_at_def)

lemma sds_new_inv:
  "sorted_wrt (<) docs \<Longrightarrow> \<forall>d \<in> set docs. d < T \<Longrightarrow> sds_inv T (sds_new T docs) \<and> sds_rest (sds_new T docs) = docs"
  by (simp add: sds_inv_def sds_new_def sds_rest_def)

lemma sds_seek_rest:
  assumes s: "sds_inv T s" and "sds_seek T t s = (s', d)"
  shows "sds_inv T s' \<and> sds_rest s' = dropWhile (\<lambda>x. x < t) (sds_rest s) \<and> d = sds_doc s'"
proof (cases "t \<le> sds_doc s")
  case True
  then have "dropWhile (\<lambda>x. x < t) (sds_rest s) = sds_rest s"
    using s by (cases "sds_rest s") (auto simp: sds_inv_def sds_rest_def doc_at_rest)
  with True assms show ?thesis by (auto simp: sds_seek_def)
next
  case False
  let ?r = "length (takeWhile (\<lambda>d. d < t) (drop (sds_cursor s) (sds_docs s)))"
  have "?r \<le> length (sds_docs s) - sds_cursor s"
    by (metis length_drop length_takeWhile_le)
  moreover have "drop (sds_cursor s + ?r) (sds_docs s) = dropWhile (\<lambda>x. x < t) (sds_rest s)"
    by (simp add: sds_rest_def dropWhile_eq_drop add.commute)
  ultimately show ?thesis
    using False assms by (auto simp: sds_seek_def Let_def sds_inv_def sds_rest_def)
qed

interpretation sds: docset T "sds_ops T" sds_rest "sds_inv T" for T
proof
  fix s
  assume s: "sds_inv T s"
  show "sorted_wrt (<) (sds_rest s) \<and> (\<forall>d \<in> set (sds_rest s). d < T)"
    using s by (auto simp: sds_inv_def sds_rest_def sorted_wrt_drop dest: in_set_dropD)
  show "ds_doc (sds_ops T) s = (case sds_rest s of [] \<Rightarrow> T | d # _ \<Rightarrow> d)"
    using s by (simp add: sds_inv_def sds_ops_def sds_rest_def doc_at_rest)
  show "sds_inv T s' \<and> sds_rest s' = tl (sds_rest s) \<and> d = ds_doc (sds_ops T) s'"
    if "ds_advance (sds_ops T) s = (s', d)" for s' d
    using that s sds_doc_T [OF s]
    by (cases "sds_doc s = T") (auto simp: sds_ops_def sds_advance_def Let_def sds_inv_def sds_rest_def drop_Suc tl_drop)
  show "sds_inv T s' \<and> sds_rest s' = dropWhile (\<lambda>x. x < t) (sds_rest s) \<and> d = ds_doc (sds_ops T) s'"
    if "ds_seek (sds_ops T) t s = (s', d)" for t s' d
    using that sds_seek_rest [OF s] by (simp add: sds_ops_def)
qed

section \<open>The demoting scorer fulfils the contract\<close>

text \<open>
  The score of a document under demotion, when \<open>negatives\<close> are the documents of the negative
  query.
\<close>

definition demoted :: "doc_id set \<Rightarrow> f32 \<Rightarrow> (doc_id \<Rightarrow> f32) \<Rightarrow> doc_id \<Rightarrow> f32" where
  "demoted negatives nb score_of d = (if d \<in> negatives then f32_mul (score_of d) nb else score_of d)"

locale demotion = pos: scorer T P rest_p inv_p score_of + neg: docset T N rest_n inv_n
  for T :: doc_id and P :: "('p, 'y) scorer_ops_scheme" and rest_p and inv_p and score_of
    and N :: "('n, 'z) docset_ops_scheme" and rest_n and inv_n +
  fixes negatives :: "doc_id list" and nb :: f32
begin

text \<open>The negative cursor has passed only documents below the current positive one.\<close>

definition dm_inv :: "('p, 'n) demote_scorer \<Rightarrow> bool" where
  "dm_inv s \<longleftrightarrow> inv_p (dm_positive s) \<and> inv_n (dm_negative s) \<and> dm_negative_boost s = nb
     \<and> sorted_wrt (<) negatives
     \<and> (\<exists>k. rest_n (dm_negative s) = dropWhile (\<lambda>x. x < k) negatives \<and> (\<forall>d \<in> set (rest_p (dm_positive s)). k \<le> d))"

lemma passed_mem:
  assumes "sorted_wrt (<) negatives" and "k \<le> (d :: doc_id)"
  shows "d \<in> set (dropWhile (\<lambda>x. x < k) negatives) \<longleftrightarrow> d \<in> set negatives"
  using assms by (induction negatives) (auto dest: set_dropWhileD)

lemma dropWhile_twice:
  "(k :: doc_id) \<le> d \<Longrightarrow> dropWhile (\<lambda>x. x < d) (dropWhile (\<lambda>x. x < k) xs) = dropWhile (\<lambda>x. x < d) xs"
  by (induction xs) auto

lemma dm_score:
  assumes s: "dm_inv s" and r: "rest_p (dm_positive s) \<noteq> []" and step: "demote_score T P N s = (s', v)"
  shows "dm_inv s' \<and> rest_p (dm_positive s') = rest_p (dm_positive s)
     \<and> v = demoted (set negatives) nb score_of (demote_doc P s)"
proof -
  obtain k where p: "inv_p (dm_positive s)" and n: "inv_n (dm_negative s)" and nb: "dm_negative_boost s = nb"
    and sorted: "sorted_wrt (<) negatives" and k: "rest_n (dm_negative s) = dropWhile (\<lambda>x. x < k) negatives"
    and le: "\<forall>d \<in> set (rest_p (dm_positive s)). k \<le> d"
    using s by (auto simp: dm_inv_def)
  obtain p' ps where sc: "sc_score P (dm_positive s) = (p', ps)" by (cases "sc_score P (dm_positive s)")
  note sc_ok = pos.score_rest [OF p r sc]
  obtain d ds where rd: "rest_p (dm_positive s) = d # ds" using r by (cases "rest_p (dm_positive s)") auto
  have d: "ds_doc P p' = d" "ds_doc P (dm_positive s) = d"
    using sc_ok p rd by (simp_all add: pos.doc_rest)
  have dT: "d < T" "\<forall>x \<in> set ds. d < x" using pos.rest_sorted [OF p] rd by auto
  obtain n' b where m: "matches_doc T N d (dm_negative s) = (n', b)" by (cases "matches_doc T N d (dm_negative s)")
  note m_ok = neg.matches_doc_rest [OF n dT(1) m]
  have kd: "k \<le> d" using le rd by simp
  have "b \<longleftrightarrow> d \<in> set negatives" using m_ok(3) k passed_mem [OF sorted kd] by simp
  moreover have "rest_n n' = dropWhile (\<lambda>x. x < d) negatives" using m_ok(2) k dropWhile_twice [OF kd] by simp
  moreover have "\<forall>x \<in> set (rest_p p'). d \<le> x" using sc_ok rd dT(2) by auto
  ultimately show ?thesis
    using step sc m m_ok(1) sc_ok nb sorted d
    by (auto simp: demote_score_def dm_inv_def demoted_def demote_doc_def)
qed

lemma dm_move:
  assumes "dm_inv s" and "inv_p p" and "set (rest_p p) \<subseteq> set (rest_p (dm_positive s))"
  shows "dm_inv (s\<lparr>dm_positive := p\<rparr>)"
  using assms by (fastforce simp: dm_inv_def)

lemma contract: "scorer T (demote_ops T P N) (\<lambda>s. rest_p (dm_positive s)) dm_inv (demoted (set negatives) nb score_of)"
proof
  fix s
  assume s: "dm_inv s"
  then have p: "inv_p (dm_positive s)" by (simp add: dm_inv_def)
  show "sorted_wrt (<) (rest_p (dm_positive s)) \<and> (\<forall>d \<in> set (rest_p (dm_positive s)). d < T)"
    using pos.rest_sorted [OF p] .
  show "ds_doc (demote_ops T P N) s = (case rest_p (dm_positive s) of [] \<Rightarrow> T | d # _ \<Rightarrow> d)"
    using p by (simp add: demote_ops_def demote_doc_def pos.doc_rest)
  show "dm_inv s' \<and> rest_p (dm_positive s') = tl (rest_p (dm_positive s)) \<and> d = ds_doc (demote_ops T P N) s'"
    if "ds_advance (demote_ops T P N) s = (s', d)" for s' d
    using that pos.advance_rest [OF p] dm_move [OF s] set_tl_subset [of "rest_p (dm_positive s)"]
    by (auto simp: demote_ops_def demote_advance_def demote_doc_def split: prod.splits)
  show "dm_inv s' \<and> rest_p (dm_positive s') = dropWhile (\<lambda>x. x < t) (rest_p (dm_positive s))
      \<and> d = ds_doc (demote_ops T P N) s'"
    if "ds_doc (demote_ops T P N) s \<le> t" "t \<le> T" "ds_seek (demote_ops T P N) t s = (s', d)" for t s' d
    using that pos.seek_rest [OF p] dm_move [OF s] set_dropWhile_subset [of "\<lambda>x. x < t" "rest_p (dm_positive s)"]
    by (auto simp: demote_ops_def demote_seek_def demote_doc_def split: prod.splits)
  show "dm_inv s' \<and> rest_p (dm_positive s') = rest_p (dm_positive s)
      \<and> v = demoted (set negatives) nb score_of (ds_doc (demote_ops T P N) s)"
    if "rest_p (dm_positive s) \<noteq> []" "sc_score (demote_ops T P N) s = (s', v)" for s' v
    using that dm_score [OF s] by (simp add: demote_ops_def)
qed

lemma start:
  "inv_p p \<Longrightarrow> inv_n n \<Longrightarrow> rest_n n = negatives \<Longrightarrow>
     dm_inv \<lparr>dm_positive = p, dm_negative = n, dm_negative_boost = nb\<rparr>"
  using neg.rest_sorted [of n] by (auto simp: dm_inv_def intro!: exI [of _ 0])

end

sublocale demotion \<subseteq> dm: scorer T "demote_ops T P N" "\<lambda>s. rest_p (dm_positive s)" dm_inv
    "demoted (set negatives) nb score_of"
  by (rule contract)

context demotion
begin

lemma run_demoted:
  assumes "inv_p p" and "inv_n n" and "rest_n n = negatives" and "calls_ok T cs (rest_p p)"
  shows "run_calls (demote_ops T P N) cs \<lparr>dm_positive = p, dm_negative = n, dm_negative_boost = nb\<rparr>
     = spec_calls T (demoted (set negatives) nb score_of) cs (rest_p p)"
  using dm.run_spec [OF start [OF assms(1-3)]] assms(4) by simp

end

text \<open>
  The scorer of a fuzzy query is tantivy's \<^verbatim>\<open>ConstScorer\<close> around a sorted document set: moves go
  to the set, the score is the constant. \<open>const_scorer_ops\<close> has that documented behaviour.
\<close>

definition const_scorer_ops :: "doc_id \<Rightarrow> (sorted_doc_set \<times> f32) scorer_ops" where
  "const_scorer_ops T = \<lparr>ds_doc = \<lambda>(s, v). sds_doc s,
     ds_advance = \<lambda>(s, v). (case sds_advance T s of (s', d) \<Rightarrow> ((s', v), d)),
     ds_seek = \<lambda>t (s, v). (case sds_seek T t s of (s', d) \<Rightarrow> ((s', v), d)),
     ds_size_hint = \<lambda>(s, v). sds_size_hint T s, sc_score = \<lambda>(s, v). ((s, v), v)\<rparr>"

interpretation const_scorer: scorer T "const_scorer_ops T" "\<lambda>(s, _). sds_rest s"
    "\<lambda>(s, w). sds_inv T s \<and> w = v" "\<lambda>_. v" for T v
proof
  fix p :: "sorted_doc_set \<times> f32"
  obtain s w where p: "p = (s, w)" by fastforce
  assume "case p of (s, w) \<Rightarrow> sds_inv T s \<and> w = v"
  with p have s: "sds_inv T s" and w: "w = v" by auto
  show "sorted_wrt (<) (case p of (s, _) \<Rightarrow> sds_rest s) \<and> (\<forall>d \<in> set (case p of (s, _) \<Rightarrow> sds_rest s). d < T)"
    using sds.rest_sorted [OF s] p by simp
  show "ds_doc (const_scorer_ops T) p = (case case p of (s, _) \<Rightarrow> sds_rest s of [] \<Rightarrow> T | d # _ \<Rightarrow> d)"
    using sds.doc_rest [OF s] p by (simp add: const_scorer_ops_def sds_ops_def)
  show "(case p' of (s, w) \<Rightarrow> sds_inv T s \<and> w = v) \<and> (case p' of (s, _) \<Rightarrow> sds_rest s) = tl (case p of (s, _) \<Rightarrow> sds_rest s)
      \<and> d = ds_doc (const_scorer_ops T) p'" if "ds_advance (const_scorer_ops T) p = (p', d)" for p' d
    using that sds.advance_rest [OF s] p w
    by (auto simp: const_scorer_ops_def sds_ops_def split: prod.splits)
  show "(case p' of (s, w) \<Rightarrow> sds_inv T s \<and> w = v)
      \<and> (case p' of (s, _) \<Rightarrow> sds_rest s) = dropWhile (\<lambda>x. x < t) (case p of (s, _) \<Rightarrow> sds_rest s)
      \<and> d = ds_doc (const_scorer_ops T) p'" if "ds_seek (const_scorer_ops T) t p = (p', d)" for t p' d
    using that sds_seek_rest [OF s] p w
    by (auto simp: const_scorer_ops_def split: prod.splits)
  show "(case p' of (s, w) \<Rightarrow> sds_inv T s \<and> w = v) \<and> (case p' of (s, _) \<Rightarrow> sds_rest s) = (case p of (s, _) \<Rightarrow> sds_rest s)
      \<and> u = v" if "sc_score (const_scorer_ops T) p = (p', u)" for p' u
    using that p s w by (auto simp: const_scorer_ops_def)
qed

interpretation fuzzy_demotion: demotion T "const_scorer_ops T" "\<lambda>(s, _). sds_rest s"
    "\<lambda>(s, w). sds_inv T s \<and> w = v" "\<lambda>_. v" "sds_ops T" sds_rest "sds_inv T" negatives nb
  for T v negatives nb
  by unfold_locales

section \<open>Properties of the demotion\<close>

lemma f32_mul_one:
  assumes "f32_wf x"
  shows "f32_mul x f32_one = x"
  using assms by (cases x) (auto simp: f32_one_def f32_of_id)

definition nonnegative :: "f32 \<Rightarrow> bool" where
  "nonnegative x \<longleftrightarrow> (\<exists>r. x = Finite False r \<and> representable r)"

lemma negative_boost_range:
  assumes "validate_negative_boost nb = Inr ()" and "f32_wf nb"
  shows "\<exists>s r. nb = Finite s r \<and> 0 \<le> r \<and> r \<le> 1 \<and> (s \<longrightarrow> r = 0)"
proof -
  obtain s r where nb: "nb = Finite s r" and range: "0 \<le> f32_signed s r" "f32_signed s r \<le> 1"
    using assms(1) by (auto simp only: validate_negative_boost_Inr)
  moreover have "0 \<le> r" using assms(2) nb by (simp add: representable_def)
  ultimately show ?thesis by (cases s) auto
qed

lemma spec_seek_score:
  assumes "sorted_wrt (<) xs" and "d \<in> set xs"
  shows "spec_calls T score_of [CallSeek d, CallScore] xs = [AnsDoc d, AnsScore (score_of d)]"
  using mem_dropWhile_less [OF assms(1)] assms(2) by (auto simp: first_doc_def Let_def)

lemma calls_ok_seek_score:
  assumes "sorted_wrt (<) xs" and "d \<in> set xs" and "\<forall>x \<in> set xs. x < T"
  shows "calls_ok T [CallSeek d, CallScore] xs"
  using assms mem_dropWhile_less [OF assms(1), of d]
  by (cases xs) (auto simp: first_doc_def less_imp_le)

text \<open>
  C10. A demoting scorer refines the abstract cursor over the documents of the positive query:
  for every sequence of advance, seek and score calls its answers are the positive documents
  in order, and every score is the positive score, multiplied by the negative boost exactly
  when the negative query contains the document, wherever the negative cursor stands.
\<close>

theorem demote_scorer_refines:
  assumes "scorer T P rest_p inv_p score_of" and "docset T N rest_n inv_n"
    and "demote_weight_scorer scorer_p scorer_n pw nw nb boost = Inr s"
    and "\<And>p. scorer_p pw boost = Inr p \<Longrightarrow> inv_p p \<and> rest_p p = positives"
    and "\<And>n. scorer_n nw f32_one = Inr n \<Longrightarrow> inv_n n \<and> rest_n n = negatives"
    and "calls_ok T calls positives"
  shows "run_calls (demote_ops T P N) calls s
           = spec_calls T (demoted (set negatives) nb score_of) calls positives"
  using assms demotion.run_demoted [OF demotion.intro [OF assms(1,2)]]
  by (fastforce simp: demote_weight_scorer_def res_simps)

text \<open>
  C38. With a negative boost that validation accepts, demotion never increases a score that is
  not negative and never makes it negative.
\<close>

theorem demotion_bounded:
  assumes "validate_negative_boost nb = Inr ()" and "f32_wf nb" and "nonnegative (score_of d)"
  shows "f32_le f32_zero (demoted negatives nb score_of d) \<and> f32_le (demoted negatives nb score_of d) (score_of d)"
proof -
  obtain r where r: "score_of d = Finite False r" "representable r" using assms(3) by (auto simp: nonnegative_def)
  obtain s q where q: "nb = Finite s q" "0 \<le> q" "q \<le> 1" "s \<longrightarrow> q = 0"
    using negative_boost_range [OF assms(1,2)] by blast
  obtain z where z: "f32_mul (Finite False r) (Finite False q) = Finite False z" "0 \<le> z" "z \<le> r"
    using f32_mul_le [OF r(2) q(2,3)] by auto
  have "f32_mul (Finite False r) nb = Finite s z \<and> (s \<longrightarrow> z = 0)"
    using z q(1,4) f32_of_id [OF representable_zero] by (cases s) auto
  with r z show ?thesis by (auto simp: demoted_def f32_zero_def representable_def)
qed

text \<open>
  C39. The explanation of a document carries the score that the scorer gives it: seeking a fresh
  demoting scorer to a document of the positive query and scoring there answers the value of
  the explanation, when the explanation of the positive query has the positive score.
\<close>

theorem demote_explain_score:
  assumes "scorer T P rest_p inv_p score_of" and "docset T N rest_n inv_n"
    and "demote_weight_scorer scorer_p scorer_n pw nw nb boost = Inr s"
    and "\<And>p. scorer_p pw boost = Inr p \<Longrightarrow> inv_p p \<and> rest_p p = positives"
    and "\<And>n. scorer_n nw f32_one = Inr n \<Longrightarrow> inv_n n \<and> rest_n n = negatives"
    and "d \<in> set positives" and "f32_wf (score_of d)"
    and "explain_positive d = Inr e" and "explanation_value e = score_of d"
  shows "\<exists>e'. demote_explain T N explain_positive (scorer_n nw) nb d = Inr e'
           \<and> run_calls (demote_ops T P N) [CallSeek d, CallScore] s = [AnsDoc d, AnsScore (explanation_value e')]"
proof -
  have D: "demotion T P rest_p inv_p score_of N rest_n inv_n" by (intro demotion.intro assms(1,2))
  obtain p n where p: "scorer_p pw boost = Inr p" and n: "scorer_n nw f32_one = Inr n"
    and s: "s = \<lparr>dm_positive = p, dm_negative = n, dm_negative_boost = nb\<rparr>"
    using assms(3) by (auto simp: demote_weight_scorer_def res_simps)
  note p_ok = assms(4) [OF p] and n_ok = assms(5) [OF n]
  have sorted: "sorted_wrt (<) positives" "\<forall>x \<in> set positives. x < T"
    using docset.rest_sorted [OF scorer.axioms(1) [OF assms(1)], of p] p_ok by auto
  have "run_calls (demote_ops T P N) [CallSeek d, CallScore] s
      = spec_calls T (demoted (set negatives) nb score_of) [CallSeek d, CallScore] positives"
    unfolding s using p_ok n_ok calls_ok_seek_score [OF sorted(1) assms(6) sorted(2)]
    by (metis demotion.run_demoted [OF D])
  then have run: "run_calls (demote_ops T P N) [CallSeek d, CallScore] s
      = [AnsDoc d, AnsScore (demoted (set negatives) nb score_of d)]"
    using spec_seek_score [OF sorted(1) assms(6)] by simp
  have "snd (matches_doc T N d n) \<longleftrightarrow> d \<in> set negatives"
    using docset.matches_doc_rest(3) [OF assms(2)] n_ok sorted(2) assms(6) by (metis prod.collapse)
  then show ?thesis
    using run n assms(7-9) by (auto simp: demote_explain_def Let_def demoted_def f32_mul_one)
qed

section \<open>A concrete demotion\<close>

text \<open>
  Both queries are fuzzy: sorted sets with a constant score; the weights are the document
  lists. \<open>example_T\<close> is the value of \<^verbatim>\<open>TERMINATED\<close>, the largest signed 32-bit integer.
\<close>

definition example_T :: doc_id where "example_T = 2147483647"

definition example_positive :: "doc_id list \<Rightarrow> f32 \<Rightarrow> tantivy_error + (sorted_doc_set \<times> f32)" where
  "example_positive docs boost = Inr (sds_new example_T docs, boost)"

definition example_negative :: "doc_id list \<Rightarrow> f32 \<Rightarrow> tantivy_error + sorted_doc_set" where
  "example_negative docs boost = Inr (sds_new example_T docs)"

definition example_demote :: "(sorted_doc_set \<times> f32, sorted_doc_set) demote_scorer" where
  "example_demote = \<lparr>dm_positive = (sds_new example_T [1, 3, 5, 7], f32_one),
     dm_negative = sds_new example_T [2, 3, 7, 9], dm_negative_boost = default_negative_boost\<rparr>"

lemma example_demote_start:
  "demote_weight_scorer example_positive example_negative [1, 3, 5, 7] [2, 3, 7, 9] default_negative_boost f32_one
     = Inr example_demote"
  by (simp add: demote_weight_scorer_def example_positive_def example_negative_def example_demote_def)

lemma example_positive_start:
  "example_positive [1, 3, 5, 7] f32_one = Inr p \<Longrightarrow>
     (case p of (s, w) \<Rightarrow> sds_inv example_T s \<and> w = f32_one) \<and> (case p of (s, _) \<Rightarrow> sds_rest s) = [1, 3, 5, 7]"
  by (auto simp: example_positive_def example_T_def sds_inv_def sds_new_def sds_rest_def)

lemma example_negative_start:
  "example_negative [2, 3, 7, 9] f32_one = Inr n \<Longrightarrow> sds_inv example_T n \<and> sds_rest n = [2, 3, 7, 9]"
  by (auto simp: example_negative_def example_T_def sds_inv_def sds_new_def sds_rest_def)

lemma half_of_one: "f32_mul f32_one default_negative_boost = default_negative_boost"
  by (simp add: f32_one_def default_negative_boost_def f32_of_id)

theorem demote_scorer_refines_witness:
  "run_calls (demote_ops example_T (const_scorer_ops example_T) (sds_ops example_T))
      [CallScore, CallAdvance, CallScore, CallSeek 6, CallScore, CallAdvance] example_demote
     = [AnsScore f32_one, AnsDoc 3, AnsScore default_negative_boost, AnsDoc 7, AnsScore default_negative_boost,
        AnsDoc example_T]"
  using demote_scorer_refines [OF const_scorer.scorer_axioms sds.docset_axioms example_demote_start
      example_positive_start example_negative_start,
      of "[CallScore, CallAdvance, CallScore, CallSeek 6, CallScore, CallAdvance]"]
  by (simp add: first_doc_def demoted_def half_of_one example_T_def)

theorem demotion_bounded_witness:
  "f32_le f32_zero (demoted {3} default_negative_boost (\<lambda>_. f32_one) 3)
     \<and> f32_le (demoted {3} default_negative_boost (\<lambda>_. f32_one) 3) f32_one"
  using demotion_bounded [of default_negative_boost "\<lambda>_. f32_one" 3 "{3}"]
  by (simp add: default_negative_boost_def validate_negative_boost_def f32_zero_def nonnegative_def f32_one_def)

theorem demote_explain_score_witness:
  "\<exists>e. demote_explain example_T (sds_ops example_T) (\<lambda>_. Inr (Explanation [] f32_one [] []))
         (example_negative [2, 3, 7, 9]) default_negative_boost 7 = Inr e
     \<and> run_calls (demote_ops example_T (const_scorer_ops example_T) (sds_ops example_T)) [CallSeek 7, CallScore] example_demote
         = [AnsDoc 7, AnsScore (explanation_value e)]"
  using demote_explain_score [OF const_scorer.scorer_axioms sds.docset_axioms example_demote_start
      example_positive_start example_negative_start, of 7 "\<lambda>_. Inr (Explanation [] f32_one [] [])" "Explanation [] f32_one [] []"]
  by (simp add: f32_one_def)

end
