(* ===== verification/Fuzzy.thy ===== *)
theory Fuzzy
  imports DocSets "HOL-Library.Sublist"
begin

text \<open>
  Fuzzy terms of \<^verbatim>\<open>core/src/index.rs\<close>: \<^verbatim>\<open>PrefixedDfaAutomaton\<close>, \<^verbatim>\<open>CappedFuzzyTermQuery\<close> and
  \<^verbatim>\<open>CappedAutomatonWeight\<close>. The Levenshtein automaton (crate levenshtein_automata), the term
  dictionary and the postings (tantivy) are parameters: a record of functions each. The locale
  \<open>automaton\<close> is the contract of tantivy_fst's trait \<^verbatim>\<open>Automaton\<close>: a state that cannot match
  never leads to a match, so a search may prune there.
\<close>

section \<open>Automata\<close>

record 'st automaton_ops =
  au_start :: 'st
  au_is_match :: "'st \<Rightarrow> bool"
  au_can_match :: "'st \<Rightarrow> bool"
  au_accept :: "'st \<Rightarrow> u8 \<Rightarrow> 'st"

datatype distance = Exact u8 | AtLeast u8

record dfa =
  dfa_initial_state :: u32
  dfa_distance :: "u32 \<Rightarrow> distance"
  dfa_transition :: "u32 \<Rightarrow> u8 \<Rightarrow> u32"

fun is_exact :: "distance \<Rightarrow> bool" where
  "is_exact (Exact _) = True"
| "is_exact (AtLeast _) = False"

record prefixed_dfa_automaton =
  pa_dfa :: dfa
  pa_prefix :: bytes

type_synonym pa_state = "u32 \<times> nat option"

definition pa_start :: "prefixed_dfa_automaton \<Rightarrow> pa_state" where
  "pa_start a = (dfa_initial_state (pa_dfa a), Some 0)"

definition pa_is_match :: "prefixed_dfa_automaton \<Rightarrow> pa_state \<Rightarrow> bool" where
  "pa_is_match a st \<longleftrightarrow> is_exact (dfa_distance (pa_dfa a) (fst st))
     \<and> (case snd st of Some pos \<Rightarrow> length (pa_prefix a) \<le> pos | None \<Rightarrow> False)"

definition pa_can_match :: "u32 \<Rightarrow> pa_state \<Rightarrow> bool" where
  "pa_can_match SINK_STATE st \<longleftrightarrow> fst st \<noteq> SINK_STATE \<and> snd st \<noteq> None"

definition pa_accept :: "prefixed_dfa_automaton \<Rightarrow> pa_state \<Rightarrow> u8 \<Rightarrow> pa_state" where
  "pa_accept a st b =
     (dfa_transition (pa_dfa a) (fst st) b,
      (case snd st of
         None \<Rightarrow> None
       | Some pos \<Rightarrow>
           if length (pa_prefix a) \<le> pos then Some pos
           else if pa_prefix a ! pos = b then Some (pos + 1)
           else None))"

definition pa_ops :: "u32 \<Rightarrow> prefixed_dfa_automaton \<Rightarrow> pa_state automaton_ops" where
  "pa_ops SINK_STATE a = \<lparr>au_start = pa_start a, au_is_match = pa_is_match a,
     au_can_match = pa_can_match SINK_STATE, au_accept = pa_accept a\<rparr>"

section \<open>The fuzzy query and its weight\<close>

text \<open>
  A term is its field and its value; \<open>term_as_str\<close> is \<^verbatim>\<open>value().as_str()\<close>, nothing for a value
  that is not text. \<open>build_dfa distance transposition text\<close> is the Levenshtein builder.
\<close>

record 'f tantivy_term =
  term_field :: 'f
  term_as_str :: "string option"

record 'f capped_fuzzy_term_query =
  cf_term :: "'f tantivy_term"
  cf_distance :: u8
  cf_prefix :: string
  cf_max_expansions :: usize

record ('f, 'a) capped_automaton_weight =
  cw_field :: 'f
  cw_automaton :: 'a
  cw_max_expansions :: usize

definition as_bytes :: "string \<Rightarrow> bytes" where
  "as_bytes s = map of_char s"

definition fuzzy_weight ::
  "(u8 \<Rightarrow> bool \<Rightarrow> string \<Rightarrow> dfa) \<Rightarrow> 'f capped_fuzzy_term_query
     \<Rightarrow> tantivy_error + ('f, prefixed_dfa_automaton) capped_automaton_weight" where
  "fuzzy_weight build_dfa q =
     res_bind (ok_or (InvalidArgument [Lit ''fuzzy query requires a string term'']) (term_as_str (cf_term q))) (\<lambda>text.
     Inr \<lparr>cw_field = term_field (cf_term q),
          cw_automaton = \<lparr>pa_dfa = build_dfa (cf_distance q) True text, pa_prefix = as_bytes (cf_prefix q)\<rparr>,
          cw_max_expansions = cf_max_expansions q\<rparr>)"

text \<open>The terms a query reports to a visitor, with the flag for positions.\<close>

definition fuzzy_query_terms :: "'f capped_fuzzy_term_query \<Rightarrow> ('f tantivy_term \<times> bool) list" where
  "fuzzy_query_terms q = [(cf_term q, False)]"

text \<open>
  A segment opens the inverted index of a field; the index searches its dictionary with an
  automaton, giving the term informations in the order of the stream, and reads the blocks of
  the postings of a term: the successive results of \<^verbatim>\<open>docs()\<close>, empty after the last.
\<close>

record ('st, 'i) inverted_index =
  ii_search :: "'st automaton_ops \<Rightarrow> io_error + 'i list"
  ii_read_block_postings :: "'i \<Rightarrow> io_error + doc_id list list"

record ('f, 'st, 'i) segment_reader =
  sg_inverted_index :: "'f \<Rightarrow> tantivy_error + ('st, 'i) inverted_index"
  sg_io :: "io_error \<Rightarrow> tantivy_error"

fun read_blocks :: "doc_id list list \<Rightarrow> doc_id list \<Rightarrow> doc_id list" where
  "read_blocks [] docs = docs"
| "read_blocks (b # bs) docs = (if b = [] then docs else read_blocks bs (docs @ b))"

fun expand_terms ::
  "('st, 'i) inverted_index \<Rightarrow> usize \<Rightarrow> usize \<Rightarrow> doc_id list \<Rightarrow> 'i list \<Rightarrow> io_error + doc_id list" where
  "expand_terms ix max_expansions expansions docs [] = Inr docs"
| "expand_terms ix max_expansions expansions docs (term_info # stream) =
     (if expansions < max_expansions then
        res_bind (ii_read_block_postings ix term_info) (\<lambda>blocks.
        expand_terms ix max_expansions (expansions + 1) (read_blocks blocks docs) stream)
      else Inr docs)"

text \<open>The scorer: the sorted set and the constant score of the \<^verbatim>\<open>ConstScorer\<close> around it.\<close>

definition fuzzy_scorer ::
  "doc_id \<Rightarrow> ('a \<Rightarrow> 'st automaton_ops) \<Rightarrow> ('f, 'st, 'i) segment_reader \<Rightarrow> ('f, 'a) capped_automaton_weight
     \<Rightarrow> f32 \<Rightarrow> tantivy_error + (sorted_doc_set \<times> f32)" where
  "fuzzy_scorer T ops reader w boost =
     res_bind (sg_inverted_index reader (cw_field w)) (\<lambda>ix.
     res_bind (map_err (sg_io reader) (ii_search ix (ops (cw_automaton w)))) (\<lambda>stream.
     res_bind (map_err (sg_io reader) (expand_terms ix (cw_max_expansions w) 0 [] stream)) (\<lambda>docs.
     Inr (sds_new T (remdups_adj (sort docs)), boost))))"

definition fuzzy_explain ::
  "doc_id \<Rightarrow> (sorted_doc_set \<times> f32, 'z) scorer_ops_scheme \<Rightarrow> ('a \<Rightarrow> 'st automaton_ops)
     \<Rightarrow> ('f, 'st, 'i) segment_reader \<Rightarrow> ('f, 'a) capped_automaton_weight \<Rightarrow> doc_id \<Rightarrow> tantivy_error + explanation" where
  "fuzzy_explain T C ops reader w doc =
     res_bind (fuzzy_scorer T ops reader w f32_one) (\<lambda>s.
     if snd (ds_seek C doc s) = doc then Inr (Explanation [Lit ''CappedAutomatonScorer''] f32_one [] [])
     else Inl (InvalidArgument [Lit ''Document does not match fuzzy query'']))"

section \<open>The contract of an automaton\<close>

abbreviation au_run :: "('st, 'z) automaton_ops_scheme \<Rightarrow> 'st \<Rightarrow> bytes \<Rightarrow> 'st" where
  "au_run A \<equiv> foldl (au_accept A)"

definition au_accepts :: "('st, 'z) automaton_ops_scheme \<Rightarrow> bytes \<Rightarrow> bool" where
  "au_accepts A t \<longleftrightarrow> au_is_match A (au_run A (au_start A) t)"

text \<open>A search that gives a branch up as soon as the automaton says it cannot match.\<close>

fun pruned_from :: "('st, 'z) automaton_ops_scheme \<Rightarrow> 'st \<Rightarrow> bytes \<Rightarrow> bool" where
  "pruned_from A st [] \<longleftrightarrow> au_is_match A st"
| "pruned_from A st (b # bs) \<longleftrightarrow> au_can_match A st \<and> pruned_from A (au_accept A st b) bs"

definition pruned_accepts :: "('st, 'z) automaton_ops_scheme \<Rightarrow> bytes \<Rightarrow> bool" where
  "pruned_accepts A t \<longleftrightarrow> pruned_from A (au_start A) t"

locale automaton =
  fixes A :: "('st, 'z) automaton_ops_scheme"
  assumes dead_match: "\<not> au_can_match A st \<Longrightarrow> \<not> au_is_match A st"
    and dead_accept: "\<not> au_can_match A st \<Longrightarrow> \<not> au_can_match A (au_accept A st b)"
begin

lemma dead_run: "\<not> au_can_match A st \<Longrightarrow> \<not> au_is_match A (au_run A st t)"
  by (induction t arbitrary: st) (simp_all add: dead_match dead_accept)

lemma pruned_from_run: "pruned_from A st t \<longleftrightarrow> au_is_match A (au_run A st t)"
proof (induction t arbitrary: st)
  case (Cons b bs)
  show ?case using Cons dead_run [of st "b # bs"] by auto
qed simp

lemma pruned_accepts_iff: "pruned_accepts A t \<longleftrightarrow> au_accepts A t"
  by (simp add: pruned_accepts_def au_accepts_def pruned_from_run)

end

section \<open>The prefixed automaton\<close>

text \<open>
  What the sources rely on of the Levenshtein automaton: \<^verbatim>\<open>SINK_STATE\<close> is never left and is
  not within the distance.
\<close>

locale levenshtein_dfa =
  fixes SINK_STATE :: u32 and D :: dfa
  assumes sink_stays: "dfa_transition D SINK_STATE b = SINK_STATE"
    and sink_rejects: "\<not> is_exact (dfa_distance D SINK_STATE)"

sublocale levenshtein_dfa \<subseteq> prefixed: automaton "pa_ops SINK_STATE \<lparr>pa_dfa = D, pa_prefix = p\<rparr>" for p
proof
  fix st :: pa_state and b
  assume "\<not> au_can_match (pa_ops SINK_STATE \<lparr>pa_dfa = D, pa_prefix = p\<rparr>) st"
  then have dead: "fst st = SINK_STATE \<or> snd st = None" by (auto simp: pa_ops_def pa_can_match_def)
  then show "\<not> au_is_match (pa_ops SINK_STATE \<lparr>pa_dfa = D, pa_prefix = p\<rparr>) st"
    using sink_rejects by (auto simp: pa_ops_def pa_is_match_def)
  from dead show "\<not> au_can_match (pa_ops SINK_STATE \<lparr>pa_dfa = D, pa_prefix = p\<rparr>)
      (au_accept (pa_ops SINK_STATE \<lparr>pa_dfa = D, pa_prefix = p\<rparr>) st b)"
    using sink_stays by (auto simp: pa_ops_def pa_can_match_def pa_accept_def)
qed

definition dfa_accepts :: "dfa \<Rightarrow> bytes \<Rightarrow> bool" where
  "dfa_accepts D t \<longleftrightarrow> is_exact (dfa_distance D (foldl (dfa_transition D) (dfa_initial_state D) t))"

lemma pa_run_dfa: "fst (foldl (pa_accept a) st t) = foldl (dfa_transition (pa_dfa a)) (fst st) t"
  by (induction t arbitrary: st) (simp_all add: pa_accept_def)

lemma pa_run_None: "snd st = None \<Longrightarrow> snd (foldl (pa_accept a) st t) = None"
  by (induction t arbitrary: st) (simp_all add: pa_accept_def)

lemma pa_run_prefix:
  assumes "snd st = Some i" and "i \<le> length (pa_prefix a)"
  shows "(case snd (foldl (pa_accept a) st t) of Some pos \<Rightarrow> length (pa_prefix a) \<le> pos | None \<Rightarrow> False)
     \<longleftrightarrow> prefix (drop i (pa_prefix a)) t"
  using assms
proof (induction t arbitrary: st i)
  case (Cons b t)
  show ?case
  proof (cases "i = length (pa_prefix a)")
    case True
    with Cons.prems Cons.IH [of "pa_accept a st b" i] show ?thesis by (simp add: pa_accept_def)
  next
    case False
    with Cons.prems have i: "i < length (pa_prefix a)" by simp
    then have split: "drop i (pa_prefix a) = pa_prefix a ! i # drop (Suc i) (pa_prefix a)"
      by (simp add: Cons_nth_drop_Suc)
    show ?thesis
    proof (cases "pa_prefix a ! i = b")
      case True
      with i Cons.prems have "snd (pa_accept a st b) = Some (Suc i)" by (simp add: pa_accept_def)
      with i True Cons.IH [of "pa_accept a st b" "Suc i"] split show ?thesis by simp
    next
      case False
      with i Cons.prems have "snd (pa_accept a st b) = None" by (simp add: pa_accept_def)
      with False split show ?thesis by (simp add: pa_run_None)
    qed
  qed
qed auto

lemma pa_accepts_iff:
  "au_accepts (pa_ops S a) t \<longleftrightarrow> dfa_accepts (pa_dfa a) t \<and> prefix (pa_prefix a) t"
  using pa_run_prefix [of "pa_start a" 0 a t]
  by (simp add: au_accepts_def pa_ops_def pa_is_match_def pa_run_dfa dfa_accepts_def) (simp add: pa_start_def)

context levenshtein_dfa
begin

lemma pruned_language:
  "pruned_accepts (pa_ops SINK_STATE \<lparr>pa_dfa = D, pa_prefix = p\<rparr>) t \<longleftrightarrow> dfa_accepts D t \<and> prefix p t"
  by (simp add: prefixed.pruned_accepts_iff pa_accepts_iff)

end

section \<open>The documents of a fuzzy term\<close>

lemma read_blocks_stop: "[] \<notin> set bs \<Longrightarrow> read_blocks (bs @ [[]]) docs = docs @ concat bs"
  by (induction bs arbitrary: docs) auto

lemma expand_terms_ok:
  assumes "\<forall>i \<in> set stream. \<exists>bs. ii_read_block_postings ix i = Inr (bs @ [[]]) \<and> [] \<notin> set bs \<and> concat bs = postings i"
    and "n \<le> m"
  shows "expand_terms ix m n docs stream = Inr (docs @ concat (map postings (take (unat m - unat n) stream)))"
  using assms
proof (induction stream arbitrary: n docs)
  case (Cons i stream)
  obtain bs where bs: "ii_read_block_postings ix i = Inr (bs @ [[]])" "[] \<notin> set bs" "concat bs = postings i"
    using Cons.prems(1) by auto
  show ?case
  proof (cases "n < m")
    case True
    then have n: "unat (n + 1) = unat n + 1" "n + 1 \<le> m"
      using unat_add_u64 [of n 1] unat_u64_less [of m] by (simp_all add: word_less_nat_alt inc_le del: unat_u64_less)
    from True have "unat m - unat n = Suc (unat m - unat (n + 1))"
      using n(1) by (simp add: word_less_nat_alt)
    with True Cons.IH [of "n + 1"] Cons.prems(1) n(2) bs show ?thesis by (simp add: read_blocks_stop)
  next
    case False
    with Cons.prems(2) show ?thesis by (simp add: word_le_nat_alt word_less_nat_alt)
  qed
qed simp

lemma sorted_dedup: "sorted (xs :: doc_id list) \<Longrightarrow> sorted_wrt (<) (remdups_adj xs)"
  by (induction xs rule: remdups_adj.induct) auto

lemma sort_dedup:
  fixes docs :: "doc_id list"
  shows "sorted_wrt (<) (remdups_adj (sort docs))" and "set (remdups_adj (sort docs)) = set docs"
  by (simp_all add: sorted_dedup)

text \<open>
  What the dictionary and the postings of a field are: the search returns the informations of
  the terms the pruning search reaches, in dictionary order, and the blocks of a term end with
  an empty one and hold its documents.
\<close>

definition serves_dictionary ::
  "doc_id \<Rightarrow> ('st, 'i) inverted_index \<Rightarrow> 'st automaton_ops \<Rightarrow> (bytes \<times> 'i) list \<Rightarrow> ('i \<Rightarrow> doc_id list) \<Rightarrow> bool" where
  "serves_dictionary T ix A dict postings \<longleftrightarrow>
     ii_search ix A = Inr (map snd (filter (\<lambda>(t, _). pruned_accepts A t) dict))
     \<and> list_all (\<lambda>(_, i). case ii_read_block_postings ix i of
           Inl _ \<Rightarrow> False
         | Inr bss \<Rightarrow> bss \<noteq> [] \<and> last bss = [] \<and> [] \<notin> set (butlast bss) \<and> concat bss = postings i) dict
     \<and> list_all (\<lambda>(_, i). list_all (\<lambda>d. d < T) (postings i)) dict"

lemma served_postings:
  assumes "serves_dictionary T ix A dict postings" and "(t, i) \<in> set dict"
  shows "\<exists>bs. ii_read_block_postings ix i = Inr (bs @ [[]]) \<and> [] \<notin> set bs \<and> concat bs = postings i"
    and "\<forall>d \<in> set (postings i). d < T"
proof -
  obtain bss where bss: "ii_read_block_postings ix i = Inr bss" "bss \<noteq> []" "last bss = []"
      "[] \<notin> set (butlast bss)" "concat bss = postings i"
    using assms by (cases "ii_read_block_postings ix i") (auto 4 3 simp: serves_dictionary_def list_all_iff)
  then have "bss = butlast bss @ [[]]" by (metis append_butlast_last_id)
  with bss show "\<exists>bs. ii_read_block_postings ix i = Inr (bs @ [[]]) \<and> [] \<notin> set bs \<and> concat bs = postings i"
    by (metis append_Nil2 concat.simps(1) concat.simps(2) concat_append)
  show "\<forall>d \<in> set (postings i). d < T" using assms by (auto simp: serves_dictionary_def list_all_iff)
qed

lemma fuzzy_scorer_docs:
  assumes weight: "fuzzy_weight build_dfa q = Inr w" and str: "term_as_str (cf_term q) = Some text"
    and dfa: "levenshtein_dfa S (build_dfa (cf_distance q) True text)"
    and ix: "sg_inverted_index reader (cw_field w) = Inr ix"
    and serves: "serves_dictionary T ix (pa_ops S (cw_automaton w)) dict postings"
    and terms: "terms = take (unat (cf_max_expansions q))
      (filter (\<lambda>(t, _). dfa_accepts (build_dfa (cf_distance q) True text) t \<and> prefix (as_bytes (cf_prefix q)) t) dict)"
  shows "\<exists>s. fuzzy_scorer T (pa_ops S) reader w boost = Inr (s, boost) \<and> sds_inv T s
     \<and> set (sds_rest s) = (\<Union>(t, i) \<in> set terms. set (postings i))"
proof -
  let ?A = "pa_ops S (cw_automaton w)"
  have w: "cw_automaton w = \<lparr>pa_dfa = build_dfa (cf_distance q) True text, pa_prefix = as_bytes (cf_prefix q)\<rparr>"
      "cw_max_expansions w = cf_max_expansions q"
    using weight str by (auto simp: fuzzy_weight_def)
  have lang: "pruned_accepts ?A t \<longleftrightarrow>
      dfa_accepts (build_dfa (cf_distance q) True text) t \<and> prefix (as_bytes (cf_prefix q)) t" for t
    unfolding w(1) by (rule levenshtein_dfa.pruned_language [OF dfa])
  let ?stream = "filter (\<lambda>(t, _). pruned_accepts ?A t) dict"
  let ?docs = "concat (map postings (map snd terms))"
  have search: "ii_search ix ?A = Inr (map snd ?stream)" using serves by (simp add: serves_dictionary_def)
  have "expand_terms ix (cw_max_expansions w) 0 [] (map snd ?stream)
      = Inr ([] @ concat (map postings (take (unat (cw_max_expansions w) - unat (0 :: usize)) (map snd ?stream))))"
    by (rule expand_terms_ok) (use served_postings(1) [OF serves] in auto)
  then have "expand_terms ix (cw_max_expansions w) 0 [] (map snd ?stream) = Inr ?docs"
    by (simp add: terms w(2) take_map lang)
  then have run: "fuzzy_scorer T (pa_ops S) reader w boost = Inr (sds_new T (remdups_adj (sort ?docs)), boost)"
    using ix search by (simp add: fuzzy_scorer_def)
  have sub: "set terms \<subseteq> set dict" using set_take_subset unfolding terms by (fastforce dest: in_set_takeD)
  have "\<forall>d \<in> set (remdups_adj (sort ?docs)). d < T"
    using served_postings(2) [OF serves] sub by (auto simp: sort_dedup(2))
  from sds_new_inv [OF sort_dedup(1) this] run show ?thesis
    by (auto simp: sort_dedup(2) case_prod_beta intro!: exI [of _ "sds_new T (remdups_adj (sort ?docs))"])
qed

section \<open>Properties of fuzzy terms\<close>

text \<open>
  C35. The prefixed automaton accepts exactly the terms that the Levenshtein automaton accepts
  and that start with the prefix, and when the sink state of the Levenshtein automaton is a
  sink, a search that prunes by \<^verbatim>\<open>can_match\<close> loses none of them.
\<close>

theorem prefixed_automaton_language:
  assumes "levenshtein_dfa S D"
  shows "(au_accepts (pa_ops S \<lparr>pa_dfa = D, pa_prefix = p\<rparr>) t \<longleftrightarrow> dfa_accepts D t \<and> prefix p t)
     \<and> (pruned_accepts (pa_ops S \<lparr>pa_dfa = D, pa_prefix = p\<rparr>) t \<longleftrightarrow> dfa_accepts D t \<and> prefix p t)"
  using levenshtein_dfa.pruned_language [OF assms] by (simp add: pa_accepts_iff)

text \<open>
  C12. The scorer of a fuzzy term yields, in increasing order and each once, exactly the
  documents of the first \<^verbatim>\<open>max_expansions\<close> dictionary terms within the distance that share
  the prefix; its cursor starts in a state that satisfies the contract.
\<close>

theorem fuzzy_scorer_expands:
  assumes "fuzzy_weight build_dfa q = Inr w" and "term_as_str (cf_term q) = Some text"
    and "levenshtein_dfa S (build_dfa (cf_distance q) True text)"
    and "sg_inverted_index reader (cw_field w) = Inr ix"
    and "serves_dictionary T ix (pa_ops S (cw_automaton w)) dict postings"
  shows "\<exists>s. fuzzy_scorer T (pa_ops S) reader w boost = Inr (s, boost) \<and> sds_inv T s
     \<and> sorted_wrt (<) (sds_rest s)
     \<and> set (sds_rest s) = (\<Union>(t, i) \<in> set (take (unat (cf_max_expansions q))
         (filter (\<lambda>(t, _). dfa_accepts (build_dfa (cf_distance q) True text) t
            \<and> prefix (as_bytes (cf_prefix q)) t) dict)). set (postings i))"
proof -
  obtain s where "fuzzy_scorer T (pa_ops S) reader w boost = Inr (s, boost)" and inv: "sds_inv T s"
    and "set (sds_rest s) = (\<Union>(t, i) \<in> set (take (unat (cf_max_expansions q))
         (filter (\<lambda>(t, _). dfa_accepts (build_dfa (cf_distance q) True text) t
            \<and> prefix (as_bytes (cf_prefix q)) t) dict)). set (postings i))"
    using fuzzy_scorer_docs [OF assms refl] by metis
  moreover have "sorted_wrt (<) (sds_rest s)" using sds.rest_sorted [OF inv] by simp
  ultimately show ?thesis by metis
qed

text \<open>
  Explaining a document under a fuzzy term succeeds, with score one, exactly for the
  documents the scorer yields (and for the end marker itself); otherwise it is the error of a
  document that does not match.
\<close>

theorem fuzzy_explain_iff:
  assumes "fuzzy_scorer T ops reader w f32_one = Inr (s, f32_one)" and "sds_inv T s"
    and "\<And>t. snd (ds_seek C t (s, f32_one)) = snd (sds_seek T t s)"
  shows "fuzzy_explain T C ops reader w d =
     (if d \<in> set (sds_rest s) \<or> d = T then Inr (Explanation [Lit ''CappedAutomatonScorer''] f32_one [] [])
      else Inl (InvalidArgument [Lit ''Document does not match fuzzy query'']))"
proof -
  obtain s' e where seek: "sds_seek T d s = (s', e)" by fastforce
  have r: "sds_inv T s'" "sds_rest s' = dropWhile (\<lambda>x. x < d) (sds_rest s)" "e = sds_doc s'"
    using sds_seek_rest [OF assms(2) seek] by auto
  have sorted: "sorted_wrt (<) (sds_rest s)" "\<forall>x \<in> set (sds_rest s). x < T"
    using sds.rest_sorted [OF assms(2)] by auto
  have "e = first_doc T (dropWhile (\<lambda>x. x < d) (sds_rest s))"
    using r sds.doc_rest [OF r(1)] by (simp add: sds_ops_def first_doc_def)
  then have "e = d \<longleftrightarrow> d \<in> set (sds_rest s) \<or> d = T"
    using mem_dropWhile_less [OF sorted(1), of d] sorted(2) dropWhile_eq_Nil_conv [of "\<lambda>x. x < d" "sds_rest s"]
    by (cases "dropWhile (\<lambda>x. x < d) (sds_rest s)") (auto simp: first_doc_def)
  with assms(1,3) seek show ?thesis by (simp add: fuzzy_explain_def)
qed

section \<open>A concrete dictionary\<close>

text \<open>
  A small automaton with the laws: it accepts two or three bytes, state zero is the sink.
\<close>

definition example_dfa :: "u8 \<Rightarrow> bool \<Rightarrow> string \<Rightarrow> dfa" where
  "example_dfa d tr str = \<lparr>dfa_initial_state = 1,
     dfa_distance = \<lambda>s. (if s = 3 \<or> s = 4 then Exact d else AtLeast (d + 1)),
     dfa_transition = \<lambda>s b. (if s = 0 \<or> s = 4 then 0 else s + 1)\<rparr>"

interpretation example_dfa: levenshtein_dfa 0 "example_dfa d tr str" for d tr str
  by unfold_locales (simp_all add: example_dfa_def)

theorem prefixed_automaton_language_witness:
  "au_accepts (pa_ops 0 \<lparr>pa_dfa = example_dfa 1 True ''cat'', pa_prefix = [99]\<rparr>) [99, 97]
     \<and> pruned_accepts (pa_ops 0 \<lparr>pa_dfa = example_dfa 1 True ''cat'', pa_prefix = [99]\<rparr>) [99, 97]
     \<and> \<not> pruned_accepts (pa_ops 0 \<lparr>pa_dfa = example_dfa 1 True ''cat'', pa_prefix = [99]\<rparr>) [97, 97]"
  using prefixed_automaton_language [OF example_dfa.levenshtein_dfa_axioms, of 1 True "''cat''" "[99]" "[99, 97]"]
    prefixed_automaton_language [OF example_dfa.levenshtein_dfa_axioms, of 1 True "''cat''" "[99]" "[97, 97]"]
  by (simp add: dfa_accepts_def example_dfa_def)

definition example_query :: "nat capped_fuzzy_term_query" where
  "example_query = \<lparr>cf_term = \<lparr>term_field = 7, term_as_str = Some ''cat''\<rparr>, cf_distance = 1, cf_prefix = ''c'',
     cf_max_expansions = 2\<rparr>"

definition example_weight :: "(nat, prefixed_dfa_automaton) capped_automaton_weight" where
  "example_weight = \<lparr>cw_field = 7, cw_automaton = \<lparr>pa_dfa = example_dfa 1 True ''cat'', pa_prefix = [99]\<rparr>,
     cw_max_expansions = 2\<rparr>"

definition example_dict :: "(bytes \<times> nat) list" where
  "example_dict = [([97, 97], 0), ([99, 97], 1), ([99, 97, 116], 2), ([99, 111, 119], 3)]"

fun example_postings :: "nat \<Rightarrow> doc_id list" where
  "example_postings n = (if n = 1 then [4, 9] else if n = 2 then [2, 4] else [1])"

definition example_inverted :: "(pa_state, nat) inverted_index" where
  "example_inverted = \<lparr>ii_search = \<lambda>A. Inr (map snd (filter (\<lambda>(t, _). pruned_accepts A t) example_dict)),
     ii_read_block_postings = \<lambda>n. Inr [example_postings n, []]\<rparr>"

definition example_segment :: "(nat, pa_state, nat) segment_reader" where
  "example_segment = \<lparr>sg_inverted_index = \<lambda>_. Inr example_inverted, sg_io = \<lambda>_. TantivyOther []\<rparr>"

lemma example_fuzzy_weight: "fuzzy_weight example_dfa example_query = Inr example_weight"
  by (simp add: fuzzy_weight_def example_query_def example_weight_def as_bytes_def)

lemma example_serves_dictionary:
  "serves_dictionary example_T example_inverted A example_dict example_postings"
  by (simp add: serves_dictionary_def example_inverted_def example_dict_def example_T_def)

lemma example_terms:
  "take (unat (cf_max_expansions example_query))
      (filter (\<lambda>(t, _). dfa_accepts (example_dfa (cf_distance example_query) True ''cat'') t
        \<and> prefix (as_bytes (cf_prefix example_query)) t) example_dict) = [([99, 97], 1), ([99, 97, 116], 2)]"
  by (simp add: example_query_def example_dict_def dfa_accepts_def example_dfa_def as_bytes_def)

lemma example_docs:
  "(\<Union>(t, i) \<in> set [([99, 97 :: u8], 1), ([99, 97, 116], 2 :: nat)]. set (example_postings i)) = {2, 4, 9}"
  by auto

lemma example_text: "term_as_str (cf_term example_query) = Some ''cat''"
  by (simp add: example_query_def)

lemma example_inverted_index: "sg_inverted_index example_segment (cw_field example_weight) = Inr example_inverted"
  by (simp add: example_segment_def)

lemmas example_premises = example_fuzzy_weight example_text example_dfa.levenshtein_dfa_axioms
  example_inverted_index example_serves_dictionary

theorem fuzzy_scorer_expands_witness:
  "\<exists>s. fuzzy_scorer example_T (pa_ops 0) example_segment example_weight f32_one = Inr (s, f32_one)
     \<and> sds_inv example_T s \<and> sorted_wrt (<) (sds_rest s) \<and> set (sds_rest s) = {2, 4, 9}"
  using fuzzy_scorer_expands [OF example_premises, of f32_one] unfolding example_terms example_docs .

theorem fuzzy_explain_iff_witness:
  "fuzzy_explain example_T (const_scorer_ops example_T) (pa_ops 0) example_segment example_weight 4
     = Inr (Explanation [Lit ''CappedAutomatonScorer''] f32_one [] [])
   \<and> fuzzy_explain example_T (const_scorer_ops example_T) (pa_ops 0) example_segment example_weight 5
     = Inl (InvalidArgument [Lit ''Document does not match fuzzy query''])"
proof -
  obtain s where s: "fuzzy_scorer example_T (pa_ops 0) example_segment example_weight f32_one = Inr (s, f32_one)"
      "sds_inv example_T s" and docs: "set (sds_rest s) = {2, 4, 9}"
    using fuzzy_scorer_docs [OF example_premises refl, of f32_one] unfolding example_terms example_docs by metis
  have seek: "snd (ds_seek (const_scorer_ops example_T) t (s, f32_one)) = snd (sds_seek example_T t s)" for t
    by (simp add: const_scorer_ops_def split: prod.splits)
  show ?thesis
    using fuzzy_explain_iff [OF s seek, of 4] fuzzy_explain_iff [OF s seek, of 5]
    by (simp add: docs example_T_def)
qed

end
