(* ===== verification/IcuTokens.thy ===== *)
theory IcuTokens
  imports RustStr
begin

text \<open>
  The ICU tokenizer of \<^verbatim>\<open>core/src/tokenizer/icu.rs\<close>: a stream that cuts a text at the word
  boundaries of a segmenter and, in split mode, also at every character that is not
  alphanumeric. The segmenter (crate icu_segmenter) and the Unicode table behind
  \<^verbatim>\<open>char::is_alphanumeric\<close> are parameters. Offsets are byte offsets; slicing outside of a
  character boundary panics in Rust and is \<open>None\<close> here.
\<close>

section \<open>Slices of a string\<close>

definition is_char_boundary :: "string \<Rightarrow> nat \<Rightarrow> bool" where
  "is_char_boundary s i \<longleftrightarrow> i = 0 \<or> i = length s \<or> i < length s \<and> \<not> is_cont_byte (s ! i)"

definition str_slice :: "string \<Rightarrow> nat \<Rightarrow> nat \<Rightarrow> string option" where
  "str_slice s a b =
     (if a \<le> b \<and> b \<le> length s \<and> is_char_boundary s a \<and> is_char_boundary s b then Some (subslice a b s) else None)"

section \<open>The token stream\<close>

record icu_token =
  offset_from :: nat
  offset_to :: nat
  position :: nat
  token_text :: string
  position_length :: nat

record icu_tokenizer =
  it_segmenter :: "string \<Rightarrow> nat list"
  it_split_on_non_alphanumeric :: bool

definition icu_default :: "(string \<Rightarrow> nat list) \<Rightarrow> icu_tokenizer" where
  "icu_default segmenter = \<lparr>it_segmenter = segmenter, it_split_on_non_alphanumeric = False\<rparr>"

definition with_simple_split :: "icu_tokenizer \<Rightarrow> icu_tokenizer" where
  "with_simple_split t = t\<lparr>it_split_on_non_alphanumeric := True\<rparr>"

record icu_token_stream =
  is_text :: string
  is_boundaries :: "nat list"
  is_offset :: nat
  is_segment_end :: nat
  is_split :: bool
  is_next_position :: nat
  is_token :: icu_token

text \<open>\<open>blank\<close> is \<^verbatim>\<open>Token::default()\<close>; every token that is handed out overwrites all its fields.\<close>

definition token_stream :: "icu_token \<Rightarrow> icu_tokenizer \<Rightarrow> string \<Rightarrow> icu_token_stream" where
  "token_stream blank t str = \<lparr>is_text = str, is_boundaries = it_segmenter t str, is_offset = 0, is_segment_end = 0,
     is_split = it_split_on_non_alphanumeric t, is_next_position = 0, is_token = blank\<rparr>"

text \<open>The first character that is not alphanumeric: its relative offset and its length.\<close>

fun first_separator :: "(string \<Rightarrow> bool) \<Rightarrow> nat \<Rightarrow> string list \<Rightarrow> (nat \<times> nat) option" where
  "first_separator alnum relative [] = None"
| "first_separator alnum relative (g # gs) =
     (if \<not> alnum g then Some (relative, length g) else first_separator alnum (relative + length g) gs)"

text \<open>
  One pass of the loop body after the boundary has been taken: the end of the piece and the next
  offset, then the token unless the piece is empty or has no alphanumeric character.
\<close>

definition cut_piece :: "(string \<Rightarrow> bool) \<Rightarrow> icu_token_stream \<Rightarrow> (nat \<times> nat) option" where
  "cut_piece alnum s =
     (if is_split s then
        map_option (\<lambda>piece. case first_separator alnum 0 (char_groups piece) of
            None \<Rightarrow> (is_segment_end s, is_segment_end s)
          | Some (relative, n) \<Rightarrow> (is_offset s + relative, is_offset s + relative + n))
          (str_slice (is_text s) (is_offset s) (is_segment_end s))
      else Some (is_segment_end s, is_segment_end s))"

definition icu_segment :: "(string \<Rightarrow> bool) \<Rightarrow> icu_token_stream \<Rightarrow> (icu_token_stream \<times> bool) option" where
  "icu_segment alnum s =
     (case cut_piece alnum s of None \<Rightarrow> None
      | Some (end, next) \<Rightarrow>
          let s' = s\<lparr>is_offset := next\<rparr> in
          if is_offset s = end then Some (s', False)
          else (case str_slice (is_text s) (is_offset s) end of None \<Rightarrow> None
            | Some piece \<Rightarrow>
                if \<not> list_ex alnum (char_groups piece) then Some (s', False)
                else Some (s'\<lparr>is_token := \<lparr>offset_from = is_offset s, offset_to = end,
                         position = is_next_position s, token_text = piece, position_length = 1\<rparr>,
                       is_next_position := is_next_position s + 1\<rparr>, True)))"

lemma first_separator_bounds:
  "first_separator alnum r gs = Some (relative, n) \<Longrightarrow> [] \<notin> set gs \<Longrightarrow>
     r \<le> relative \<and> 0 < n \<and> relative + n \<le> r + length (concat gs)"
  by (induction gs arbitrary: r) (fastforce split: if_splits)+

lemma char_groups_no_Nil: "[] \<notin> set (char_groups s)"
  by (induction s rule: char_groups.induct) auto

lemma str_slice_Some:
  "str_slice s a b = Some p \<longleftrightarrow>
     a \<le> b \<and> b \<le> length s \<and> is_char_boundary s a \<and> is_char_boundary s b \<and> p = subslice a b s"
  by (auto simp: str_slice_def)

lemma icu_segment_measure:
  assumes "icu_segment alnum s = Some (s', found)" and "is_offset s \<noteq> is_segment_end s"
  shows "is_boundaries s' = is_boundaries s \<and> is_segment_end s' = is_segment_end s
     \<and> is_offset s < is_offset s' \<and> is_offset s' \<le> is_segment_end s"
proof -
  obtain e n where cut: "cut_piece alnum s = Some (e, n)" and s': "is_offset s' = n"
      "is_boundaries s' = is_boundaries s" "is_segment_end s' = is_segment_end s"
    and slice: "is_offset s = e \<or> is_offset s \<le> e"
    using assms(1) by (auto simp: icu_segment_def Let_def str_slice_Some split: option.splits if_splits)
  show ?thesis
  proof (cases "is_split s")
    case True
    let ?p = "subslice (is_offset s) (is_segment_end s) (is_text s)"
    from cut True assms(2) have le: "is_offset s < is_segment_end s" and len: "is_segment_end s \<le> length (is_text s)"
      by (auto simp: cut_piece_def str_slice_Some)
    have "n = is_segment_end s \<or> (\<exists>r k. first_separator alnum 0 (char_groups ?p) = Some (r, k) \<and> n = is_offset s + r + k)"
      using cut True by (auto simp: cut_piece_def str_slice_Some split: option.splits)
    then show ?thesis
      using s' le len first_separator_bounds [OF _ char_groups_no_Nil, of alnum 0 ?p] by fastforce
  next
    case False
    with cut slice s' assms(2) show ?thesis by (auto simp: cut_piece_def)
  qed
qed

function icu_advance :: "(string \<Rightarrow> bool) \<Rightarrow> icu_token_stream \<Rightarrow> (icu_token_stream \<times> bool) option" where
  "icu_advance alnum s =
     (if is_offset s = is_segment_end s then
        (case is_boundaries s of
           [] \<Rightarrow> Some (s, False)
         | end # bs \<Rightarrow>
             let t = s\<lparr>is_boundaries := bs, is_segment_end := end\<rparr> in
             if is_offset s = end then icu_advance alnum t
             else (case icu_segment alnum t of None \<Rightarrow> None
               | Some (u, found) \<Rightarrow> if found then Some (u, True) else icu_advance alnum u))
      else (case icu_segment alnum s of None \<Rightarrow> None
        | Some (u, found) \<Rightarrow> if found then Some (u, True) else icu_advance alnum u))"
  by pat_completeness auto
termination
  by (relation "inv_image (less_than <*lex*> less_than) (\<lambda>(_, s). (length (is_boundaries s), is_segment_end s - is_offset s))")
    (auto dest!: icu_segment_measure)

declare icu_advance.simps [simp del]

text \<open>The three ways a pass of the loop goes on, and the induction over them.\<close>

lemma icu_advance_steps:
  "is_offset s = is_segment_end s \<Longrightarrow> is_boundaries s = [] \<Longrightarrow> icu_advance alnum s = Some (s, False)"
  "is_offset s = is_segment_end s \<Longrightarrow> is_boundaries s = e # bs \<Longrightarrow>
     icu_advance alnum s = icu_advance alnum (s\<lparr>is_boundaries := bs, is_segment_end := e\<rparr>)"
  "is_offset s \<noteq> is_segment_end s \<Longrightarrow> icu_advance alnum s =
     (case icu_segment alnum s of None \<Rightarrow> None
      | Some (u, found) \<Rightarrow> if found then Some (u, True) else icu_advance alnum u)"
proof -
  show seg: "is_offset s \<noteq> is_segment_end s \<Longrightarrow> icu_advance alnum s =
     (case icu_segment alnum s of None \<Rightarrow> None
      | Some (u, found) \<Rightarrow> if found then Some (u, True) else icu_advance alnum u)" for s
    by (subst icu_advance.simps) simp
  show "is_offset s = is_segment_end s \<Longrightarrow> is_boundaries s = e # bs \<Longrightarrow>
     icu_advance alnum s = icu_advance alnum (s\<lparr>is_boundaries := bs, is_segment_end := e\<rparr>)"
    using seg [of "s\<lparr>is_boundaries := bs, is_segment_end := e\<rparr>"]
    by (subst icu_advance.simps) (simp add: Let_def)
qed (simp add: icu_advance.simps)

lemma icu_advance_induct [case_names Done Boundary Segment]:
  assumes "\<And>s. is_offset s = is_segment_end s \<Longrightarrow> is_boundaries s = [] \<Longrightarrow> P s"
    and "\<And>s e bs. is_offset s = is_segment_end s \<Longrightarrow> is_boundaries s = e # bs \<Longrightarrow>
           P (s\<lparr>is_boundaries := bs, is_segment_end := e\<rparr>) \<Longrightarrow> P s"
    and "\<And>s. is_offset s \<noteq> is_segment_end s \<Longrightarrow> (\<And>u. icu_segment alnum s = Some (u, False) \<Longrightarrow> P u) \<Longrightarrow> P s"
  shows "P s"
proof -
  let ?R = "inv_image (less_than <*lex*> less_than) (\<lambda>s. (length (is_boundaries s), is_segment_end s - is_offset s))"
  have "wf ?R" by auto
  then show ?thesis
  proof (induction s rule: wf_induct_rule)
    case (less s)
    show ?case
    proof (cases "is_offset s = is_segment_end s")
      case True
      show ?thesis
      proof (cases "is_boundaries s")
        case (Cons e bs)
        show ?thesis by (rule assms(2) [OF True Cons]) (rule less, simp add: Cons)
      qed (rule assms(1) [OF True])
    next
      case False
      show ?thesis
        by (rule assms(3) [OF False], rule less) (use False in \<open>auto dest!: icu_segment_measure\<close>)
    qed
  qed
qed

text \<open>All tokens of a stream, as \<^verbatim>\<open>TokenStream::process\<close> visits them.\<close>

lemma icu_advance_measure:
  "icu_advance alnum s = Some (s', True) \<Longrightarrow>
     length (is_boundaries s') < length (is_boundaries s)
     \<or> is_boundaries s' = is_boundaries s \<and> is_segment_end s' - is_offset s' < is_segment_end s - is_offset s"
proof (induction s rule: icu_advance_induct [where alnum = alnum])
  case (Segment s)
  show ?case
  proof (cases "icu_segment alnum s")
    case (Some r)
    obtain u found where r: "r = (u, found)" by fastforce
    note m = icu_segment_measure [OF Some [unfolded r] Segment.hyps(1)]
    show ?thesis using Some r m Segment by (cases found) (fastforce simp: icu_advance_steps)+
  qed (use Segment in \<open>simp add: icu_advance_steps\<close>)
qed (auto simp: icu_advance_steps)

function icu_tokens :: "(string \<Rightarrow> bool) \<Rightarrow> icu_token_stream \<Rightarrow> icu_token list option" where
  "icu_tokens alnum s =
     (case icu_advance alnum s of None \<Rightarrow> None
      | Some (s', found) \<Rightarrow>
          if found then map_option (\<lambda>ts. is_token s' # ts) (icu_tokens alnum s') else Some [])"
  by pat_completeness auto
termination
  by (relation "inv_image (less_than <*lex*> less_than) (\<lambda>(_, s). (length (is_boundaries s), is_segment_end s - is_offset s))")
    (auto dest!: icu_advance_measure)

declare icu_tokens.simps [simp del]

section \<open>The pieces of a text\<close>

text \<open>
  The reference: \<open>runs\<close> scans the characters of a segment and lists the maximal alphanumeric
  runs as byte ranges; without splitting a segment is one piece if it has an alphanumeric
  character.
\<close>

fun runs :: "(string \<Rightarrow> bool) \<Rightarrow> nat \<Rightarrow> nat \<Rightarrow> string list \<Rightarrow> (nat \<times> nat) list" where
  "runs alnum start pos [] = (if start < pos then [(start, pos)] else [])"
| "runs alnum start pos (g # gs) =
     (if alnum g then runs alnum start (pos + length g) gs
      else (if start < pos then [(start, pos)] else []) @ runs alnum (pos + length g) (pos + length g) gs)"

definition seg_pieces :: "(string \<Rightarrow> bool) \<Rightarrow> bool \<Rightarrow> string \<Rightarrow> nat \<Rightarrow> nat \<Rightarrow> (nat \<times> nat) list" where
  "seg_pieces alnum split str a b =
     (let gs = char_groups (subslice a b str) in
      if split then runs alnum a a gs else if list_ex alnum gs then [(a, b)] else [])"

fun spec_pieces :: "(string \<Rightarrow> bool) \<Rightarrow> bool \<Rightarrow> string \<Rightarrow> nat \<Rightarrow> nat list \<Rightarrow> (nat \<times> nat) list" where
  "spec_pieces alnum split str a [] = []"
| "spec_pieces alnum split str a (b # bs) = seg_pieces alnum split str a b @ spec_pieces alnum split str b bs"

definition make_token :: "string \<Rightarrow> nat \<Rightarrow> nat \<times> nat \<Rightarrow> icu_token" where
  "make_token str p ab = \<lparr>offset_from = fst ab, offset_to = snd ab, position = p,
     token_text = subslice (fst ab) (snd ab) str, position_length = 1\<rparr>"

fun make_tokens :: "string \<Rightarrow> nat \<Rightarrow> (nat \<times> nat) list \<Rightarrow> icu_token list" where
  "make_tokens str p [] = []"
| "make_tokens str p (ab # ps) = make_token str p ab # make_tokens str (p + 1) ps"

text \<open>What the segmenter promises: increasing boundaries within the text, between characters.\<close>

definition boundaries_ok :: "string \<Rightarrow> nat list \<Rightarrow> bool" where
  "boundaries_ok str bs \<longleftrightarrow> sorted bs \<and> list_all (\<lambda>b. b \<le> length str \<and> is_char_boundary str b) bs"

definition icu_ok :: "icu_token_stream \<Rightarrow> bool" where
  "icu_ok s \<longleftrightarrow> boundaries_ok (is_text s) (is_offset s # is_segment_end s # is_boundaries s)"

lemma runs_takeWhile:
  "runs alnum start pos gs =
     (let n = length (concat (takeWhile alnum gs)) in
      (if start < pos + n then [(start, pos + n)] else [])
      @ (case dropWhile alnum gs of [] \<Rightarrow> []
         | g # hs \<Rightarrow> runs alnum (pos + n + length g) (pos + n + length g) hs))"
  by (induction gs arbitrary: pos) (auto simp: Let_def add.assoc simp del: dropWhile_eq_Nil_conv split: list.splits)

lemma first_separator_dropWhile:
  "first_separator alnum r gs =
     (case dropWhile alnum gs of [] \<Rightarrow> None
      | g # _ \<Rightarrow> Some (r + length (concat (takeWhile alnum gs)), length g))"
  by (induction gs arbitrary: r) (auto simp del: dropWhile_eq_Nil_conv split: list.splits)

lemma groups_ok_append:
  "groups_ok (xs @ ys) \<Longrightarrow> groups_ok xs \<and> groups_ok ys \<and> (xs \<noteq> [] \<longrightarrow> list_all starts_char ys)"
  by (cases xs; cases ys) (auto simp: groups_ok_def)

lemma subslice_nth: "i < b - a \<Longrightarrow> b \<le> length xs \<Longrightarrow> subslice a b xs ! i = xs ! (a + i)"
  by (simp add: subslice_def)

lemma subslice_drop: "subslice (a + k) b xs = drop k (subslice a b xs)"
  by (simp add: subslice_def drop_take add.commute)

lemma subslice_take: "a + k \<le> b \<Longrightarrow> subslice a (a + k) xs = take k (subslice a b xs)"
  by (simp add: subslice_def)

lemma group_boundary:
  assumes gs: "char_groups (subslice a b str) = xs @ ys" and xs: "xs \<noteq> []"
    and ab: "a \<le> b" "b \<le> length str" "is_char_boundary str b"
  defines "k \<equiv> a + length (concat xs)"
  shows "k \<le> b" and "is_char_boundary str k" and "char_groups (subslice k b str) = ys"
    and "char_groups (subslice a k str) = xs" and "a < k"
proof -
  have str: "subslice a b str = concat xs @ concat ys" using gs by (metis concat_append concat_char_groups)
  have len: "b - a = length (concat xs) + length (concat ys)"
    using str ab by (metis length_append length_subslice)
  then show k: "k \<le> b" using ab(1) unfolding k_def by linarith
  have ok: "groups_ok xs" "groups_ok ys" "list_all starts_char ys"
    using groups_ok_append [of xs ys] groups_ok_char_groups [of "subslice a b str"] gs xs by auto
  have "subslice k b str = concat ys" by (simp add: k_def subslice_drop str)
  then show "char_groups (subslice k b str) = ys" using char_groups_concat [OF ok(2)] by simp
  have "subslice a k str = concat xs" using k by (simp add: k_def subslice_take str)
  then show "char_groups (subslice a k str) = xs" using char_groups_concat [OF ok(1)] by simp
  have "[] \<notin> set xs" using char_groups_no_Nil [of "subslice a b str"] gs by auto
  then show "a < k" using xs by (cases xs) (auto simp: k_def)
  show "is_char_boundary str k"
  proof (cases "ys = []")
    case True
    then have "k = b" using len ab(1) by (simp add: k_def)
    then show ?thesis using ab(3) by simp
  next
    case False
    then have start: "starts_char (concat ys)" using ok(3) by (simp add: concat_starts)
    then have "0 < length (concat ys)" unfolding starts_char_def by blast
    then have "k < b" using len unfolding k_def by linarith
    moreover from this have "str ! k = hd (concat ys)"
      using \<open>subslice k b str = concat ys\<close> subslice_nth [of 0 b k str] ab(2) start
      by (simp add: hd_conv_nth starts_char_def)
    ultimately show ?thesis using start ab(2) by (simp add: is_char_boundary_def starts_char_def)
  qed
qed

section \<open>The stream produces the pieces\<close>

definition state_pieces :: "(string \<Rightarrow> bool) \<Rightarrow> icu_token_stream \<Rightarrow> (nat \<times> nat) list" where
  "state_pieces alnum s =
     seg_pieces alnum (is_split s) (is_text s) (is_offset s) (is_segment_end s)
     @ spec_pieces alnum (is_split s) (is_text s) (is_segment_end s) (is_boundaries s)"

text \<open>What a pass over the current segment does: nothing to report, or the first piece.\<close>

definition segment_result :: "(string \<Rightarrow> bool) \<Rightarrow> icu_token_stream \<Rightarrow> icu_token_stream \<Rightarrow> bool \<Rightarrow> bool" where
  "segment_result alnum s u found \<longleftrightarrow>
     icu_ok u \<and> is_text u = is_text s \<and> is_split u = is_split s
     \<and> (if found then (\<exists>ab. state_pieces alnum s = ab # state_pieces alnum u
            \<and> is_token u = make_token (is_text s) (is_next_position s) ab)
          \<and> is_next_position u = is_next_position s + 1
        else state_pieces alnum s = state_pieces alnum u \<and> is_next_position u = is_next_position s)"

lemma seg_pieces_empty [simp]: "seg_pieces alnum split str a a = []"
  by (simp add: seg_pieces_def)

lemma icu_ok_cases:
  assumes "icu_ok s"
  shows "is_offset s \<le> is_segment_end s" and "is_segment_end s \<le> length (is_text s)"
    and "is_char_boundary (is_text s) (is_offset s)" and "is_char_boundary (is_text s) (is_segment_end s)"
  using assms by (auto simp: icu_ok_def boundaries_ok_def)

lemma icu_ok_move:
  assumes "icu_ok s" and "is_char_boundary (is_text s) k" and "k \<le> is_segment_end s"
  shows "icu_ok (s\<lparr>is_offset := k\<rparr>)"
  using assms by (auto simp: icu_ok_def boundaries_ok_def)

lemma icu_ok_frame [simp]: "icu_ok (s\<lparr>is_token := t, is_next_position := n\<rparr>) = icu_ok s"
  by (simp add: icu_ok_def)

lemma state_pieces_frame [simp]:
  "state_pieces alnum (s\<lparr>is_token := t, is_next_position := n\<rparr>) = state_pieces alnum s"
  by (simp add: state_pieces_def)

lemma segment_whole:
  assumes ok: "icu_ok s" and ne: "is_offset s \<noteq> is_segment_end s" and split: "\<not> is_split s"
  shows "\<exists>u found. icu_segment alnum s = Some (u, found) \<and> segment_result alnum s u found"
proof -
  note c = icu_ok_cases [OF ok]
  have slice: "str_slice (is_text s) (is_offset s) (is_segment_end s)
      = Some (subslice (is_offset s) (is_segment_end s) (is_text s))"
    using c by (simp add: str_slice_def)
  show ?thesis
    using slice ne split icu_ok_move [OF ok c(4)]
    by (auto simp: icu_segment_def cut_piece_def segment_result_def Let_def state_pieces_def seg_pieces_def make_token_def)
qed

lemma segment_split:
  assumes ok: "icu_ok s" and ne: "is_offset s \<noteq> is_segment_end s" and split: "is_split s"
  shows "\<exists>u found. icu_segment alnum s = Some (u, found) \<and> segment_result alnum s u found"
proof -
  note c = icu_ok_cases [OF ok]
  let ?a = "is_offset s" and ?b = "is_segment_end s" and ?str = "is_text s"
  let ?gs = "char_groups (subslice ?a ?b ?str)"
  let ?pre = "takeWhile alnum ?gs"
  let ?n = "length (concat ?pre)"
  have slice: "str_slice ?str ?a ?b = Some (subslice ?a ?b ?str)" using c by (simp add: str_slice_def)
  have gs: "?gs \<noteq> []" using c ne by (simp add: subslice_def)
  have pieces: "seg_pieces alnum True ?str ?a ?b = runs alnum ?a ?a ?gs" by (simp add: seg_pieces_def)
  show ?thesis
  proof (cases "dropWhile alnum ?gs")
    case Nil
    then have all: "?pre = ?gs" by (metis append_Nil2 takeWhile_dropWhile_id)
    then have "list_ex alnum ?gs" using gs by (cases ?gs) (auto simp: list_ex_iff takeWhile_eq_all_conv)
    moreover have "runs alnum ?a ?a ?gs = [(?a, ?b)]"
      using runs_takeWhile [of alnum ?a ?a ?gs] Nil c ne unfolding all by (simp add: Let_def)
    ultimately show ?thesis
      using slice ne split icu_ok_move [OF ok c(4)] Nil pieces
      by (auto simp: icu_segment_def cut_piece_def first_separator_dropWhile segment_result_def Let_def
          state_pieces_def make_token_def simp del: dropWhile_eq_Nil_conv)
  next
    case (Cons g hs)
    let ?k = "?a + ?n + length g"
    have cut: "cut_piece alnum s = Some (?a + ?n, ?k)"
      using slice split Cons by (simp add: cut_piece_def first_separator_dropWhile)
    have parts: "?gs = (?pre @ [g]) @ hs" using takeWhile_dropWhile_id [of alnum ?gs] Cons by simp
    note gb = group_boundary [OF parts _ c(1,2,4)]
    have k: "?k \<le> ?b" "is_char_boundary ?str ?k" "char_groups (subslice ?k ?b ?str) = hs"
      using gb(1-3) by (simp_all add: add.assoc)
    have u: "icu_ok (s\<lparr>is_offset := ?k\<rparr>)" by (rule icu_ok_move [OF ok k(2,1)])
    have "[] \<notin> set ?pre" using char_groups_no_Nil by (metis set_takeWhileD)
    then have n0: "?a < ?a + ?n \<longleftrightarrow> ?pre \<noteq> []" by (cases ?pre) auto
    have rs: "seg_pieces alnum True ?str ?a ?b
        = (if ?pre = [] then [] else [(?a, ?a + ?n)]) @ seg_pieces alnum True ?str ?k ?b"
      unfolding pieces runs_takeWhile [of alnum ?a ?a ?gs] Cons Let_def n0
      by (simp add: seg_pieces_def k(3))
    show ?thesis
    proof (cases "?pre = []")
      case True
      then show ?thesis
        using cut u rs split by (auto simp: icu_segment_def segment_result_def state_pieces_def)
    next
      case False
      have parts': "?gs = ?pre @ (g # hs)" using parts by simp
      note p = group_boundary [OF parts' False c(1,2,4)]
      have "str_slice ?str ?a (?a + ?n) = Some (subslice ?a (?a + ?n) ?str)"
        using p(1,2,5) c by (simp add: str_slice_def)
      moreover have "list_ex alnum (char_groups (subslice ?a (?a + ?n) ?str))"
        unfolding p(4) using False by (metis hd_in_set list_ex_iff set_takeWhileD)
      ultimately show ?thesis
        using cut u rs split False p(5)
        by (auto simp: icu_segment_def segment_result_def state_pieces_def Let_def make_token_def)
    qed
  qed
qed

lemma icu_segment_pieces:
  assumes "icu_ok s" and "is_offset s \<noteq> is_segment_end s"
  shows "\<exists>u found. icu_segment alnum s = Some (u, found) \<and> segment_result alnum s u found"
  using segment_whole [OF assms] segment_split [OF assms] by (cases "is_split s") auto

lemma segment_result_trans:
  "segment_result alnum s t False \<Longrightarrow> segment_result alnum t u found \<Longrightarrow> segment_result alnum s u found"
  by (cases found) (simp_all add: segment_result_def)

lemma segment_result_boundary:
  assumes "icu_ok s" and "is_offset s = is_segment_end s" and "is_boundaries s = e # bs"
  shows "segment_result alnum s (s\<lparr>is_boundaries := bs, is_segment_end := e\<rparr>) False"
  using assms by (simp add: segment_result_def icu_ok_def boundaries_ok_def state_pieces_def)

lemma icu_advance_pieces:
  "icu_ok s \<Longrightarrow> \<exists>u found. icu_advance alnum s = Some (u, found)
     \<and> segment_result alnum s u found \<and> (\<not> found \<longrightarrow> state_pieces alnum s = [])"
proof (induction s rule: icu_advance_induct [where alnum = alnum])
  case (Done s)
  then show ?case by (auto simp: icu_advance_steps segment_result_def state_pieces_def)
next
  case (Boundary s e bs)
  let ?t = "s\<lparr>is_boundaries := bs, is_segment_end := e\<rparr>"
  have st: "segment_result alnum s ?t False" by (rule segment_result_boundary [OF Boundary.prems Boundary.hyps])
  then have "icu_ok ?t" "state_pieces alnum s = state_pieces alnum ?t" by (simp_all add: segment_result_def)
  with Boundary.IH obtain u found where "icu_advance alnum ?t = Some (u, found)" "segment_result alnum ?t u found"
      "\<not> found \<longrightarrow> state_pieces alnum s = []" by auto
  moreover have "icu_advance alnum s = icu_advance alnum ?t" by (rule icu_advance_steps(2) [OF Boundary.hyps])
  ultimately show ?case using segment_result_trans [OF st] by auto
next
  case (Segment s)
  obtain t found where step: "icu_segment alnum s = Some (t, found)" and st: "segment_result alnum s t found"
    using icu_segment_pieces [OF Segment.prems Segment.hyps(1)] by blast
  show ?case
  proof (cases found)
    case True
    with step st icu_advance_steps(3) [OF Segment.hyps(1), of alnum] show ?thesis by auto
  next
    case False
    then have t: "icu_ok t" "state_pieces alnum s = state_pieces alnum t" using st by (simp_all add: segment_result_def)
    obtain u found' where "icu_advance alnum t = Some (u, found')" "segment_result alnum t u found'"
        "\<not> found' \<longrightarrow> state_pieces alnum s = []"
      using Segment.IH [of t] step False t by auto
    moreover have "icu_advance alnum s = icu_advance alnum t"
      using step False icu_advance_steps(3) [OF Segment.hyps(1), of alnum] by simp
    ultimately show ?thesis using segment_result_trans st False by auto
  qed
qed

lemma icu_tokens_state:
  "icu_ok s \<Longrightarrow> icu_tokens alnum s = Some (make_tokens (is_text s) (is_next_position s) (state_pieces alnum s))"
proof (induction "state_pieces alnum s" arbitrary: s)
  case Nil
  then show ?case
    using icu_advance_pieces [OF Nil.prems, of alnum]
    by (subst icu_tokens.simps) (auto simp: segment_result_def split: if_splits)
next
  case (Cons ab ps)
  obtain u where "icu_advance alnum s = Some (u, True)" "segment_result alnum s u True"
    using icu_advance_pieces [OF Cons.prems, of alnum] Cons.hyps(2) by (metis list.distinct(1))
  then show ?case
    using Cons.hyps by (subst icu_tokens.simps) (auto simp: segment_result_def)
qed

section \<open>What the pieces are\<close>

text \<open>Disjoint non-empty ranges in increasing order between two offsets.\<close>

fun ranges_in :: "nat \<Rightarrow> (nat \<times> nat) list \<Rightarrow> nat \<Rightarrow> bool" where
  "ranges_in a [] b \<longleftrightarrow> a \<le> b"
| "ranges_in a ((x, y) # ps) b \<longleftrightarrow> a \<le> x \<and> x < y \<and> ranges_in y ps b"

definition piece_groups :: "string \<Rightarrow> nat \<times> nat \<Rightarrow> string list" where
  "piece_groups str ab = char_groups (subslice (fst ab) (snd ab) str)"

lemma ranges_in_append: "ranges_in a ps b \<Longrightarrow> ranges_in b qs c \<Longrightarrow> ranges_in a (ps @ qs) c"
proof (induction ps arbitrary: a)
  case Nil
  then show ?case by (cases qs) auto
qed auto

lemma ranges_in_weaken: "ranges_in a ps b \<Longrightarrow> a' \<le> a \<Longrightarrow> ranges_in a' ps b"
  by (cases ps) auto

lemma runs_ok:
  assumes "char_groups (subslice st b str) = acc @ gs" and "list_all alnum acc"
    and "pos = st + length (concat acc)" and "st \<le> b" "b \<le> length str" "is_char_boundary str b"
  shows "ranges_in st (runs alnum st pos gs) b
     \<and> list_all (\<lambda>p. piece_groups str p \<noteq> [] \<and> list_all alnum (piece_groups str p)) (runs alnum st pos gs)
     \<and> concat (map (piece_groups str) (runs alnum st pos gs)) = acc @ filter alnum gs"
  using assms
proof (induction gs arbitrary: acc st pos)
  case Nil
  show ?case
  proof (cases "acc = []")
    case False
    from group_boundary [OF Nil.prems(1) False Nil.prems(4-6)] Nil.prems False show ?thesis
      by (auto simp: piece_groups_def)
  qed (use Nil in simp)
next
  case (Cons g gs)
  have split: "char_groups (subslice st b str) = (acc @ [g]) @ gs" using Cons.prems(1) by simp
  note k = group_boundary [OF split _ Cons.prems(4-6)]
  show ?case
  proof (cases "alnum g")
    case True
    with Cons.IH [of st "acc @ [g]" "pos + length g"] Cons.prems show ?thesis by simp
  next
    case False
    let ?k = "pos + length g"
    have rest: "char_groups (subslice ?k b str) = [] @ gs" "?k \<le> b" using k(1,3) Cons.prems(3) by (simp_all add: add.assoc)
    note IH = Cons.IH [OF rest(1) _ _ rest(2) Cons.prems(5,6), of ?k]
    have "pos \<le> ?k" by simp
    show ?thesis
    proof (cases "acc = []")
      case True
      with IH False Cons.prems(3) ranges_in_weaken [of ?k _ b st] show ?thesis by simp
    next
      case ne: False
      from group_boundary [OF Cons.prems(1) ne Cons.prems(4-6)]
      have "st < pos" "piece_groups str (st, pos) = acc" using Cons.prems(3) by (simp_all add: piece_groups_def)
      with IH False ne Cons.prems(2) ranges_in_weaken [of ?k _ b pos] show ?thesis by simp
    qed
  qed
qed

lemma seg_pieces_ok:
  assumes "a \<le> b" "b \<le> length str" "is_char_boundary str b"
  shows "ranges_in a (seg_pieces alnum split str a b) b
     \<and> list_all (\<lambda>p. list_ex alnum (piece_groups str p) \<and> (split \<longrightarrow> list_all alnum (piece_groups str p)))
         (seg_pieces alnum split str a b)
     \<and> concat (map (\<lambda>p. filter alnum (piece_groups str p)) (seg_pieces alnum split str a b))
         = filter alnum (char_groups (subslice a b str))"
proof (cases split)
  case True
  let ?ps = "runs alnum a a (char_groups (subslice a b str))"
  have r: "ranges_in a ?ps b"
      "list_all (\<lambda>p. piece_groups str p \<noteq> [] \<and> list_all alnum (piece_groups str p)) ?ps"
      "concat (map (piece_groups str) ?ps) = filter alnum (char_groups (subslice a b str))"
    using runs_ok [of a b str "[]" "char_groups (subslice a b str)" alnum a] assms by simp_all
  have eq: "map (\<lambda>p. filter alnum (piece_groups str p)) ?ps = map (piece_groups str) ?ps"
    using r(2) by (auto simp: list_all_iff)
  have "list_all (\<lambda>p. list_ex alnum (piece_groups str p) \<and> list_all alnum (piece_groups str p)) ?ps"
    using r(2) by (fastforce simp: list_all_iff list_ex_iff neq_Nil_conv)
  then show ?thesis using r True by (simp add: seg_pieces_def eq)
next
  case False
  have "a < b" if "list_ex alnum (char_groups (subslice a b str))" using that assms(1) by (cases "a = b") auto
  then show ?thesis
    using assms False
    by (auto simp: seg_pieces_def piece_groups_def Let_def list_ex_iff filter_empty_conv)
qed

lemma char_groups_join:
  assumes "a \<le> b" "b \<le> c" "c \<le> length str" "is_char_boundary str b"
  shows "char_groups (subslice a c str) = char_groups (subslice a b str) @ char_groups (subslice b c str)"
proof -
  let ?xs = "char_groups (subslice a b str)" and ?ys = "char_groups (subslice b c str)"
  have "groups_ok (?xs @ ?ys)"
  proof (cases "?xs = [] \<or> ?ys = []")
    case False
    then have ne: "subslice a b str \<noteq> []" "subslice b c str \<noteq> []" by auto
    then have lt: "a < b" "b < c" using assms(1,2) by (cases "a = b"; cases "b = c"; simp)+
    then have "\<not> is_cont_byte (str ! b)" using assms by (simp add: is_char_boundary_def)
    moreover have "hd (subslice b c str) = str ! b"
      using ne(2) lt assms(3) subslice_nth [of 0 c b str] by (simp add: hd_conv_nth)
    ultimately have start: "starts_char (hd ?ys)"
      using ne(2) by (cases "subslice b c str") (simp_all add: starts_char_def)
    with False show ?thesis
      using groups_ok_char_groups [of "subslice a b str"] groups_ok_char_groups [of "subslice b c str"]
      by (cases ?xs; cases ?ys) (auto simp: groups_ok_def)
  qed (use groups_ok_char_groups in auto)
  then have "char_groups (concat (?xs @ ?ys)) = ?xs @ ?ys" by (rule char_groups_concat)
  then show ?thesis using subslice_join [OF assms(1,2), of str] by simp
qed

lemma spec_pieces_ok:
  assumes "boundaries_ok str (a # bs)" and "last (a # bs) = c"
  shows "ranges_in a (spec_pieces alnum split str a bs) c
     \<and> list_all (\<lambda>p. list_ex alnum (piece_groups str p) \<and> (split \<longrightarrow> list_all alnum (piece_groups str p)))
         (spec_pieces alnum split str a bs)
     \<and> concat (map (\<lambda>p. filter alnum (piece_groups str p)) (spec_pieces alnum split str a bs))
         = filter alnum (char_groups (subslice a c str))"
  using assms
proof (induction bs arbitrary: a)
  case (Cons b bs)
  have b: "a \<le> b" "b \<le> length str" "is_char_boundary str b" and bs: "boundaries_ok str (b # bs)"
    using Cons.prems(1) by (auto simp: boundaries_ok_def)
  have c: "last (b # bs) = c" using Cons.prems(2) by simp
  have "c \<in> set (b # bs)" using c by (metis last_in_set list.distinct(1))
  then have bc: "b \<le> c" "c \<le> length str" using bs by (auto simp: boundaries_ok_def list_all_iff)
  from seg_pieces_ok [OF b, of alnum split] Cons.IH [OF bs c] char_groups_join [OF b(1) bc b(3)]
  show ?case by (auto intro: ranges_in_append)
qed auto

lemma make_tokens_facts:
  "map position (make_tokens str p ps) = [p..<p + length ps]"
  "map (\<lambda>t. (offset_from t, offset_to t)) (make_tokens str p ps) = ps"
  "map token_text (make_tokens str p ps) = map (\<lambda>ab. subslice (fst ab) (snd ab) str) ps"
  "length (make_tokens str p ps) = length ps"
  by (induction ps arbitrary: p) (simp_all add: make_token_def upt_conv_Cons del: upt_Suc)

lemma make_tokens_groups:
  "map (\<lambda>k. filter alnum (char_groups (token_text k))) (make_tokens str p ps)
     = map (\<lambda>ab. filter alnum (piece_groups str ab)) ps"
  by (induction ps arbitrary: p) (simp_all add: make_token_def piece_groups_def)

lemma make_tokens_all:
  "list_all (\<lambda>ab. Q (piece_groups str ab)) ps \<Longrightarrow>
     list_all (\<lambda>k. token_text k = subslice (offset_from k) (offset_to k) str \<and> Q (char_groups (token_text k)))
       (make_tokens str p ps)"
  by (induction ps arbitrary: p) (simp_all add: make_token_def piece_groups_def)

lemma icu_tokens_start:
  assumes "boundaries_ok str (it_segmenter t str)"
  shows "icu_tokens alnum (token_stream blank t str)
     = Some (make_tokens str 0 (spec_pieces alnum (it_split_on_non_alphanumeric t) str 0 (it_segmenter t str)))"
  using assms icu_tokens_state [of "token_stream blank t str" alnum]
  by (simp add: icu_ok_def token_stream_def boundaries_ok_def is_char_boundary_def state_pieces_def)

section \<open>Properties of the tokenizer\<close>

text \<open>
  C13. With boundaries that lie between characters and do not decrease, the stream never panics,
  ends, and its tokens are the pieces of the reference: per segment the maximal alphanumeric
  runs in split mode, else the whole segment if it has an alphanumeric character; positions
  count from zero.
\<close>

theorem icu_stream_refines:
  assumes "boundaries_ok str (it_segmenter t str)"
  shows "icu_tokens alnum (token_stream blank t str)
     = Some (make_tokens str 0 (spec_pieces alnum (it_split_on_non_alphanumeric t) str 0 (it_segmenter t str)))"
  by (rule icu_tokens_start [OF assms])

text \<open>
  C36. When the boundaries also reach the end of the text, the tokens are disjoint ranges of the
  text in increasing order with consecutive positions, each has an alphanumeric character, in
  split mode nothing else, and no alphanumeric character of the text is lost or duplicated.
\<close>

theorem icu_tokens_cover:
  assumes "boundaries_ok str (it_segmenter t str)" and "last (0 # it_segmenter t str) = length str"
    and "icu_tokens alnum (token_stream blank t str) = Some ts"
  shows "map position ts = [0..<length ts]
     \<and> ranges_in 0 (map (\<lambda>k. (offset_from k, offset_to k)) ts) (length str)
     \<and> list_all (\<lambda>k. token_text k = subslice (offset_from k) (offset_to k) str
          \<and> list_ex alnum (char_groups (token_text k))
          \<and> (it_split_on_non_alphanumeric t \<longrightarrow> list_all alnum (char_groups (token_text k)))) ts
     \<and> concat (map (\<lambda>k. filter alnum (char_groups (token_text k))) ts) = filter alnum (char_groups str)"
proof -
  let ?ps = "spec_pieces alnum (it_split_on_non_alphanumeric t) str 0 (it_segmenter t str)"
  have ts: "ts = make_tokens str 0 ?ps" using icu_tokens_start [OF assms(1)] assms(3) by simp
  have "boundaries_ok str (0 # it_segmenter t str)"
    using assms(1) by (simp add: boundaries_ok_def is_char_boundary_def)
  note ok = spec_pieces_ok [OF this assms(2), of alnum "it_split_on_non_alphanumeric t"]
  have cover: "concat (map (\<lambda>k. filter alnum (char_groups (token_text k))) ts) = filter alnum (char_groups str)"
    using ok make_tokens_groups [of alnum str 0 ?ps] ts by simp
  show ?thesis
    using ok cover make_tokens_facts [of str 0 ?ps] ts
      make_tokens_all [of "\<lambda>gs. list_ex alnum gs \<and> (it_split_on_non_alphanumeric t \<longrightarrow> list_all alnum gs)" str ?ps 0]
    by simp
qed

section \<open>A concrete text\<close>

text \<open>ASCII letters as the alphanumeric characters; word boundaries around \<open>foo_bar\<close> and a dash.\<close>

definition example_alnum :: "string \<Rightarrow> bool" where
  "example_alnum g \<longleftrightarrow> g \<in> set (map (\<lambda>c. [c]) ''abfor'')"

definition example_segmenter :: "string \<Rightarrow> nat list" where
  "example_segmenter str = (if str = ''foo_bar-ba'' then [0, 7, 8, 10] else [])"

definition example_blank :: icu_token where
  "example_blank = \<lparr>offset_from = 0, offset_to = 0, position = 0, token_text = [], position_length = 1\<rparr>"

abbreviation example_split where
  "example_split \<equiv> with_simple_split (icu_default example_segmenter)"

lemma example_boundaries:
  "boundaries_ok ''foo_bar-ba'' (it_segmenter example_split ''foo_bar-ba'')"
  "last (0 # it_segmenter example_split ''foo_bar-ba'') = length ''foo_bar-ba''"
  by (simp_all add: boundaries_ok_def is_char_boundary_def example_segmenter_def icu_default_def with_simple_split_def)

theorem icu_stream_refines_witness:
  "icu_tokens example_alnum (token_stream example_blank example_split ''foo_bar-ba'')
     = Some [\<lparr>offset_from = 0, offset_to = 3, position = 0, token_text = ''foo'', position_length = 1\<rparr>,
             \<lparr>offset_from = 4, offset_to = 7, position = 1, token_text = ''bar'', position_length = 1\<rparr>,
             \<lparr>offset_from = 8, offset_to = 10, position = 2, token_text = ''ba'', position_length = 1\<rparr>]"
  using icu_stream_refines [OF example_boundaries(1), of example_alnum example_blank]
  by (simp add: example_segmenter_def icu_default_def with_simple_split_def seg_pieces_def subslice_def
      example_alnum_def make_token_def)

theorem icu_tokens_cover_witness:
  "\<exists>ts. icu_tokens example_alnum (token_stream example_blank example_split ''foo_bar-ba'') = Some ts
     \<and> map position ts = [0..<length ts]
     \<and> ranges_in 0 (map (\<lambda>k. (offset_from k, offset_to k)) ts) (length ''foo_bar-ba'')
     \<and> concat (map (\<lambda>k. filter example_alnum (char_groups (token_text k))) ts)
         = filter example_alnum (char_groups ''foo_bar-ba'')"
proof -
  obtain ts where ts: "icu_tokens example_alnum (token_stream example_blank example_split ''foo_bar-ba'') = Some ts"
    using icu_tokens_start [OF example_boundaries(1), of example_alnum example_blank] by metis
  note cover = icu_tokens_cover [OF example_boundaries ts]
  show ?thesis
    by (rule exI [of _ ts], intro conjI ts cover [THEN conjunct1] cover [THEN conjunct2, THEN conjunct1]
        cover [THEN conjunct2, THEN conjunct2, THEN conjunct2])
qed

end
