(* ===== verification/Spec2Isabelle.thy ===== *)
theory Spec2Isabelle
  imports JniApi IndexSearch Fuzzy IcuTokens
begin

text \<open>
  Verification of the Apache Paimon full-text index: a Rust library that writes a tantivy index
  into one self-describing archive and searches it in place by positional reads, with a C and a
  Java interface over it.

  \<^bold>\<open>The program.\<close> A writer (\<^verbatim>\<open>core/src/index.rs\<close>, \<^verbatim>\<open>FullTextIndexWriter\<close>) takes a configuration
  (\<^verbatim>\<open>core/src/config.rs\<close>, \<^verbatim>\<open>core/src/tokenizer.rs\<close>), adds documents to a tantivy index in a
  temporary directory, and at the end streams the files of that directory behind a header into an
  output (\<^verbatim>\<open>core/src/storage.rs\<close>). A reader reads and validates the header, puts a read-only
  directory with a block cache over the input (\<^verbatim>\<open>core/src/archive_directory.rs\<close>), opens the index
  in it, parses a JSON query (\<^verbatim>\<open>core/src/query.rs\<close>), builds a tantivy query from it
  (\<^verbatim>\<open>core/src/index.rs\<close>, with scorers of its own for demotion and fuzzy terms) and returns row ids
  and scores. \<^verbatim>\<open>ffi/src/lib.rs\<close> and \<^verbatim>\<open>jni/src/lib.rs\<close> hand both to C and Java.

  \<^bold>\<open>The theories\<close>, in the order of the imports:

  \<^item> \<^verbatim>\<open>Prelude\<close>: words for Rust's integers with checked and saturating arithmetic, the result and
    state-result combinators, messages and the error type of \<^verbatim>\<open>core/src/error.rs\<close>. Two fact
    collections, \<open>res_simps\<close> (inversion of sequenced results) and \<open>word_simps\<close>, carry the proofs.
  \<^item> \<^verbatim>\<open>RustStr\<close>: the operations of \<^verbatim>\<open>str\<close> on strings of UTF-8 bytes. \<^verbatim>\<open>F32\<close>: the IEEE 754 single
    format on 32-bit words, with rounding to nearest, as far as the code uses it.
  \<^item> \<^verbatim>\<open>IoLayer\<close> (\<^verbatim>\<open>core/src/io.rs\<close>): positional reads and sequential writes with their metrics; the
    traits \<^verbatim>\<open>SeekRead\<close> and \<^verbatim>\<open>SeekWrite\<close> are the locales \<open>seek_read\<close>, \<open>total_seek_read\<close> and
    \<open>seek_writer\<close>.
  \<^item> \<^verbatim>\<open>Tokenizer\<close>, \<^verbatim>\<open>Config\<close>: options, parsing, validation; the locale \<open>option_field\<close> is the contract
    of one option, from which independence of the order of a hash map follows.
  \<^item> \<^verbatim>\<open>Json\<close>, \<^verbatim>\<open>HeaderCodec\<close>, \<^verbatim>\<open>Storage\<close>: the shape serde derives, and the archive: both writers, the
    header with its validation, batched reading.
  \<^item> \<^verbatim>\<open>ArchiveDirectory\<close>: the directory and its FIFO block cache; one read is a machine of atomic
    steps (the critical sections of its mutex and the reads between them) and \<open>interleave\<close> runs
    many of them at once.
  \<^item> \<^verbatim>\<open>QuerySpec\<close>, \<^verbatim>\<open>Analyzer\<close>, \<^verbatim>\<open>QueryBuilder\<close>: the JSON query language, the schema and the analyzer
    of an index, and \<^verbatim>\<open>build_query\<close>.
  \<^item> \<^verbatim>\<open>QueryMeaning\<close>: when a document satisfies a specification of the query language
    (\<open>query_holds\<close>), and the refinement: the query built from a specification selects exactly those.
  \<^item> \<^verbatim>\<open>DocSets\<close>, \<^verbatim>\<open>Fuzzy\<close>, \<^verbatim>\<open>IcuTokens\<close>: document cursors (locales \<open>docset\<close> and \<open>scorer\<close>, with the
    demoting scorer as a sublocale), fuzzy expansion over an automaton (locales \<open>automaton\<close> and
    \<open>levenshtein_dfa\<close>), and the ICU token stream.
  \<^item> \<^verbatim>\<open>Writer\<close>, \<^verbatim>\<open>Reader\<close>, \<^verbatim>\<open>IndexChain\<close>: the two entry points of the core, runs of their operations
    (\<open>writer_run\<close>, \<open>exec_reader\<close>), and the chain from the one to the other.
  \<^item> \<^verbatim>\<open>IndexSearch\<close>: the contract of an index that stores the documents added to it and answers a
    query with the best of those it selects, an engine that meets it, and what a search over the
    chain returns in terms of the additions (\<open>matching_rows\<close>).
  \<^item> \<^verbatim>\<open>HandleStore\<close>, \<^verbatim>\<open>FfiApi\<close>, \<^verbatim>\<open>JniApi\<close>: the objects behind handles (the locale \<open>handle_store\<close>, which
    both interfaces interpret), the C functions with error reporting, argument checks, callbacks
    and result buffers, and the native methods with Java streams, arrays and exceptions.

  \<^bold>\<open>Correspondence.\<close> A struct is a record, an enum a datatype, a method a definition that takes the
  state and returns it updated; errors are values \<open>Inl\<close>, panics a value of their own where the
  code can reach one, undefined behaviour behind a C pointer is \<open>None\<close>. Integers keep their width.
  A loop is a recursive function over the rest of its work; names are those of the source where
  Isabelle allows it. What the source does inside one function is sometimes split into several
  definitions, one per loop or closure.

  \<^bold>\<open>Parameters.\<close> Code that is not in the repository is an argument: the text codec of serde_json
  (\<open>json_text\<close>), Unicode tables and the ICU segmenter, tantivy (records of functions: \<open>analyzer_env\<close>,
  \<open>tantivy_index\<close>, \<open>writer_api\<close>, \<open>reader_api\<close>, the operations of cursors and weights), the
  Levenshtein automaton, the roaring decoder, the file system, the allocator, the C callbacks and
  the Java virtual machine. What a theorem relies on is a hypothesis that states their documented
  behaviour, mostly as the predicate of a locale, and every such theorem has a witness on concrete
  functions.

  \<^bold>\<open>What is shown.\<close> The archive reads back as it was written, a failed write leaves a prefix, an
  accepted header describes disjoint ranges; the cache is transparent, bounded and safe
  under any interleaving of concurrent reads, each of which is done after four turns, and keeps a
  fetched block while fewer than 256 others are asked for; options that are given once do not depend on the order of a hash
  map, and where they are given twice they do; a query is accepted exactly under the documented
  conditions, means what the language documents and is built only from valid parts; a search over an
  index opened from a written archive finds exactly the rows whose texts match; the demoting scorer
  is a cursor over the positive documents with the demoted scores; fuzzy expansion yields exactly
  the documents of the first matching terms; the ICU stream never panics and loses no text; a
  writer is single-use and counts its documents; a field with a blank-padded name is indexed and not
  searched; searches are bounded, sorted and filtered; the two
  interfaces keep handles apart, report every failure, never write beyond a buffer, and an index
  written through either of them opens again with its configuration and count.

  \<^bold>\<open>Bounds.\<close> A read takes at most four steps, which \<open>read_run\<close> and the schedules use; no other
  definition has fuel, all functions terminate. The header limit (16 MiB), the write buffer (64 KiB),
  the read batches (64 ranges, 64 MiB) and the cache (256 blocks of 64 KiB) are the constants of the
  source. Lengths are compared with \<open>2 ^ 64\<close> where the code checks for overflow, and with \<open>2 ^ 31\<close>
  and \<open>2 ^ 63\<close> where Java's integers are reached.

  \<^bold>\<open>Not modelled.\<close> The search inside tantivy and the ranking of its scorers, which are a contract
  (\<open>stores_documents\<close>, \<open>searches_documents\<close>) where a theorem needs them; waiting for the mutex of
  the cache, whose critical sections are single steps; a Java exception that is already pending when
  an error is thrown; the removal of the
  temporary directory and of boxes when they are dropped; \<^verbatim>\<open>Debug\<close> output, \<^verbatim>\<open>Clone\<close> of shared
  pointers and \<^verbatim>\<open>watch\<close> of the directory, which carry no state; the texts of foreign
  errors; the Java classes, the Python package and the C header, which call the interfaces modelled
  here; tests, tools and build files. A panic inside the body of an exported C function is a value
  of its result type, but none of the bodies modelled here produces one.
\<close>

section \<open>From the additions to the results\<close>

text \<open>
  C1. Searching finds what was added: after any sequence of additions to a new writer, streamed
  through any output that keeps its contract and opened from any input that serves those bytes, every
  search with a valid exact query and a positive limit succeeds, whatever was searched before. It
  returns row ids of additions that the query asks for and the filter passes, none more often than
  it was added, and all of them if the limit allows. What a query asks for is its documented meaning
  over the texts of the columns, cut into tokens by the analyzer of the writer's configuration. This
  rests on tantivy storing the documents it accepts and selecting documents by the meaning of its own
  query objects, on text fields with different names without surrounding blanks, and on what the
  chain relies on.
\<close>

theorem search_finds_additions:
  assumes out: "total_seek_writer W written" "written out1 = []" and inp: "\<And>b. total_seek_read (input b) b"
    and new: "writer_new A E c e = (e0, Inr w0)" and analyzer: "build_text_analyzer E (tokenizer c) = Inr a"
    and names: "\<forall>n \<in> set (text_fields c). trim n = n" "inj_on (wa_get_field A (build_schema c)) (set (text_fields c))"
    and run: "writer_run J A W (w0, e0, out0) tr (w, e1, out1)" "fw_state w = Some st"
    and stores: "stores_documents A (ws_index_writer st) stored" "stored e0 = []" "stored e2 = stored e1"
    and commit: "st_bind (wa_commit A (ws_index_writer st)) (\<lambda>_. wa_wait_merging_threads A (ws_index_writer st)) e1
          = (e2, Inr ())"
    and ready: "index_ready J A w e2 (ws_temp_dir st) fs ds es json" and readable: "readable_by J A B w fs ds es json"
    and terms: "sem_term S = doc_terms (tokens_of a)"
    and index: "opens_documents B tokens_of (wa_get_field A (build_schema c)) (zip (map if_name fs) ds)
        (row_id_field c) (fw_row_id_field w) S (stored e2)"
  shows "\<exists>out2 rd d.
     writer_write J A W (w, e1, out1) = ((w\<lparr>fw_state := None\<rparr>, e2, out2), Inr ())
     \<and> reader_open J B E (input (written out2)) i = Inr (rd, d)
     \<and> (\<forall>ops query q keep limit. from_json J query = Inr q \<and> exact_ok c q \<and> limit \<noteq> 0 \<longrightarrow>
          (\<exists>s' res. search_with_filter J B query limit keep (fold (exec_reader J B) ops (rd, d)) = (s', Inr res)
             \<and> mset (sr_row_ids res) \<subseteq># matching_rows c (tokens_of a) (added c tr) q keep
             \<and> length (sr_row_ids res) = min (unat limit) (size (matching_rows c (tokens_of a) (added c tr) q keep))))"
proof -
  obtain out2 where wr: "writer_write J A W (w, e1, out1) = ((w\<lparr>fw_state := None\<rparr>, e2, out2), Inr ())"
      "written out2 = envelope_prefix json @ concat ds"
    using chain_write [OF out(1) run(2) commit ready, of out1] out(2) by auto
  have "total_seek_read (input (written out2)) (envelope_prefix json @ concat ds)"
    using inp [of "written out2"] unfolding wr(2) .
  from chain_search [where i = i, OF new analyzer names run stores commit ready readable terms index this] wr(1)
  show ?thesis by blast
qed

text \<open>The small index again, behind an engine over its documents, and a codec that knows one query.\<close>

definition example_codec :: json_text where
  "example_codec = example_text_codec\<lparr>jt_parse := (\<lambda>bs. if bs = [1]
     then Inr (JObj [(''match'', JObj [(''query'', JStr ''c''), (''column'', JStr ''text'')])])
     else jt_parse example_text_codec bs)\<rparr>"

theorem search_finds_additions_witness:
  "\<exists>a out2 rd d s' res.
     writer_write example_codec example_api vec_writer (example_writer 2 True, example_docs, [])
       = ((example_writer 2 False, example_docs, out2), Inr ())
     \<and> reader_open example_codec (document_engine (wa_get_field example_api (build_schema default_config)) 0 a example_docs) example_env
         (slice_pread \<lparr>slice_data = out2\<rparr>) () = Inr (rd, d)
     \<and> search_with_filter example_codec (document_engine (wa_get_field example_api (build_schema default_config)) 0 a example_docs)
         [1] 10 None (rd, d) = (s', Inr res)
     \<and> sr_row_ids res = [9]"
proof -
  let ?get = "wa_get_field example_api (build_schema default_config)"
  let ?st = "\<lparr>ws_index_writer = (), ws_temp_dir = ''t''\<rparr>"
  obtain a where a: "build_text_analyzer example_env (tokenizer default_config) = Inr a"
    using example_default_analyzer by blast
  let ?B = "document_engine ?get 0 a example_docs :: (unit, unit, unit, unit, nat, string) reader_api"
  have closed: "(example_writer 2 True)\<lparr>fw_state := None\<rparr> = example_writer 2 False" by (simp add: example_writer_def)
  have few: "length example_docs < 2 ^ 32" by (simp add: example_docs_def)
  have names: "\<forall>n \<in> set (text_fields default_config). trim n = n" by code_simp
  have inj: "inj_on ?get (set (text_fields default_config))" by (simp add: default_config_def default_text_fields_def)
  have stores: "stores_documents example_api (ws_index_writer ?st) (\<lambda>docs. docs)"
    by (simp add: stores_documents_def example_api_def)
  have commit: "st_bind (wa_commit example_api (ws_index_writer ?st)) (\<lambda>_. wa_wait_merging_threads example_api (ws_index_writer ?st))
      example_docs = (example_docs, Inr ())"
    by (simp add: example_api_def st_bind_def)
  have ready: "index_ready example_codec example_api (example_writer 2 True) example_docs (ws_temp_dir ?st) fs ds es json"
    if "index_ready example_text_codec example_api (example_writer 2 True) example_docs (ws_temp_dir ?st) fs ds es json" for fs ds es json
    using that by (simp add: index_ready_def example_codec_def)
  have readable: "readable_by example_codec example_api ?B (example_writer 2 True) fs ds (hdr_files example_header) example_header_text" for fs ds
  proof -
    have "example_header_text \<noteq> [1]" by (simp add: example_header_text_def)
    then show ?thesis
      using example_readable [of fs ds, where 'a = unit] by (simp add: readable_by_def example_codec_def document_engine_def example_reader_api_def)
  qed
  have state: "fw_state (example_writer 2 True) = Some ?st" "fw_row_id_field (example_writer 2 True) = 0"
    by (simp_all add: example_writer_def)
  have reads: "total_seek_read (slice_pread \<lparr>slice_data = b\<rparr>) b" for b
    using slice_rd.total_seek_read_axioms [of "\<lparr>slice_data = b\<rparr>"] by simp
  have terms: "sem_term (exact_semantics (space_tokens a) :: (nat, string, nat document) leaf_semantics) = doc_terms (space_tokens a)"
    by (simp add: exact_semantics_def)
  have opens: "opens_documents ?B space_tokens ?get contents id_name (fw_row_id_field (example_writer 2 True))
      (exact_semantics (space_tokens a)) example_docs" for contents id_name
    unfolding state(2) by (rule engine_opens [OF few])
  have q: "from_json example_codec [1] = Inr (QMatch (Some ''text'') ''c'' OpOr f32_one (Some 0) 50 0)"
    by (simp add: from_json_def example_codec_def minimal_match)
  have trimmed: "trim ''text'' = ''text''" by code_simp
  have exact: "exact_ok default_config (QMatch (Some ''text'') ''c'' OpOr f32_one (Some 0) 50 0)"
    using boost_ok_one by (simp add: column_ok_def given_column_def trimmed default_config_def default_text_fields_def)
  have rows: "matching_rows default_config (space_tokens a) (added default_config example_trace)
      (QMatch (Some ''text'') ''c'' OpOr f32_one (Some 0) 50 0) None = {#9#}"
    by (simp add: matching_rows_def example_trace_def default_config_def default_text_fields_def default_text_field_def searched_columns_def
        target_column_def given_column_def trimmed terms_hold_def token_holds_def column_words_def space_tokens_def)
  let ?q = "QMatch (Some ''text'') ''c'' OpOr f32_one (Some 0) 50 0"
  let ?M = "matching_rows default_config (space_tokens a) (added default_config example_trace) ?q None"
  obtain out2 rd d where write_it: "writer_write example_codec example_api vec_writer (example_writer 2 True, example_docs, [])
        = (((example_writer 2 True)\<lparr>fw_state := None\<rparr>, example_docs, out2), Inr ())"
    and open_it: "reader_open example_codec ?B example_env (slice_pread \<lparr>slice_data = out2\<rparr>) () = Inr (rd, d)"
    and find_it: "\<forall>ops query q keep limit. from_json example_codec query = Inr q \<and> exact_ok default_config q \<and> limit \<noteq> 0 \<longrightarrow>
          (\<exists>s' res. search_with_filter example_codec ?B query limit keep (fold (exec_reader example_codec ?B) ops (rd, d)) = (s', Inr res)
             \<and> mset (sr_row_ids res) \<subseteq># matching_rows default_config (space_tokens a) (added default_config example_trace) q keep
             \<and> length (sr_row_ids res) = min (unat limit) (size (matching_rows default_config (space_tokens a) (added default_config example_trace) q keep)))"
    using search_finds_additions [where W = vec_writer and written = "\<lambda>v. v" and input = "\<lambda>b. slice_pread \<lparr>slice_data = b\<rparr>" and B = ?B
        and S = "exact_semantics (space_tokens a)" and tokens_of = space_tokens and stored = "\<lambda>docs. docs" and i = "()",
        OF vec_total.total_seek_writer_axioms refl reads example_writer_new a names inj example_writer_run state(1) stores refl refl commit
          ready [OF example_index_ready] readable terms opens] by blast
  obtain s' res where search: "search_with_filter example_codec ?B [1] 10 None (fold (exec_reader example_codec ?B) [] (rd, d)) = (s', Inr res)"
      "mset (sr_row_ids res) \<subseteq># ?M" "length (sr_row_ids res) = min (unat (10 :: usize)) (size ?M)"
    using find_it [rule_format, where ops = "[]" and limit = 10 and keep = None, OF conjI, OF q conjI, OF exact] by auto
  have "sr_row_ids res = [9]"
    using search(2,3) unfolding rows by (cases "sr_row_ids res") auto
  with write_it open_it search(1) show ?thesis
    unfolding closed by (intro exI [of _ a] exI [of _ out2] exI [of _ rd] exI [of _ d] exI [of _ s'] exI [of _ res]) simp
qed

section \<open>From the writer to the reader\<close>

text \<open>
  C2. The whole chain: an index written by any sequence of additions to a new writer and then
  streamed into a buffer opens again from that buffer, and the metadata of the opened index
  carries the configuration of the writer and the number of documents that were added. This
  rests on serde_json parsing what it printed, on plain, pairwise different file names with
  readable files, and on tantivy opening a directory that serves the files it committed.
\<close>

theorem written_index_opens:
  assumes new: "writer_new A E c e = (e0, Inr w0)"
    and run: "writer_run J A vec_writer (w0, e0, []) tr (w, e1, [])" "fw_state w = Some st"
    and commit: "st_bind (wa_commit A (ws_index_writer st)) (\<lambda>_. wa_wait_merging_threads A (ws_index_writer st)) e1
          = (e2, Inr ())"
    and files: "collect_index_files (wa_fs A e2) (ws_temp_dir st) = Inr fs" "fs \<noteq> []"
      "list_all2 (\<lambda>f d. wa_open_file A e2 (if_path f) = Inr d \<and> length d = unat (if_length f)) fs ds"
      "\<forall>f \<in> set fs. validate_archive_file_name (if_name f) = Inr ()" "distinct (map (components \<circ> if_name) fs)"
    and entries: "archive_entries 0 fs = Inr es"
    and json: "jt_print J (header_to_json (archive_header (wa_version A) w es)) = Inr json"
      "jt_parse J json = Inr (header_to_json (archive_header (wa_version A) w es))" "length json \<le> MAX_HEADER_BYTES"
      "16 + length json + length (concat ds) < 2 ^ 64"
    and version: "\<not> is_blank (wa_version A)" "ra_version B = wa_version A"
    and opens: "\<And>R files d. serves_files R files d (zip (map if_name fs) ds) \<Longrightarrow> \<exists>d' x. ra_open B R files d = (d', Inr x)"
  shows "\<exists>archive rd d.
     writer_write J A vec_writer (w, e1, []) = ((w\<lparr>fw_state := None\<rparr>, e2, archive), Inr ())
     \<and> reader_open J B E (slice_pread \<lparr>slice_data = archive\<rparr>) () = Inr (rd, d)
     \<and> config (reader_metadata rd) = c
     \<and> unat (document_count (reader_metadata rd)) = length (filter (\<lambda>(op, r). op \<noteq> OpWrite \<and> r = Inr ()) tr)"
proof -
  have ready: "index_ready J A w e2 (ws_temp_dir st) fs ds es json" using files entries json by (simp add: index_ready_def)
  have readable: "readable_by J A B w fs ds es json" using json(2) version opens by (simp add: readable_by_def)
  have total: "total_seek_read (slice_pread \<lparr>slice_data = a\<rparr>) a" for a
    using slice_rd.total_seek_read_axioms [of "\<lparr>slice_data = a\<rparr>"] by simp
  note writer = chain_writer [OF new run(1)]
  from chain_write [OF vec_total.total_seek_writer_axioms run(2) commit ready, of "[]"]
    chain_open [OF total writer(2,3) ready readable, of "()"]
  show ?thesis using writer(1,4) by (fastforce simp: reader_metadata_def)
qed

theorem written_index_opens_witness:
  "\<exists>archive rd d.
     writer_write example_text_codec example_api vec_writer (example_writer 2 True, example_docs, [])
       = ((example_writer 2 False, example_docs, archive), Inr ())
     \<and> reader_open example_text_codec example_reader_api example_env (slice_pread \<lparr>slice_data = archive\<rparr>) () = Inr (rd, d)
     \<and> config (reader_metadata rd) = default_config \<and> unat (document_count (reader_metadata rd)) = 2"
proof -
  let ?fs = "[\<lparr>if_name = ''meta.json'', if_path = ''t/meta.json'', if_length = 3\<rparr>,
     \<lparr>if_name = ''seg.fast'', if_path = ''t/seg.fast'', if_length = 0\<rparr>,
     \<lparr>if_name = ''seg.idx'', if_path = ''t/seg.idx'', if_length = 2\<rparr>] :: index_file list"
  have names: "\<forall>f \<in> set ?fs. validate_archive_file_name (if_name f) = Inr ()" "distinct (map (components \<circ> if_name) ?fs)"
    by code_simp+
  have header: "archive_header (wa_version example_api) (example_writer 2 True) (hdr_files example_header) = example_header"
    by (simp add: archive_header_def example_header_def example_writer_def example_api_def)
  have closed: "(example_writer 2 True)\<lparr>fw_state := None\<rparr> = example_writer 2 False" by (simp add: example_writer_def)
  have version: "\<not> is_blank ''0.26.1''" by code_simp
  have count: "length (filter (\<lambda>(op, r). op \<noteq> OpWrite \<and> r = Inr ()) example_trace) = 2" by (simp add: example_trace_def)
  have "\<exists>archive rd d.
     writer_write example_text_codec example_api vec_writer (example_writer 2 True, example_docs, [])
       = (((example_writer 2 True)\<lparr>fw_state := None\<rparr>, example_docs, archive), Inr ())
     \<and> reader_open example_text_codec example_reader_api example_env (slice_pread \<lparr>slice_data = archive\<rparr>) () = Inr (rd, d)
     \<and> config (reader_metadata rd) = default_config
     \<and> unat (document_count (reader_metadata rd)) = length (filter (\<lambda>(op, r). op \<noteq> OpWrite \<and> r = Inr ()) example_trace)"
  proof (rule written_index_opens [OF example_writer_new example_writer_run _ _ _ _ _ names example_entries])
    show "fw_state (example_writer 2 True) = Some \<lparr>ws_index_writer = (), ws_temp_dir = ''t''\<rparr>"
      by (simp add: example_writer_def)
    show "list_all2 (\<lambda>f d. wa_open_file example_api example_docs (if_path f) = Inr d \<and> length d = unat (if_length f))
        ?fs [[123, 32, 125], [], [7, 8]]"
      by (simp add: example_api_def example_disk_def)
    show "jt_print example_text_codec (header_to_json (archive_header (wa_version example_api) (example_writer 2 True)
        (hdr_files example_header))) = Inr example_header_text"
      unfolding header by (simp add: example_text_codec_def)
    show "jt_parse example_text_codec example_header_text = Inr (header_to_json (archive_header (wa_version example_api)
        (example_writer 2 True) (hdr_files example_header)))"
      unfolding header by (simp add: example_text_codec_def)
  qed (simp_all add: example_api_def example_files version example_reader_api_def MAX_HEADER_BYTES_def
      example_header_text_def st_bind_def)
  then show ?thesis by (simp only: closed count)
qed

section \<open>The chain through the C interface\<close>

lemma ffi_status_ok_zero: "ffi_status render (st, Returned (Inr ())) = (st, 0)"
  by (simp add: ffi_status_def)

text \<open>
  C15. The chain through the C interface, for any callbacks that keep their promise: writing the
  index behind a live handle gives status 0, and opening an input over the bytes that the output
  callbacks have received gives a new handle, behind which is a reader with the configuration of
  the writer and the number of documents that were added. The library keeps nothing else of the
  two calls: all other objects and the last error are untouched.
\<close>

theorem ffi_index_roundtrip:
  assumes handle: "ff_writers st p = Some w" "p \<noteq> 0" and alloc: "fe_alloc V (live st) \<notin> insert 0 (live st)"
    and out: "total_seek_writer (ffi_output output) written" and inp: "\<And>a. total_seek_read (ffi_pread (input a)) a"
    and new: "writer_new (fe_writer_api V) (fe_analyzers V) c e = (e0, Inr w0)"
    and run: "writer_run (fe_json V) (fe_writer_api V) W (w0, e0, out0) tr (w, ff_world st, out1)" "fw_state w = Some ws"
    and commit: "st_bind (wa_commit (fe_writer_api V) (ws_index_writer ws))
        (\<lambda>_. wa_wait_merging_threads (fe_writer_api V) (ws_index_writer ws)) (ff_world st) = (e2, Inr ())"
    and ready: "index_ready (fe_json V) (fe_writer_api V) w e2 (ws_temp_dir ws) fs ds es json"
    and readable: "readable_by (fe_json V) (fe_writer_api V) (fe_reader_api V) w fs ds es json"
    and empty: "written ctx = []"
  shows "\<exists>st' ctx' st'' q rd d.
     paimon_ftindex_writer_write_index V p output (st, ctx) = Some ((st', ctx'), 0)
     \<and> paimon_ftindex_reader_open V (input (written ctx')) i st' = (st'', q)
     \<and> q \<notin> insert 0 (live st) \<and> ff_readers st'' q = Some (rd, d)
     \<and> config (reader_metadata rd) = c
     \<and> unat (document_count (reader_metadata rd)) = length (filter (\<lambda>(op, r). op \<noteq> OpWrite \<and> r = Inr ()) tr)
     \<and> ff_last_error st'' = ff_last_error st \<and> (\<forall>h. h \<noteq> p \<and> h \<noteq> q \<longrightarrow> same_box h st st'')"
proof -
  note writer = chain_writer [OF new run(1)]
  obtain ctx' where wr: "writer_write (fe_json V) (fe_writer_api V) (ffi_output output) (w, ff_world st, ctx)
      = ((w\<lparr>fw_state := None\<rparr>, e2, ctx'), Inr ())" "written ctx' = envelope_prefix json @ concat ds"
    using chain_write [OF out run(2) commit ready, of ctx] empty by auto
  let ?st = "st\<lparr>ff_world := e2, ff_writers := (ff_writers st)(p \<mapsto> w\<lparr>fw_state := None\<rparr>)\<rparr>"
  have "require_box (ff_writers st) p ''writer'' = Some (Inr w)" using handle by (simp add: require_box_def)
  then have wrote: "paimon_ftindex_writer_write_index V p output (st, ctx) = Some ((?st, ctx'), 0)"
    using wr(1) by (simp add: paimon_ftindex_writer_write_index_def ffi_status_ok_zero)
  obtain rd d where rd: "reader_open (fe_json V) (fe_reader_api V) (fe_analyzers V) (ffi_pread (input (written ctx'))) i = Inr (rd, d)"
      "rd_metadata rd = \<lparr>config = fw_config w, document_count = fw_document_count w, tantivy_version = wa_version (fe_writer_api V)\<rparr>"
    using chain_open [OF inp [of "written ctx'", unfolded wr(2)] writer(2,3) ready readable, of i] unfolding wr(2) by blast
  have live: "live ?st = live st" using handle by (auto simp: live_def)
  let ?q = "fe_alloc V (live st)"
  have "paimon_ftindex_reader_open V (input (written ctx')) i ?st
      = (?st\<lparr>ff_readers := (ff_readers st)(?q \<mapsto> (rd, d))\<rparr>, ?q)"
    using rd(1) live by (simp add: paimon_ftindex_reader_open_def ffi_ptr_def Let_def)
  with wrote alloc rd(2) writer(1,4) show ?thesis
    by (intro exI conjI) (assumption, assumption, auto simp: reader_metadata_def same_box_def)
qed

definition example_written :: "(nat document list, nat, unit, unit, unit, unit) ffi_state" where
  "example_written = example_ffi_state\<lparr>ff_writers := [9 \<mapsto> example_writer 2 True], ff_world := example_docs\<rparr>"

theorem ffi_index_roundtrip_witness:
  "\<exists>st' archive st'' q rd d.
     paimon_ftindex_writer_write_index (example_ffi\<lparr>fe_json := example_text_codec\<rparr>) 9 write_vec (example_written, [])
       = Some ((st', archive), 0)
     \<and> paimon_ftindex_reader_open (example_ffi\<lparr>fe_json := example_text_codec\<rparr>) (read_vec archive) () st' = (st'', q)
     \<and> q \<notin> {0, 7, 9} \<and> ff_readers st'' q = Some (rd, d) \<and> config (reader_metadata rd) = default_config
     \<and> unat (document_count (reader_metadata rd)) = 2"
proof -
  let ?V = "example_ffi\<lparr>fe_json := example_text_codec\<rparr>"
  have live: "live example_written = {7, 9}" by (auto simp: live_def example_written_def example_ffi_state_def)
  have "insert 0 (live example_written) \<noteq> UNIV" by (rule room_left) (simp add: live)
  from next_free_fresh [OF this] have alloc: "fe_alloc ?V (live example_written) \<notin> insert 0 (live example_written)"
    by (simp add: example_ffi_def)
  have V: "fe_json ?V = example_text_codec" "fe_writer_api ?V = example_api" "fe_reader_api ?V = example_reader_api"
      "fe_analyzers ?V = example_env" "ff_world example_written = example_docs"
    by (simp_all add: example_ffi_def example_written_def)
  have w: "ff_writers example_written 9 = Some (example_writer 2 True)" "(9 :: u64) \<noteq> 0"
    by (simp_all add: example_written_def)
  have ws: "fw_state (example_writer 2 True) = Some \<lparr>ws_index_writer = (), ws_temp_dir = ''t''\<rparr>"
    by (simp add: example_writer_def)
  have count: "length (filter (\<lambda>(op, r). op \<noteq> OpWrite \<and> r = Inr ()) example_trace) = 2" by (simp add: example_trace_def)
  let ?ws = "\<lparr>ws_index_writer = (), ws_temp_dir = ''t''\<rparr>"
  have commit: "st_bind (wa_commit example_api (ws_index_writer ?ws)) (\<lambda>_. wa_wait_merging_threads example_api (ws_index_writer ?ws))
      example_docs = (example_docs, Inr ())"
    by (simp add: example_api_def st_bind_def)
  note chain = ffi_index_roundtrip [where V = ?V, OF w alloc write_vec_total read_vec_total, unfolded V,
      OF example_writer_new example_writer_run [where W = vec_writer and out = "[]"] ws commit
        example_index_ready example_readable refl]
  from chain [of "()"] live count
  show ?thesis by fastforce
qed

section \<open>The chain through the Java interface\<close>

text \<open>
  C16. The chain through the Java interface: over a machine that fulfils the contracts of its
  streams, writing the index behind a live handle returns normally and the output stream has
  received the whole archive; opening an input object over these bytes, no more than Java can
  index, returns a new handle, behind which is a reader with the configuration of the writer and
  the number of documents that were added.
\<close>

theorem java_index_roundtrip:
  assumes handle: "jn_writers st p = Some w" "p \<noteq> 0"
    and alloc: "fe_alloc (jl_ffi L) (jn_live st) \<notin> insert 0 (jn_live st)"
    and vm: "\<And>j. je_java_vm (jl_env L) j = (j, Inr ())"
      "\<And>j. je_global_ref (jl_env L) out j = (j, Inr out_ref)" "\<And>j. je_global_ref (jl_env L) inp j = (j, Inr inp_ref)"
    and stream: "total_java_stream (je_output (jl_env L) out_ref) written arr" "written (jn_vm st) = []"
    and source: "total_java_source (jl_input L inp_ref) (envelope_prefix json @ concat ds) content_arr"
      "length (envelope_prefix json @ concat ds) < 2 ^ 31"
    and new: "writer_new (fe_writer_api (jl_ffi L)) (fe_analyzers (jl_ffi L)) c e = (e0, Inr w0)"
    and run: "writer_run (fe_json (jl_ffi L)) (fe_writer_api (jl_ffi L)) W (w0, e0, out0) tr (w, jn_world st, out1)" "fw_state w = Some ws"
    and commit: "st_bind (wa_commit (fe_writer_api (jl_ffi L)) (ws_index_writer ws))
        (\<lambda>_. wa_wait_merging_threads (fe_writer_api (jl_ffi L)) (ws_index_writer ws)) (jn_world st) = (e2, Inr ())"
    and ready: "index_ready (fe_json (jl_ffi L)) (fe_writer_api (jl_ffi L)) w e2 (ws_temp_dir ws) fs ds es json"
    and readable: "readable_by (fe_json (jl_ffi L)) (fe_writer_api (jl_ffi L)) (fe_reader_api (jl_ffi L)) w fs ds es json"
  shows "\<exists>st' st'' q rd d.
     native L (NativeWriteIndex p out) st = Some (st', JVoid) \<and> written (jn_vm st') = envelope_prefix json @ concat ds
     \<and> native L (OpenReader inp) st' = Some (st'', JLong q)
     \<and> q \<notin> insert 0 (jn_live st) \<and> jn_readers st'' q = Some (rd, d)
     \<and> config (reader_metadata rd) = c
     \<and> unat (document_count (reader_metadata rd)) = length (filter (\<lambda>(op, r). op \<noteq> OpWrite \<and> r = Inr ()) tr)"
proof -
  note writer = chain_writer [OF new run(1)]
  obtain j where wr: "writer_write (fe_json (jl_ffi L)) (fe_writer_api (jl_ffi L)) (java_output (je_output (jl_env L) out_ref)) (w, jn_world st, jn_vm st)
      = ((w\<lparr>fw_state := None\<rparr>, e2, j), Inr ())" "written j = envelope_prefix json @ concat ds"
    using chain_write [OF total_java_stream.java_total_writer [OF stream(1)] run(2) commit ready, of "jn_vm st"] stream(2) by auto
  let ?st = "st\<lparr>jn_world := e2, jn_writers := (jn_writers st)(p \<mapsto> w\<lparr>fw_state := None\<rparr>), jn_vm := j\<rparr>"
  have wrote: "native L (NativeWriteIndex p out) st = Some (?st, JVoid)"
    using handle wr(1) vm by (simp add: native_def jni_write_index_def with_handle_def throw_and_return_def
        in_env_def st_bind_def to_text_def)
  obtain rd d where rd: "reader_open (fe_json (jl_ffi L)) (fe_reader_api (jl_ffi L)) (fe_analyzers (jl_ffi L))
        (java_pread (jl_input L inp_ref)) (jl_input_state L inp_ref) = Inr (rd, d)"
      "rd_metadata rd = \<lparr>config = fw_config w, document_count = fw_document_count w, tantivy_version = wa_version (fe_writer_api (jl_ffi L))\<rparr>"
    using chain_open [OF total_java_source.int_sized_total [OF source(1)] writer(2,3) ready readable] source(2) by blast
  have live: "jn_live ?st = jn_live st" using handle by (auto simp: jn_live_def)
  let ?q = "fe_alloc (jl_ffi L) (jn_live st)"
  have "native L (OpenReader inp) ?st = Some (?st\<lparr>jn_readers := (jn_readers st)(?q \<mapsto> (rd, d))\<rparr>, JLong ?q)"
    using rd(1) live vm by (simp add: native_def jni_open_reader_def throw_and_return_def in_env_def st_bind_def Let_def)
  with wrote wr(2) alloc rd(2) writer(1,4) show ?thesis
    by (intro exI conjI) (assumption, simp, assumption, auto simp: reader_metadata_def)
qed

text \<open>The small machine again, with an input object over the archive.\<close>

definition example_java :: "(nat document list, nat, unit, unit, machine, unit, unit, unit, string, machine, nat) jni_lib" where
  "example_java = \<lparr>jl_ffi = example_ffi\<lparr>fe_json := example_text_codec\<rparr>, jl_env = machine_env,
     jl_input = (\<lambda>_. machine_io (envelope_prefix example_header_text @ concat [[123, 32, 125], [], [7, 8]])),
     jl_input_state = (\<lambda>_. empty_machine)\<rparr>"

definition example_java_state :: "(nat document list, nat, unit, machine, unit, unit, machine) jni_state" where
  "example_java_state = \<lparr>jn_writers = [9 \<mapsto> example_writer 2 True], jn_readers = Map.empty, jn_world = example_docs,
     jn_vm = empty_machine\<rparr>"

theorem java_index_roundtrip_witness:
  "\<exists>st' st'' q rd d.
     native example_java (NativeWriteIndex 9 1) example_java_state = Some (st', JVoid)
     \<and> mc_out (jn_vm st') = envelope_prefix example_header_text @ [123, 32, 125, 7, 8]
     \<and> native example_java (OpenReader 2) st' = Some (st'', JLong q) \<and> q \<notin> {0, 9} \<and> jn_readers st'' q = Some (rd, d)
     \<and> config (reader_metadata rd) = default_config \<and> unat (document_count (reader_metadata rd)) = 2"
proof -
  let ?ws = "\<lparr>ws_index_writer = (), ws_temp_dir = ''t''\<rparr>"
  have live: "jn_live example_java_state = {9}" by (auto simp: jn_live_def example_java_state_def)
  have "insert 0 (jn_live example_java_state) \<noteq> UNIV" by (rule room_left) (simp add: live)
  from next_free_fresh [OF this] have alloc: "fe_alloc (jl_ffi example_java) (jn_live example_java_state) \<notin> insert 0 (jn_live example_java_state)"
    by (simp add: example_ffi_def example_java_def)
  have lib: "fe_json (jl_ffi example_java) = example_text_codec" "fe_writer_api (jl_ffi example_java) = example_api"
      "fe_reader_api (jl_ffi example_java) = example_reader_api" "fe_analyzers (jl_ffi example_java) = example_env"
      "jn_world example_java_state = example_docs"
    by (simp_all add: example_ffi_def example_java_def example_java_state_def)
  have w: "jn_writers example_java_state 9 = Some (example_writer 2 True)" "(9 :: i64) \<noteq> 0"
    by (simp_all add: example_java_state_def)
  have ws: "fw_state (example_writer 2 True) = Some ?ws" by (simp add: example_writer_def)
  have vm: "je_java_vm (jl_env example_java) j = (j, Inr ())" "je_global_ref (jl_env example_java) a j = (j, Inr a)" for j a
    by (simp_all add: example_java_def machine_env_def st_lift_def)
  have stream: "total_java_stream (je_output (jl_env example_java) 1) mc_out mc_array" "mc_out (jn_vm example_java_state) = []"
    using mc_out.total_java_stream_axioms by (simp_all add: example_java_def machine_env_def example_java_state_def empty_machine_def)
  have source: "total_java_source (jl_input example_java 2)
      (envelope_prefix example_header_text @ concat [[123, 32, 125], [], [7, 8]]) mc_array"
    unfolding example_java_def jni_lib.select_convs by (rule mc_in.total_java_source_axioms)
  have size: "length (envelope_prefix example_header_text @ concat [[123, 32, 125], [], [7, 8]]) < 2 ^ 31"
    by (simp add: envelope_prefix_def FORMAT_MAGIC_def example_header_text_def)
  have commit: "st_bind (wa_commit example_api (ws_index_writer ?ws)) (\<lambda>_. wa_wait_merging_threads example_api (ws_index_writer ?ws))
      example_docs = (example_docs, Inr ())"
    by (simp add: example_api_def st_bind_def)
  have count: "length (filter (\<lambda>(op, r). op \<noteq> OpWrite \<and> r = Inr ()) example_trace) = 2" by (simp add: example_trace_def)
  note chain = java_index_roundtrip [where L = example_java, OF w alloc vm vm(2) stream source size, unfolded lib,
      OF example_writer_new example_writer_run [where W = vec_writer and out = "[]"] ws commit example_index_ready example_readable]
  from chain live count show ?thesis by fastforce
qed

end
